(* ===== verification/Prelude.thy ===== *)
theory Prelude
  imports Complex_Main "HOL-Library.Word" "HOL-Library.AList" "HOL-Library.Multiset"
    "HOL-Library.Monad_Syntax"
begin

text \<open>
  Shared vocabulary of the development: the machine integers of the Rust source at their
  width, the saturating operations of the standard library, the result type of fallible
  functions, hash maps as association lists, and the generic lemmas the component theories
  rest on.

  Arithmetic follows the release profile of the workspace (\<^verbatim>\<open>Cargo.toml\<close>): \<open>+\<close>, \<open>-\<close> and
  \<open>*\<close> on unsigned integers wrap around, and \<open>usize\<close> has 64 bits.
\<close>

section \<open>Machine integers\<close>

type_synonym u8 = "8 word"
type_synonym u16 = "16 word"
type_synonym u32 = "32 word"
type_synonym u64 = "64 word"
type_synonym u128 = "128 word"

named_theorems sat_simps \<open>saturating arithmetic read through unat\<close>

definition NS_PER_SEC :: u64 where
  "NS_PER_SEC = 1000000000"

definition saturating_sub :: "'a::len word \<Rightarrow> 'a word \<Rightarrow> 'a word" where
  "saturating_sub a b = (if a < b then 0 else a - b)"

definition saturating_add :: "'a::len word \<Rightarrow> 'a word \<Rightarrow> 'a word" where
  "saturating_add a b = (if unat a + unat b < 2 ^ LENGTH('a) then a + b else - 1)"

definition saturating_mul :: "'a::len word \<Rightarrow> 'a word \<Rightarrow> 'a word" where
  "saturating_mul a b = (if unat a * unat b < 2 ^ LENGTH('a) then a * b else - 1)"

lemma unat_saturating_sub [sat_simps]: "unat (saturating_sub a b) = unat a - unat b"
  by (auto simp: saturating_sub_def word_less_nat_alt unat_sub_if_size)

lemma saturating_sub_0 [simp]: "saturating_sub a 0 = a"
  by (simp add: saturating_sub_def)

lemma saturating_sub_self [simp]: "saturating_sub a a = 0"
  by (simp add: saturating_sub_def)

lemma saturating_sub_mono: "a \<le> b \<Longrightarrow> saturating_sub a c \<le> saturating_sub b c"
  by (simp add: word_le_nat_alt sat_simps diff_le_mono)

lemma unat_minus_one_word_eq: "unat (- 1 :: 'a::len word) = 2 ^ LENGTH('a) - 1"
  by (simp add: mask_eq_exp_minus_1 unsigned_minus_1_eq_mask)

lemma unat_saturating_add [sat_simps]:
  "unat (saturating_add a b) = min (unat a + unat b) (2 ^ LENGTH('a) - 1)" for a :: "'a::len word"
proof (cases "unat a + unat b < 2 ^ LENGTH('a)")
  case True
  then show ?thesis
    by (simp add: saturating_add_def unat_word_ariths)
next
  case False
  moreover have "unat (- 1 :: 'a word) = 2 ^ LENGTH('a) - 1"
    by (simp add: unat_minus_one_word_eq)
  ultimately show ?thesis
    by (simp add: saturating_add_def)
qed

lemma unat_saturating_mul [sat_simps]:
  "unat (saturating_mul a b) = min (unat a * unat b) (2 ^ LENGTH('a) - 1)" for a :: "'a::len word"
proof (cases "unat a * unat b < 2 ^ LENGTH('a)")
  case True
  then show ?thesis
    by (simp add: saturating_mul_def unat_word_ariths)
next
  case False
  moreover have "unat (- 1 :: 'a word) = 2 ^ LENGTH('a) - 1"
    by (simp add: unat_minus_one_word_eq)
  ultimately show ?thesis
    by (simp add: saturating_mul_def)
qed

lemma unat_Suc_word: "Suc (unat a) < 2 ^ LENGTH('a) \<Longrightarrow> unat (a + 1) = Suc (unat a)"
  for a :: "'a::len word"
  by (simp add: unat_word_ariths)

section \<open>Hash maps as association lists\<close>

text \<open>
  A \<open>HashMap\<close> is an association list with distinct keys: \<open>map_of\<close> is \<open>get\<close>,
  \<open>AList.update\<close> is \<open>insert\<close> (in place where the key is present, as \<open>get_mut\<close> writes), and
  \<open>AList.delete\<close> is \<open>remove\<close>. The list order stands for the iteration order of the table,
  which Rust leaves unspecified.
\<close>

type_synonym ('k, 'v) hash_map = "('k \<times> 'v) list"

definition keys_distinct :: "('k, 'v) hash_map \<Rightarrow> bool" where
  "keys_distinct m \<longleftrightarrow> distinct (map fst m)"

definition contains_key :: "('k, 'v) hash_map \<Rightarrow> 'k \<Rightarrow> bool" where
  "contains_key m k \<longleftrightarrow> map_of m k \<noteq> None"

lemma keys_distinct_Nil [simp]: "keys_distinct []"
  by (simp add: keys_distinct_def)

lemma keys_distinct_Cons [simp]:
  "keys_distinct ((k, v) # m) \<longleftrightarrow> k \<notin> fst ` set m \<and> keys_distinct m"
  by (simp add: keys_distinct_def)

lemma fst_set_update: "fst ` set (AList.update k v m) = insert k (fst ` set m)"
  by (induction m) auto

lemma keys_distinct_update [simp]: "keys_distinct (AList.update k v m) \<longleftrightarrow> keys_distinct m"
  by (induction m) (force simp: fst_set_update)+

lemma keys_distinct_delete [simp]: "keys_distinct m \<Longrightarrow> keys_distinct (AList.delete k m)"
  by (simp add: keys_distinct_def distinct_delete)

lemma keys_distinct_filter [simp]: "keys_distinct m \<Longrightarrow> keys_distinct (filter P m)"
  by (induction m) auto

text \<open>The number of entries with a property, under the table's updates.\<close>

definition count_entries :: "('v \<Rightarrow> bool) \<Rightarrow> ('k, 'v) hash_map \<Rightarrow> nat" where
  "count_entries P m = length (filter (\<lambda>(k, v). P v) m)"

lemma count_entries_Nil [simp]: "count_entries P [] = 0"
  by (simp add: count_entries_def)

lemma count_entries_Cons [simp]:
  "count_entries P ((k, v) # m) = (if P v then 1 else 0) + count_entries P m"
  by (simp add: count_entries_def)

lemma count_entries_le: "count_entries P m \<le> length m"
  by (simp add: count_entries_def)

lemma count_entries_update_new:
  "map_of m k = None \<Longrightarrow>
   count_entries P (AList.update k v m) = count_entries P m + (if P v then 1 else 0)"
  by (induction m) auto

lemma count_entries_update_old:
  "keys_distinct m \<Longrightarrow> map_of m k = Some w \<Longrightarrow>
   count_entries P (AList.update k v m) + (if P w then 1 else 0)
     = count_entries P m + (if P v then 1 else 0)"
  by (induction m) (auto split: if_splits)

lemma count_entries_pos: "map_of m k = Some v \<Longrightarrow> P v \<Longrightarrow> 0 < count_entries P m"
  by (induction m) (auto split: if_splits)

lemma delete_absent: "k \<notin> fst ` set m \<Longrightarrow> AList.delete k m = m"
  by (induction m) auto

lemma count_entries_delete:
  "keys_distinct m \<Longrightarrow> map_of m k = Some w \<Longrightarrow>
   count_entries P (AList.delete k m) + (if P w then 1 else 0) = count_entries P m"
  by (induction m) (auto simp: delete_absent split: if_splits)

lemma map_of_delete: "map_of (AList.delete k m) j = (if j = k then None else map_of m j)"
  by (simp add: delete_conv')

lemma map_of_update: "map_of (AList.update k v m) j = (if j = k then Some v else map_of m j)"
  by (simp add: update_conv')

lemma length_update_old:
  "map_of m k \<noteq> None \<Longrightarrow> length (AList.update k v m) = length m"
  by (induction m) auto

lemma length_update_new:
  "map_of m k = None \<Longrightarrow> length (AList.update k v m) = Suc (length m)"
  by (induction m) auto

lemma map_of_mset_eq:
  assumes "mset m = mset m'" and "keys_distinct m"
  shows "map_of m = map_of m'"
proof -
  from assms have "distinct (map fst m')"
    unfolding keys_distinct_def by (metis mset_eq_imp_distinct_iff mset_map)
  with assms show ?thesis
    by (intro map_of_inject_set [THEN iffD2]) (auto simp: keys_distinct_def dest: mset_eq_setD)
qed

end
