(* ===== verification/F64.thy ===== *)
theory F64
  imports Prelude
begin

text \<open>
  The Rust type \<open>f64\<close> as far as the source uses it: conversion from unsigned integers,
  division, multiplication, the comparisons \<open><\<close> and \<open>>=\<close>, and fixed-precision formatting.
  A value is an exact rational, an infinity or a NaN; every operation computes exactly and
  rounds to the nearest binary64 number, ties to even, with gradual underflow and overflow to
  infinity. The sign of zero is not kept: no comparison and no value the program prints
  depends on it.
\<close>

datatype f64 = F64 rat | F64_Inf bool | F64_NaN

section \<open>Rounding to binary64\<close>

fun ilog2 :: "nat \<Rightarrow> nat" where
  "ilog2 n = (if n < 2 then 0 else Suc (ilog2 (n div 2)))"

declare ilog2.simps [simp del]

definition round_half_even :: "rat \<Rightarrow> int" where
  "round_half_even x =
     (let f = \<lfloor>x\<rfloor>; r = x - of_int f in
      if r < 1 / 2 then f else if r > 1 / 2 then f + 1 else if even f then f else f + 1)"

definition exponent :: "rat \<Rightarrow> int" where
  "exponent q =
     (let (n, d) = quotient_of q; e = int (ilog2 (nat n)) - int (ilog2 (nat d)) in
      if 2 powi e \<le> q then e else e - 1)"

definition ulp_exp :: "rat \<Rightarrow> int" where
  "ulp_exp q = max (exponent q - 52) (- 1074)"

definition round_pos :: "rat \<Rightarrow> rat" where
  "round_pos q = of_int (round_half_even (q / 2 powi ulp_exp q)) * 2 powi ulp_exp q"

definition f64_of_rat :: "rat \<Rightarrow> f64" where
  "f64_of_rat q =
     (if q = 0 then F64 0
      else let r = round_pos \<bar>q\<bar> in
        if 2 ^ 1024 \<le> r then F64_Inf (q < 0) else F64 (if q < 0 then - r else r))"

section \<open>Operations\<close>

definition f64_of_nat :: "nat \<Rightarrow> f64" where
  "f64_of_nat n = f64_of_rat (of_nat n)"

fun f64_lt :: "f64 \<Rightarrow> f64 \<Rightarrow> bool" where
  "f64_lt F64_NaN _ = False"
| "f64_lt _ F64_NaN = False"
| "f64_lt (F64 a) (F64 b) = (a < b)"
| "f64_lt (F64 _) (F64_Inf neg) = (\<not> neg)"
| "f64_lt (F64_Inf neg) (F64 _) = neg"
| "f64_lt (F64_Inf neg) (F64_Inf neg') = (neg \<and> \<not> neg')"

fun f64_ge :: "f64 \<Rightarrow> f64 \<Rightarrow> bool" where
  "f64_ge F64_NaN _ = False"
| "f64_ge _ F64_NaN = False"
| "f64_ge a b = (\<not> f64_lt a b)"

fun f64_neg :: "f64 \<Rightarrow> bool" where
  "f64_neg (F64 a) = (a < 0)"
| "f64_neg (F64_Inf neg) = neg"
| "f64_neg F64_NaN = False"

fun f64_mul :: "f64 \<Rightarrow> f64 \<Rightarrow> f64" where
  "f64_mul (F64 a) (F64 b) = f64_of_rat (a * b)"
| "f64_mul F64_NaN _ = F64_NaN"
| "f64_mul _ F64_NaN = F64_NaN"
| "f64_mul a b = (if a = F64 0 \<or> b = F64 0 then F64_NaN else F64_Inf (f64_neg a \<noteq> f64_neg b))"

fun f64_div :: "f64 \<Rightarrow> f64 \<Rightarrow> f64" where
  "f64_div (F64 a) (F64 b) =
     (if b = 0 then (if a = 0 then F64_NaN else F64_Inf (a < 0)) else f64_of_rat (a / b))"
| "f64_div F64_NaN _ = F64_NaN"
| "f64_div _ F64_NaN = F64_NaN"
| "f64_div (F64 _) (F64_Inf _) = F64 0"
| "f64_div (F64_Inf neg) (F64 b) = F64_Inf (neg \<noteq> (b < 0))"
| "f64_div (F64_Inf _) (F64_Inf _) = F64_NaN"

section \<open>Rounding laws\<close>

lemma ilog2_bounds: "0 < n \<Longrightarrow> 2 ^ ilog2 n \<le> n \<and> n < 2 ^ Suc (ilog2 n)"
proof (induction n rule: ilog2.induct)
  case (1 n)
  show ?case
  proof (cases "n < 2")
    case True
    with "1.prems" show ?thesis by (simp add: ilog2.simps)
  next
    case False
    with 1 have "2 ^ ilog2 (n div 2) \<le> n div 2 \<and> n div 2 < 2 ^ Suc (ilog2 (n div 2))"
      by auto
    with False show ?thesis
      by (simp add: ilog2.simps [of n]) linarith
  qed
qed

lemma round_half_even_of_int [simp]: "round_half_even (of_int k) = k"
  by (simp add: round_half_even_def)

lemma round_half_even_bounds:
  "of_int (round_half_even x) \<le> x + 1 / 2" "x - 1 / 2 \<le> of_int (round_half_even x)"
  by (auto simp: round_half_even_def Let_def) linarith+

lemma round_half_even_mono:
  assumes "x \<le> y"
  shows "round_half_even x \<le> round_half_even y"
proof (cases "\<lfloor>x\<rfloor> = \<lfloor>y\<rfloor>")
  case True
  with assms show ?thesis by (auto simp: round_half_even_def Let_def)
next
  case False
  with assms have "\<lfloor>x\<rfloor> + 1 \<le> \<lfloor>y\<rfloor>"
    by (meson floor_mono le_less zless_imp_add1_zle)
  moreover have "round_half_even x \<le> \<lfloor>x\<rfloor> + 1" and "\<lfloor>y\<rfloor> \<le> round_half_even y"
    by (auto simp: round_half_even_def Let_def)
  ultimately show ?thesis by linarith
qed

lemma round_half_even_le_int: "x \<le> of_int k \<Longrightarrow> round_half_even x \<le> k"
  using round_half_even_mono [of x "of_int k"] by simp

lemma round_half_even_ge_int: "of_int k \<le> x \<Longrightarrow> k \<le> round_half_even x"
  using round_half_even_mono [of "of_int k" x] by simp

subsection \<open>The binade of a positive rational\<close>

lemma powi2_mono: "i \<le> j \<Longrightarrow> (2::rat) powi i \<le> 2 powi j"
  by (rule power_int_increasing) auto

lemma powi2_less_imp: "(2::rat) powi i < 2 powi j \<Longrightarrow> i < j"
  using powi2_mono [of j i] by force

lemma powi2_diff: "(2::rat) powi (int a - int b) = 2 ^ a / 2 ^ b"
  by (simp add: power_int_diff)

lemma exponent_bounds:
  assumes "0 < q"
  shows "2 powi exponent q \<le> q" and "q < 2 powi (exponent q + 1)"
proof -
  obtain n d where nd: "quotient_of q = (n, d)" by (cases "quotient_of q")
  then have d: "0 < d" and q: "q = of_int n / of_int d"
    by (auto simp: quotient_of_denom_pos quotient_of_div)
  with assms have n: "0 < n" by (simp add: zero_less_divide_iff)
  define a where "a = ilog2 (nat n)"
  define b where "b = ilog2 (nat d)"
  have bound: "2 ^ ilog2 (nat k) \<le> (of_int k :: rat) \<and> (of_int k :: rat) < 2 ^ Suc (ilog2 (nat k))"
    if "0 < k" for k :: int
  proof -
    from that ilog2_bounds [of "nat k"]
    have "of_nat (2 ^ ilog2 (nat k)) \<le> (of_nat (nat k) :: rat)"
      "(of_nat (nat k) :: rat) < of_nat (2 ^ Suc (ilog2 (nat k)))"
      unfolding of_nat_le_iff of_nat_less_iff by auto
    with that show ?thesis by simp
  qed
  have A: "2 ^ a \<le> (of_int n :: rat)" "(of_int n :: rat) < 2 ^ Suc a"
    and B: "2 ^ b \<le> (of_int d :: rat)" "(of_int d :: rat) < 2 ^ Suc b"
    using bound [OF n] bound [OF d] by (simp_all add: a_def b_def)
  have up: "q < 2 powi (int a - int b + 1)"
  proof -
    have "q < 2 ^ Suc a / of_int d" using A d by (simp add: q divide_strict_right_mono)
    also have "\<dots> \<le> 2 ^ Suc a / 2 ^ b" using B by (simp add: frac_le)
    also have "\<dots> = 2 powi (int a - int b + 1)"
      using powi2_diff [of "Suc a" b] by (simp add: algebra_simps)
    finally show ?thesis .
  qed
  have lo: "2 powi (int a - int b - 1) \<le> q"
  proof -
    have "2 powi (int a - int b - 1) = 2 ^ a / (2::rat) ^ Suc b"
      using powi2_diff [of a "Suc b"] by (simp add: algebra_simps)
    also have "\<dots> \<le> 2 ^ a / of_int d" using B d by (intro divide_left_mono) auto
    also have "\<dots> \<le> q" using A d by (simp add: q divide_right_mono)
    finally show ?thesis .
  qed
  have e: "exponent q = (if 2 powi (int a - int b) \<le> q then int a - int b else int a - int b - 1)"
    by (simp add: exponent_def nd a_def b_def)
  show "2 powi exponent q \<le> q" using lo by (simp add: e)
  show "q < 2 powi (exponent q + 1)" using up by (simp add: e)
qed

lemma exponent_mono: "0 < x \<Longrightarrow> x \<le> y \<Longrightarrow> exponent x \<le> exponent y"
proof -
  assume "0 < x" "x \<le> y"
  with exponent_bounds [of x] exponent_bounds [of y]
  have "(2::rat) powi exponent x < 2 powi (exponent y + 1)" by linarith
  then show ?thesis by (drule_tac powi2_less_imp) simp
qed

lemma exponent_less: "0 < x \<Longrightarrow> x < 2 powi k \<Longrightarrow> exponent x < k"
  using exponent_bounds(1) [of x] by (intro powi2_less_imp) linarith

subsection \<open>Rounding is monotone, exact on representable numbers, and close\<close>

lemma round_pos_pos: "0 < q \<Longrightarrow> 0 \<le> round_pos q"
  using round_half_even_ge_int [of 0 "q / 2 powi ulp_exp q"] by (simp add: round_pos_def)

lemma round_pos_mono:
  assumes "0 < x" "x \<le> y"
  shows "round_pos x \<le> round_pos y"
proof (cases "ulp_exp x = ulp_exp y")
  case True
  with assms show ?thesis
    by (simp add: round_pos_def mult_right_mono round_half_even_mono divide_right_mono)
next
  case False
  define u v where "u = ulp_exp x" and "v = ulp_exp y"
  from exponent_mono [OF assms] False
  have uv: "u < v" and v: "v = exponent y - 52" and ex: "exponent x \<le> u + 52" "exponent x < exponent y"
    by (auto simp: u_def v_def ulp_exp_def max_def split: if_splits)
  have "x / 2 powi u \<le> of_int (2 ^ 53)"
  proof -
    have "x < 2 powi (exponent x + 1)" using assms exponent_bounds by simp
    also have "\<dots> \<le> 2 powi (u + 53)" using ex by (intro powi2_mono) simp
    finally show ?thesis by (simp add: power_int_add pos_divide_le_eq mult.commute)
  qed
  then have "round_pos x \<le> of_int (2 ^ 53) * 2 powi u"
    unfolding round_pos_def u_def [symmetric]
    by (intro mult_right_mono) (simp_all only: of_int_le_iff round_half_even_le_int, simp)
  also have "\<dots> = 2 powi (u + 53)" by (simp add: power_int_add)
  also have "\<dots> \<le> 2 powi (v + 52)" using uv by (intro powi2_mono) simp
  also have "\<dots> = of_int (2 ^ 52) * 2 powi v" by (simp add: power_int_add)
  also have "\<dots> \<le> round_pos y"
  proof -
    have "2 powi (v + 52) \<le> y" using assms exponent_bounds [of y] by (simp add: v)
    then have "of_int (2 ^ 52) \<le> y / 2 powi v"
      by (simp add: power_int_add pos_le_divide_eq mult.commute)
    then show ?thesis
      unfolding round_pos_def v_def [symmetric]
      by (intro mult_right_mono) (simp_all only: of_int_le_iff round_half_even_ge_int, simp)
  qed
  finally show ?thesis .
qed

lemma round_pos_exact:
  assumes "0 < q" "q = of_int m * 2 powi k" "\<bar>m\<bar> < 2 ^ 53" "- 1074 \<le> k"
  shows "round_pos q = q"
proof -
  from assms(3) have "(of_int m :: rat) < of_int (2 ^ 53)"
    unfolding of_int_less_iff by simp
  then have "q < 2 powi (k + 53)" using assms(2) by (simp add: power_int_add)
  with assms(1,4) have u: "ulp_exp q \<le> k"
    using exponent_less [of q "k + 53"] by (simp add: ulp_exp_def)
  then have "q / 2 powi ulp_exp q = of_int (m * 2 ^ nat (k - ulp_exp q))"
    using assms(2) by (simp add: power_int_diff flip: power_int_of_nat)
  then have "of_int (round_half_even (q / 2 powi ulp_exp q)) = q / 2 powi ulp_exp q"
    by (metis round_half_even_of_int)
  then show ?thesis by (simp add: round_pos_def)
qed

lemma round_pos_error: "\<bar>round_pos q - q\<bar> \<le> 2 powi ulp_exp q / 2"
proof -
  define u where "u = (2::rat) powi ulp_exp q"
  have u: "0 < u" by (simp add: u_def)
  define r where "r = (of_int (round_half_even (q / u)) :: rat)"
  from round_half_even_bounds [of "q / u"] have "\<bar>r - q / u\<bar> \<le> 1 / 2"
    unfolding r_def by linarith
  then have "\<bar>r - q / u\<bar> * u \<le> 1 / 2 * u" using u by (intro mult_right_mono) auto
  moreover have "\<bar>r - q / u\<bar> * u = \<bar>r * u - q\<bar>"
  proof -
    have "(r - q / u) * u = r * u - q" using u by (simp add: field_simps)
    with u show ?thesis by (metis abs_mult abs_of_pos)
  qed
  ultimately show ?thesis by (simp add: round_pos_def u_def [symmetric] r_def)
qed

definition representable :: "rat \<Rightarrow> bool" where
  "representable q \<longleftrightarrow> \<bar>q\<bar> < 2 ^ 1024 \<and>
     (\<exists>m k. q = of_int m * 2 powi k \<and> \<bar>m\<bar> < 2 ^ 53 \<and> - 1074 \<le> k)"

lemma representable_minus:
  assumes "representable q"
  shows "representable (- q)"
proof -
  from assms obtain m k where "\<bar>q\<bar> < 2 ^ 1024" "q = of_int m * 2 powi k" "\<bar>m\<bar> < 2 ^ 53" "- 1074 \<le> k"
    unfolding representable_def by blast
  then have "\<bar>- q\<bar> < 2 ^ 1024" "- q = of_int (- m) * 2 powi k" "\<bar>- m\<bar> < 2 ^ 53" "- 1074 \<le> k"
    by simp_all
  then show ?thesis unfolding representable_def by blast
qed

lemma f64_of_rat_minus:
  "f64_of_rat (- q) = (case f64_of_rat q of F64 r \<Rightarrow> F64 (- r) | F64_Inf s \<Rightarrow> F64_Inf (\<not> s) | F64_NaN \<Rightarrow> F64_NaN)"
  by (auto simp: f64_of_rat_def Let_def)

lemma f64_of_rat_exact:
  assumes "representable q"
  shows "f64_of_rat q = F64 q"
proof -
  have pos: "f64_of_rat r = F64 r" if r: "representable r" "0 < r" for r
  proof -
    from r have "round_pos r = r" by (auto simp: representable_def intro: round_pos_exact)
    with r show ?thesis by (simp add: f64_of_rat_def representable_def)
  qed
  show ?thesis
  proof (cases "q < 0")
    case True
    with assms pos [of "- q"] show ?thesis
      using f64_of_rat_minus [of "- q"] by (simp add: representable_minus)
  next
    case False
    with assms pos [of q] show ?thesis by (cases "q = 0") (auto simp: f64_of_rat_def)
  qed
qed

lemma representable_nat: "n < 2 ^ 53 \<Longrightarrow> representable (of_nat n)"
proof -
  assume n: "n < 2 ^ 53"
  then have "(of_nat n :: rat) < of_nat (2 ^ 53)" unfolding of_nat_less_iff .
  also have "\<dots> \<le> 2 ^ 1024" by simp
  finally have "\<bar>of_nat n :: rat\<bar> < 2 ^ 1024" by simp
  moreover have "(of_nat n :: rat) = of_int (int n) * 2 powi 0" "\<bar>int n\<bar> < 2 ^ 53" using n by simp_all
  ultimately show ?thesis
    unfolding representable_def by (metis neg_le_0_iff_le zero_le_numeral)
qed

lemma f64_of_nat_exact: "n < 2 ^ 53 \<Longrightarrow> f64_of_nat n = F64 (of_nat n)"
  by (simp add: f64_of_nat_def f64_of_rat_exact representable_nat)

lemma f64_of_rat_not_NaN [simp]: "f64_of_rat q \<noteq> F64_NaN"
  by (simp add: f64_of_rat_def Let_def)

lemma f64_ge_iff: "a \<noteq> F64_NaN \<Longrightarrow> b \<noteq> F64_NaN \<Longrightarrow> f64_ge a b \<longleftrightarrow> \<not> f64_lt a b"
  by (cases a; cases b) auto

lemma f64_of_rat_mono:
  assumes "x \<le> y"
  shows "\<not> f64_lt (f64_of_rat y) (f64_of_rat x)"
proof -
  consider "x = 0 \<or> y = 0 \<or> (x < 0 \<and> 0 < y)" | "0 < x" | "x < 0" "y < 0"
    using assms by fastforce
  then show ?thesis
  proof cases
    case 1
    with assms show ?thesis
      using round_pos_pos [of "\<bar>x\<bar>"] round_pos_pos [of "\<bar>y\<bar>"]
      by (auto simp: f64_of_rat_def Let_def)
  next
    case 2
    with assms round_pos_mono [of x y] show ?thesis
      by (auto simp: f64_of_rat_def Let_def)
  next
    case 3
    with assms round_pos_mono [of "- y" "- x"] show ?thesis
      by (auto simp: f64_of_rat_def Let_def)
  qed
qed

lemma f64_lt_trans: "f64_lt a b \<Longrightarrow> f64_lt b c \<Longrightarrow> f64_lt a c"
  by (cases a; cases b; cases c) auto

lemma f64_le_lt_trans:
  "\<not> f64_lt b a \<Longrightarrow> f64_lt b c \<Longrightarrow> a \<noteq> F64_NaN \<Longrightarrow> f64_lt a c"
  by (cases a; cases b; cases c) auto

text \<open>
  A threshold that is itself representable separates exact values: at or above it, rounding
  stays at or above it, and at or below a smaller representable number it stays below it.
\<close>

lemma f64_threshold_above:
  "representable t \<Longrightarrow> t \<le> x \<Longrightarrow> \<not> f64_lt (f64_of_rat x) (F64 t)"
  using f64_of_rat_mono [of t x] by (simp add: f64_of_rat_exact)

lemma f64_threshold_below:
  assumes "representable s" "s < t" "x \<le> s"
  shows "f64_lt (f64_of_rat x) (F64 t)"
proof (rule f64_le_lt_trans)
  show "\<not> f64_lt (F64 s) (f64_of_rat x)"
    using f64_of_rat_mono [of x s] assms by (simp add: f64_of_rat_exact)
  show "f64_lt (F64 s) (F64 t)" using assms by simp
qed simp

subsection \<open>Rounding of non-negative values in range\<close>

definition rnd :: "rat \<Rightarrow> rat" where
  "rnd x = (if x = 0 then 0 else round_pos x)"

lemma representable_dyadic:
  assumes "\<bar>m\<bar> < 2 ^ 53" "n \<le> 1074"
  shows "representable (of_int m / 2 ^ n)"
proof -
  have "\<bar>of_int m / 2 ^ n :: rat\<bar> \<le> of_int \<bar>m\<bar>"
    by (simp add: abs_divide divide_le_eq mult_le_cancel_left1)
  also have "(of_int \<bar>m\<bar> :: rat) < of_int (2 ^ 53)" using assms(1) unfolding of_int_less_iff .
  also have "\<dots> \<le> 2 ^ 1024" by simp
  finally have "\<bar>of_int m / 2 ^ n :: rat\<bar> < 2 ^ 1024" .
  moreover have "(of_int m / 2 ^ n :: rat) = of_int m * 2 powi (- int n)"
    by (simp add: power_int_minus divide_inverse)
  moreover have "- 1074 \<le> - int n" using assms(2) by simp
  ultimately show ?thesis unfolding representable_def using assms(1) by blast
qed

lemma rnd_nonneg: "0 \<le> x \<Longrightarrow> 0 \<le> rnd x"
  by (simp add: rnd_def round_pos_pos)

lemma rnd_mono: "0 \<le> x \<Longrightarrow> x \<le> y \<Longrightarrow> rnd x \<le> rnd y"
  by (auto simp: rnd_def round_pos_mono round_pos_pos)

lemma rnd_exact:
  assumes "representable x" "0 \<le> x"
  shows "rnd x = x"
proof (cases "x = 0")
  case False
  with assms(2) have "0 < x" by simp
  moreover from assms(1) obtain m k where "x = of_int m * 2 powi k" "\<bar>m\<bar> < 2 ^ 53" "- 1074 \<le> k"
    unfolding representable_def by blast
  ultimately have "round_pos x = x" by (rule round_pos_exact)
  with False show ?thesis by (simp add: rnd_def)
qed (simp add: rnd_def)

lemma rnd_nat: "n < 2 ^ 53 \<Longrightarrow> rnd (of_nat n) = of_nat n"
  by (simp add: rnd_exact representable_nat)

lemma representable_pow2: "n \<le> 1000 \<Longrightarrow> representable (2 ^ n)"
proof -
  assume n: "n \<le> 1000"
  then have "(2 ^ n :: rat) \<le> 2 ^ 1000" by (intro power_increasing) auto
  also have "\<dots> < 2 ^ 1024" by simp
  finally have "\<bar>2 ^ n :: rat\<bar> < 2 ^ 1024" by simp
  moreover have "(2 ^ n :: rat) = of_int 1 * 2 powi int n" by simp
  moreover have "\<bar>1::int\<bar> < 2 ^ 53" "- 1074 \<le> int n" by simp_all
  ultimately show ?thesis unfolding representable_def by blast
qed

lemma rnd_le_pow2: "0 \<le> x \<Longrightarrow> x \<le> 2 ^ n \<Longrightarrow> n \<le> 1000 \<Longrightarrow> rnd x \<le> 2 ^ n"
  using rnd_mono [of x "2 ^ n"] rnd_exact [OF representable_pow2, of n] by simp

lemma f64_of_rat_rnd:
  assumes "0 \<le> x" "x \<le> 2 ^ 1000"
  shows "f64_of_rat x = F64 (rnd x)"
proof (cases "x = 0")
  case True
  then show ?thesis by (simp add: f64_of_rat_def rnd_def)
next
  case False
  have "rnd x \<le> 2 ^ 1000" using assms rnd_le_pow2 [of x 1000] by simp
  also have "\<dots> < 2 ^ 1024" by simp
  finally have "round_pos x < 2 ^ 1024" using False by (simp add: rnd_def)
  with False assms show ?thesis by (simp add: f64_of_rat_def rnd_def)
qed

lemma f64_of_nat_rnd: "n < 2 ^ 64 \<Longrightarrow> f64_of_nat n = F64 (rnd (of_nat n))"
proof -
  assume "n < 2 ^ 64"
  then have "(of_nat n :: rat) < of_nat (2 ^ 64)" unfolding of_nat_less_iff .
  also have "\<dots> \<le> 2 ^ 1000" by simp
  finally show ?thesis by (simp add: f64_of_nat_def f64_of_rat_rnd)
qed

lemma rnd_error:
  assumes "0 < x" "x < 2 powi k" "- 1021 \<le> k"
  shows "\<bar>rnd x - x\<bar> \<le> 2 powi (k - 54)"
proof -
  have "ulp_exp x \<le> k - 53" using exponent_less [OF assms(1,2)] assms(3) by (simp add: ulp_exp_def)
  then have "(2::rat) powi ulp_exp x / 2 \<le> 2 powi (k - 53) / 2" by (intro divide_right_mono powi2_mono) simp_all
  also have "\<dots> = 2 powi (k - 54)"
    using power_int_add [of "2::rat" "k - 54" 1] by simp
  finally have "(2::rat) powi ulp_exp x / 2 \<le> 2 powi (k - 54)" .
  with round_pos_error [of x] assms(1) show ?thesis by (simp add: rnd_def)
qed

end
