(* ===== verification/Rust_Str.thy ===== *)
theory Rust_Str
  imports F64 "HOL-Library.Sublist"
begin

text \<open>
  The string functions of the Rust standard library that the source calls. A \<open>&str\<close> or
  \<open>String\<close> is its sequence of UTF-8 bytes, a \<open>string\<close> of HOL; \<open>len\<close> counts bytes in both.
  Formatting covers \<open>{}\<close> for unsigned integers, \<open>{:x}\<close>, and \<open>{:.n}\<close> for \<open>f64\<close> (the exact value
  rounded to \<open>n\<close> decimals, ties to even); parsing covers unsigned integers.
\<close>

section \<open>Printing numbers\<close>

definition digit_char :: "nat \<Rightarrow> char" where
  "digit_char d = char_of (if d < 10 then 48 + d else 87 + d)"

fun show_base :: "nat \<Rightarrow> nat \<Rightarrow> string" where
  "show_base b n =
     (if b < 2 \<or> n < b then [digit_char n] else show_base b (n div b) @ [digit_char (n mod b)])"

declare show_base.simps [simp del]

definition show_nat :: "nat \<Rightarrow> string" where
  "show_nat n = show_base 10 n"

definition show_hex :: "nat \<Rightarrow> string" where
  "show_hex n = show_base 16 n"

definition fmt_fixed :: "nat \<Rightarrow> f64 \<Rightarrow> string" where
  "fmt_fixed n v = (case v of
      F64 q \<Rightarrow>
        (let k = nat (round_half_even (\<bar>q\<bar> * 10 ^ n));
             ds = show_nat k;
             ds' = replicate (n + 1 - length ds) (CHR ''0'') @ ds;
             i = length ds' - n
         in (if q < 0 then ''-'' else '''') @ take i ds' @ (if n = 0 then '''' else ''.'' @ drop i ds'))
    | F64_Inf neg \<Rightarrow> (if neg then ''-inf'' else ''inf'')
    | F64_NaN \<Rightarrow> ''NaN'')"

section \<open>Parsing unsigned integers\<close>

definition digit_val :: "char \<Rightarrow> nat option" where
  "digit_val c = (let n = of_char c :: nat in if 48 \<le> n \<and> n \<le> 57 then Some (n - 48) else None)"

fun parse_digits :: "nat \<Rightarrow> string \<Rightarrow> nat option" where
  "parse_digits acc [] = Some acc"
| "parse_digits acc (c # cs) =
     (case digit_val c of None \<Rightarrow> None | Some d \<Rightarrow> parse_digits (10 * acc + d) cs)"

text \<open>\<open>str::parse\<close> for an unsigned type of \<open>w\<close> bits: an optional plus sign, at least one digit,
  nothing else, and no overflow.\<close>

definition parse_uint :: "nat \<Rightarrow> string \<Rightarrow> nat option" where
  "parse_uint w s =
     (let ds = (if prefix ''+'' s then tl s else s) in
      if ds = [] then None
      else case parse_digits 0 ds of
             None \<Rightarrow> None
           | Some n \<Rightarrow> if n < 2 ^ w then Some n else None)"

section \<open>Parsing f64\<close>

text \<open>\<open>str::parse::<f64>\<close>: an optional sign, then decimal digits with an optional point and
  exponent (at least one digit), or \<open>inf\<close>, \<open>infinity\<close>, \<open>nan\<close> in any case; the decimal value is
  rounded once.\<close>

definition is_digit :: "char \<Rightarrow> bool" where
  "is_digit c \<longleftrightarrow> digit_val c \<noteq> None"

definition digits_val :: "string \<Rightarrow> nat" where
  "digits_val s = (case parse_digits 0 s of None \<Rightarrow> 0 | Some n \<Rightarrow> n)"

definition parse_exponent :: "string \<Rightarrow> int option" where
  "parse_exponent s =
     (let neg = prefix ''-'' s; ds = (if prefix ''-'' s \<or> prefix ''+'' s then tl s else s) in
      if ds = [] \<or> \<not> list_all is_digit ds then None
      else Some (if neg then - int (digits_val ds) else int (digits_val ds)))"

definition parse_decimal :: "string \<Rightarrow> rat option" where
  "parse_decimal s =
     (let ip = takeWhile is_digit s; r1 = dropWhile is_digit s;
          fp = (if prefix ''.'' r1 then takeWhile is_digit (tl r1) else []);
          r2 = (if prefix ''.'' r1 then dropWhile is_digit (tl r1) else r1);
          e = (if r2 = [] then Some 0
               else if prefix ''e'' r2 \<or> prefix ''E'' r2 then parse_exponent (tl r2) else None)
      in if ip = [] \<and> fp = [] then None
         else map_option (\<lambda>x. of_nat (digits_val (ip @ fp)) * 10 powi (x - int (length fp))) e)"

definition to_lower :: "char \<Rightarrow> char" where
  "to_lower c = (let n = of_char c :: nat in if 65 \<le> n \<and> n \<le> 90 then char_of (n + 32) else c)"

definition parse_f64_str :: "string \<Rightarrow> f64 option" where
  "parse_f64_str s =
     (let neg = prefix ''-'' s; r = (if prefix ''-'' s \<or> prefix ''+'' s then tl s else s) in
      case parse_decimal r of
        Some q \<Rightarrow> Some (f64_of_rat (if neg then - q else q))
      | None \<Rightarrow>
          if map to_lower r \<in> {''inf'', ''infinity''} then Some (F64_Inf neg)
          else if map to_lower r = ''nan'' then Some F64_NaN
          else None)"

section \<open>White space\<close>

text \<open>The UTF-8 encodings of the characters with the Unicode property \<open>White_Space\<close>, which
  \<open>trim\<close> and \<open>split_whitespace\<close> use.\<close>

definition whitespace :: "string list" where
  "whitespace =
     [[CHR 0x20], [CHR 0x09], [CHR 0x0A], [CHR 0x0B], [CHR 0x0C], [CHR 0x0D],
      [CHR 0xC2, CHR 0x85], [CHR 0xC2, CHR 0xA0], [CHR 0xE1, CHR 0x9A, CHR 0x80]] @
     map (\<lambda>n. [CHR 0xE2, CHR 0x80, char_of (0x80 + n)]) [0..<11] @
     [[CHR 0xE2, CHR 0x80, CHR 0xA8], [CHR 0xE2, CHR 0x80, CHR 0xA9],
      [CHR 0xE2, CHR 0x80, CHR 0xAF], [CHR 0xE2, CHR 0x81, CHR 0x9F],
      [CHR 0xE3, CHR 0x80, CHR 0x80]]"

definition ws_len :: "string list \<Rightarrow> string \<Rightarrow> nat" where
  "ws_len ws s = (case find (\<lambda>w. prefix w s) ws of None \<Rightarrow> 0 | Some w \<Rightarrow> length w)"

function strip_ws :: "string list \<Rightarrow> string \<Rightarrow> string" where
  "strip_ws ws s = (if s \<noteq> [] \<and> 0 < ws_len ws s then strip_ws ws (drop (ws_len ws s) s) else s)"
  by pat_completeness auto
termination
  by (relation "measure (\<lambda>(ws, s). length s)") auto

declare strip_ws.simps [simp del]

definition trim_start :: "string \<Rightarrow> string" where
  "trim_start s = strip_ws whitespace s"

definition trim_end :: "string \<Rightarrow> string" where
  "trim_end s = rev (strip_ws (map rev whitespace) (rev s))"

definition trim :: "string \<Rightarrow> string" where
  "trim s = trim_end (trim_start s)"

function tokens :: "string \<Rightarrow> string \<Rightarrow> string list" where
  "tokens cur [] = [cur]"
| "tokens cur (c # cs) =
     (let n = ws_len whitespace (c # cs) in
      if 0 < n then cur # tokens [] (drop n (c # cs)) else tokens (cur @ [c]) cs)"
  by pat_completeness auto
termination
  by (relation "measure (\<lambda>(cur, s). length s)") auto

definition split_whitespace :: "string \<Rightarrow> string list" where
  "split_whitespace s = filter (\<lambda>t. t \<noteq> []) (tokens [] s)"

section \<open>Splitting\<close>

fun split_on :: "char \<Rightarrow> string \<Rightarrow> string list" where
  "split_on c [] = [[]]"
| "split_on c (x # xs) =
     (if x = c then [] # split_on c xs
      else case split_on c xs of [] \<Rightarrow> [[x]] | p # ps \<Rightarrow> (x # p) # ps)"

fun split_once :: "char \<Rightarrow> string \<Rightarrow> (string \<times> string) option" where
  "split_once c [] = None"
| "split_once c (x # xs) =
     (if x = c then Some ([], xs)
      else map_option (\<lambda>(a, b). (x # a, b)) (split_once c xs))"

definition rsplit_once :: "char \<Rightarrow> string \<Rightarrow> (string \<times> string) option" where
  "rsplit_once c s = map_option (\<lambda>(a, b). (rev b, rev a)) (split_once c (rev s))"

definition strip_prefix_str :: "string \<Rightarrow> string \<Rightarrow> string option" where
  "strip_prefix_str p s = (if prefix p s then Some (drop (length p) s) else None)"

definition strip_suffix_str :: "string \<Rightarrow> string \<Rightarrow> string option" where
  "strip_suffix_str p s = (if suffix p s then Some (take (length s - length p) s) else None)"

text \<open>\<open>str::lines\<close>: the pieces end at a line feed, a carriage return just before it is dropped,
  and no empty piece follows the last line feed.\<close>

fun lines_aux :: "string list \<Rightarrow> string list" where
  "lines_aux [] = []"
| "lines_aux [l] = (if l = [] then [] else [l])"
| "lines_aux (l # ls) =
     (if suffix [CHR 0x0D] l then butlast l else l) # lines_aux ls"

definition lines :: "string \<Rightarrow> string list" where
  "lines s = lines_aux (split_on (CHR 0x0A) s)"

fun join :: "string \<Rightarrow> string list \<Rightarrow> string" where
  "join sep [] = []"
| "join sep [x] = x"
| "join sep (x # xs) = x @ sep @ join sep xs"

section \<open>Laws\<close>

lemma digit_val_digit_char: "d < 10 \<Longrightarrow> digit_val (digit_char d) = Some d"
  by (simp add: digit_val_def digit_char_def Let_def of_char_of)

lemma parse_digits_append:
  "parse_digits acc (xs @ ys) = Option.bind (parse_digits acc xs) (\<lambda>a. parse_digits a ys)"
  by (induction xs arbitrary: acc) (auto split: option.splits)

lemma show_base_ne: "show_base b n \<noteq> []"
  by (subst show_base.simps) simp

lemma parse_digits_show: "parse_digits 0 (show_nat n) = Some n"
  unfolding show_nat_def
proof (induction n rule: less_induct)
  case (less n)
  show ?case
  proof (cases "n < 10")
    case True
    then show ?thesis by (subst show_base.simps) (simp add: digit_val_digit_char)
  next
    case False
    with less [of "n div 10"] show ?thesis
      by (subst show_base.simps) (simp add: digit_val_digit_char parse_digits_append)
  qed
qed

lemma show_nat_no_plus: "\<not> prefix ''+'' (show_nat n)"
  using parse_digits_show [of n] by (auto simp: digit_val_def prefix_def)

lemma parse_uint_show: "n < 2 ^ w \<Longrightarrow> parse_uint w (show_nat n) = Some n"
proof -
  assume n: "n < 2 ^ w"
  have "show_nat n \<noteq> []" by (simp add: show_nat_def show_base_ne)
  with n parse_digits_show [of n] show_nat_no_plus [of n] show ?thesis
    by (simp add: parse_uint_def)
qed

lemma split_on_ne: "split_on c s \<noteq> []"
  by (induction s) (auto split: list.splits)

lemma split_once_None: "split_once c s = None \<longleftrightarrow> c \<notin> set s"
  by (induction s) auto

lemma split_once_Some:
  "split_once c s = Some (a, b) \<longleftrightarrow> s = a @ c # b \<and> c \<notin> set a"
proof (induction s arbitrary: a)
  case Nil
  then show ?case by simp
next
  case (Cons x xs)
  then show ?case by (cases a) auto
qed

lemma join_split_on: "join [c] (split_on c s) = s"
proof (induction s)
  case Nil
  then show ?case by simp
next
  case (Cons x xs)
  obtain p ps where "split_on c xs = p # ps" by (cases "split_on c xs") (auto simp: split_on_ne)
  with Cons show ?case by (cases ps) auto
qed

lemma split_on_no: "c \<notin> set s \<Longrightarrow> split_on c s = [s]"
  by (induction s) auto

lemma split_on_append: "c \<notin> set a \<Longrightarrow> split_on c (a @ c # b) = a # split_on c b"
  by (induction a) auto

lemma split_on_join:
  "list_all (\<lambda>s. c \<notin> set s) xs \<Longrightarrow> xs \<noteq> [] \<Longrightarrow> split_on c (join [c] xs) = xs"
proof (induction xs)
  case (Cons x xs)
  then show ?case by (cases xs) (simp_all add: split_on_no split_on_append)
qed simp

text \<open>No encoding of a white-space character starts or ends with a printable ASCII character, so trimming
  and splitting are computed without going through the table.\<close>

definition graphic :: "char \<Rightarrow> bool" where
  "graphic c \<longleftrightarrow> (let n = of_char c :: nat in 33 \<le> n \<and> n \<le> 126)"

lemma whitespace_not_graphic:
  "list_all (\<lambda>w. w \<noteq> [] \<and> \<not> graphic (hd w)) whitespace"
  "list_all (\<lambda>w. w \<noteq> [] \<and> \<not> graphic (hd w)) (map rev whitespace)"
  by code_simp+

lemma ws_len_graphic:
  assumes "list_all (\<lambda>w. w \<noteq> [] \<and> \<not> graphic (hd w)) ws" "graphic c"
  shows "ws_len ws (c # s) = 0"
proof -
  have "\<not> prefix w (c # s)" if "w \<in> set ws" for w
    using assms that by (cases w) (auto simp: list_all_iff)
  then have "find (\<lambda>w. prefix w (c # s)) ws = None" by (simp add: find_None_iff)
  then show ?thesis by (simp add: ws_len_def)
qed

lemma strip_ws_graphic:
  "list_all (\<lambda>w. w \<noteq> [] \<and> \<not> graphic (hd w)) ws \<Longrightarrow> s = [] \<or> graphic (hd s) \<Longrightarrow> strip_ws ws s = s"
  by (cases s) (simp_all add: strip_ws.simps ws_len_graphic)

lemma trim_graphic: "s = [] \<or> graphic (hd s) \<and> graphic (last s) \<Longrightarrow> trim s = s"
  by (auto simp: trim_def trim_start_def trim_end_def strip_ws_graphic whitespace_not_graphic hd_rev)

lemma ws_len_blank [simp]:
  "ws_len whitespace (CHR '' '' # s) = 1" "ws_len (map rev whitespace) (CHR '' '' # s) = 1"
  by (simp_all add: ws_len_def whitespace_def)

lemma strip_ws_blank:
  "strip_ws whitespace (CHR '' '' # s) = strip_ws whitespace s"
  "strip_ws (map rev whitespace) (CHR '' '' # s) = strip_ws (map rev whitespace) s"
  by (simp_all add: strip_ws.simps [of _ "CHR '' '' # s"])

lemma trim_blank_left: "trim (CHR '' '' # s) = trim s"
  by (simp add: trim_def trim_start_def strip_ws_blank)

lemma trim_blank_right: "graphic (hd s) \<Longrightarrow> s \<noteq> [] \<Longrightarrow> trim (s @ '' '') = trim s"
  by (simp add: trim_def trim_start_def trim_end_def strip_ws_graphic whitespace_not_graphic strip_ws_blank)

lemma tokens_word: "list_all graphic a \<Longrightarrow> tokens cur (a @ s) = tokens (cur @ a) s"
  by (induction a arbitrary: cur) (simp_all add: ws_len_graphic whitespace_not_graphic)

lemma tokens_blank: "tokens cur (CHR '' '' # s) = cur # tokens [] s"
  by simp

end
