(* ===== verification/Core_Types.thy ===== *)
theory Core_Types
  imports Rust_Str
begin

unbundle bit_operations_syntax

text \<open>
  \<^verbatim>\<open>l4scope-core\<close>: the normalized packet record every capture backend emits, the
  direction-independent flow key, TCP flags, events with their NDJSON rendering, and the error
  type (\<^verbatim>\<open>types.rs\<close>, \<^verbatim>\<open>error.rs\<close>, \<^verbatim>\<open>lib.rs\<close>). An address is its big-endian value, which orders as
  the octets (segments) compared from the left, the order Rust derives.
\<close>

section \<open>Errors\<close>

datatype error = Io string | Parse string | Config_err string | UnsupportedBackend string

type_synonym 'a result = "error + 'a"

fun show_error :: "error \<Rightarrow> string" where
  "show_error (Io e) = ''io error: '' @ e"
| "show_error (Parse m) = ''parse error: '' @ m"
| "show_error (Config_err m) = ''config error: '' @ m"
| "show_error (UnsupportedBackend m) = ''unsupported capture backend: '' @ m"

section \<open>Addresses and endpoints\<close>

datatype ip_addr = V4 u32 | V6 u128

definition ipv4_new :: "u8 \<Rightarrow> u8 \<Rightarrow> u8 \<Rightarrow> u8 \<Rightarrow> u32" where
  "ipv4_new a b c d =
     push_bit 24 (ucast a) OR push_bit 16 (ucast b) OR push_bit 8 (ucast c) OR ucast d"

definition ipv4_octets :: "u32 \<Rightarrow> u8 list" where
  "ipv4_octets w = [ucast (drop_bit 24 w), ucast (drop_bit 16 w), ucast (drop_bit 8 w), ucast w]"

definition ipv6_segments :: "u128 \<Rightarrow> u16 list" where
  "ipv6_segments w = map (\<lambda>i. ucast (drop_bit (16 * (7 - i)) w)) [0..<8]"

record endpoint =
  ep_ip :: ip_addr
  ep_port :: u16

datatype protocol = Tcp | Udp

fun proto_str :: "protocol \<Rightarrow> string" where
  "proto_str Tcp = ''tcp''"
| "proto_str Udp = ''udp''"

instantiation ip_addr :: linorder
begin

fun less_eq_ip_addr :: "ip_addr \<Rightarrow> ip_addr \<Rightarrow> bool" where
  "less_eq_ip_addr (V4 a) (V4 b) = (a \<le> b)"
| "less_eq_ip_addr (V4 _) (V6 _) = True"
| "less_eq_ip_addr (V6 _) (V4 _) = False"
| "less_eq_ip_addr (V6 a) (V6 b) = (a \<le> b)"

definition less_ip_addr :: "ip_addr \<Rightarrow> ip_addr \<Rightarrow> bool" where
  "less_ip_addr a b \<longleftrightarrow> a \<le> b \<and> \<not> b \<le> a"

instance
proof
  fix x y z :: ip_addr
  show "x < y \<longleftrightarrow> x \<le> y \<and> \<not> y \<le> x" by (rule less_ip_addr_def)
  show "x \<le> x" by (cases x) auto
  show "x \<le> y \<Longrightarrow> y \<le> z \<Longrightarrow> x \<le> z" by (cases x; cases y; cases z) auto
  show "x \<le> y \<Longrightarrow> y \<le> x \<Longrightarrow> x = y" by (cases x; cases y) auto
  show "x \<le> y \<or> y \<le> x" by (cases x; cases y) auto
qed

end

instantiation endpoint_ext :: (linorder) linorder
begin

definition less_eq_endpoint_ext :: "'a endpoint_ext \<Rightarrow> 'a endpoint_ext \<Rightarrow> bool" where
  "less_eq_endpoint_ext a b \<longleftrightarrow>
     ep_ip a < ep_ip b \<or>
     ep_ip a = ep_ip b \<and> (ep_port a < ep_port b \<or>
       ep_port a = ep_port b \<and> endpoint.more a \<le> endpoint.more b)"

definition less_endpoint_ext :: "'a endpoint_ext \<Rightarrow> 'a endpoint_ext \<Rightarrow> bool" where
  "less_endpoint_ext a b \<longleftrightarrow> a \<le> b \<and> \<not> b \<le> a"

instance
proof
  fix x y z :: "'a endpoint_ext"
  show "x < y \<longleftrightarrow> x \<le> y \<and> \<not> y \<le> x" by (rule less_endpoint_ext_def)
  show "x \<le> x" by (simp add: less_eq_endpoint_ext_def)
  show "x \<le> y \<Longrightarrow> y \<le> z \<Longrightarrow> x \<le> z" by (auto simp: less_eq_endpoint_ext_def)
  show "x \<le> y \<Longrightarrow> y \<le> x \<Longrightarrow> x = y"
    by (cases x; cases y) (auto simp: less_eq_endpoint_ext_def)
  show "x \<le> y \<or> y \<le> x" by (auto simp: less_eq_endpoint_ext_def)
qed

end

section \<open>Flow keys\<close>

datatype direction = Forward | Reverse

fun dir_index :: "direction \<Rightarrow> nat" where
  "dir_index Forward = 0"
| "dir_index Reverse = 1"

record flow_key =
  low :: endpoint
  high :: endpoint
  key_proto :: protocol

definition canonical :: "endpoint \<Rightarrow> endpoint \<Rightarrow> protocol \<Rightarrow> flow_key \<times> direction" where
  "canonical src dst p =
     (if src \<le> dst then (\<lparr>low = src, high = dst, key_proto = p\<rparr>, Forward)
      else (\<lparr>low = dst, high = src, key_proto = p\<rparr>, Reverse))"

section \<open>TCP flags and packets\<close>

datatype tcp_flags = TcpFlags u8

definition FIN :: u8 where "FIN = 0x01"
definition SYN :: u8 where "SYN = 0x02"
definition RST :: u8 where "RST = 0x04"
definition PSH :: u8 where "PSH = 0x08"
definition ACK :: u8 where "ACK = 0x10"
definition URG :: u8 where "URG = 0x20"

lemmas flag_bits = FIN_def SYN_def RST_def PSH_def ACK_def URG_def

fun has_flag :: "tcp_flags \<Rightarrow> u8 \<Rightarrow> bool" where
  "has_flag (TcpFlags b) m = (b AND m \<noteq> 0)"

definition syn :: "tcp_flags \<Rightarrow> bool" where "syn f = has_flag f SYN"
definition ack :: "tcp_flags \<Rightarrow> bool" where "ack f = has_flag f ACK"
definition fin :: "tcp_flags \<Rightarrow> bool" where "fin f = has_flag f FIN"
definition rst :: "tcp_flags \<Rightarrow> bool" where "rst f = has_flag f RST"
definition psh :: "tcp_flags \<Rightarrow> bool" where "psh f = has_flag f PSH"

definition is_syn_only :: "tcp_flags \<Rightarrow> bool" where
  "is_syn_only f \<longleftrightarrow> syn f \<and> \<not> ack f"

definition is_syn_ack :: "tcp_flags \<Rightarrow> bool" where
  "is_syn_ack f \<longleftrightarrow> syn f \<and> ack f"

lemmas flag_defs = syn_def ack_def fin_def rst_def psh_def is_syn_only_def is_syn_ack_def flag_bits

record packet_meta =
  ts_nanos :: u64
  pkt_key :: flow_key
  pkt_dir :: direction
  pkt_proto :: protocol
  pkt_flags :: tcp_flags
  pkt_seq :: u32
  pkt_ack :: u32
  pkt_window :: u32
  payload_len :: u32
  pkt_ttl :: u8
  pkt_iface :: u32

section \<open>Events\<close>

datatype event_kind =
    Retransmission | DuplicateAck | OutOfOrder | ZeroWindow | RstStorm | HandshakeFailure
  | HandshakeTimeout | SynBacklog | HighRtt | ConnectionChurn

fun kind_str :: "event_kind \<Rightarrow> string" where
  "kind_str Retransmission = ''retransmission''"
| "kind_str DuplicateAck = ''duplicate_ack''"
| "kind_str OutOfOrder = ''out_of_order''"
| "kind_str ZeroWindow = ''zero_window''"
| "kind_str RstStorm = ''rst_storm''"
| "kind_str HandshakeFailure = ''handshake_failure''"
| "kind_str HandshakeTimeout = ''handshake_timeout''"
| "kind_str SynBacklog = ''syn_backlog''"
| "kind_str HighRtt = ''high_rtt''"
| "kind_str ConnectionChurn = ''connection_churn''"

datatype severity = Info | Warning | Critical

fun severity_str :: "severity \<Rightarrow> string" where
  "severity_str Info = ''info''"
| "severity_str Warning = ''warning''"
| "severity_str Critical = ''critical''"

record l4_event =
  ev_ts :: u64
  ev_kind :: event_kind
  ev_severity :: severity
  ev_key :: flow_key
  ev_value :: f64
  ev_detail :: string

definition l4_event_new ::
  "u64 \<Rightarrow> event_kind \<Rightarrow> severity \<Rightarrow> flow_key \<Rightarrow> f64 \<Rightarrow> string \<Rightarrow> l4_event" where
  "l4_event_new t k s key v d =
     \<lparr>ev_ts = t, ev_kind = k, ev_severity = s, ev_key = key, ev_value = v, ev_detail = d\<rparr>"

section \<open>Rendering\<close>

definition show_ipv4 :: "u32 \<Rightarrow> string" where
  "show_ipv4 w = join ''.'' (map (\<lambda>b. show_nat (unat b)) (ipv4_octets w))"

text \<open>The first longest run of zero segments, as (start, length), scanned from the left.\<close>

fun zero_run :: "nat \<Rightarrow> nat \<times> nat \<Rightarrow> nat \<times> nat \<Rightarrow> u16 list \<Rightarrow> nat \<times> nat" where
  "zero_run i cur best [] = best"
| "zero_run i cur best (s # ss) =
     (if s = 0 then
        let cur' = (if snd cur = 0 then i else fst cur, snd cur + 1) in
        zero_run (i + 1) cur' (if snd cur' > snd best then cur' else best) ss
      else zero_run (i + 1) (0, 0) best ss)"

definition show_segments :: "u16 list \<Rightarrow> string" where
  "show_segments ss = join '':'' (map (\<lambda>s. show_hex (unat s)) ss)"

definition show_ipv6 :: "u128 \<Rightarrow> string" where
  "show_ipv6 w =
     (if drop_bit 32 w = 0xFFFF then ''::ffff:'' @ show_ipv4 (ucast w)
      else
        let ss = ipv6_segments w; (st, n) = zero_run 0 (0, 0) (0, 0) ss in
        if n > 1 then show_segments (take st ss) @ ''::'' @ show_segments (drop (st + n) ss)
        else show_segments ss)"

fun show_ip :: "ip_addr \<Rightarrow> string" where
  "show_ip (V4 a) = show_ipv4 a"
| "show_ip (V6 a) = show_ipv6 a"

definition show_endpoint :: "endpoint \<Rightarrow> string" where
  "show_endpoint e = (case ep_ip e of
      V4 a \<Rightarrow> show_ipv4 a @ '':'' @ show_nat (unat (ep_port e))
    | V6 a \<Rightarrow> ''['' @ show_ipv6 a @ '']:'' @ show_nat (unat (ep_port e)))"

definition show_flow_key :: "flow_key \<Rightarrow> string" where
  "show_flow_key k =
     proto_str (key_proto k) @ '' '' @ show_endpoint (low k) @ '' <-> '' @ show_endpoint (high k)"

fun json_escape_char :: "char \<Rightarrow> string" where
  "json_escape_char c =
     (if c = CHR 0x22 then [CHR 0x5C, CHR 0x22]
      else if c = CHR 0x5C then [CHR 0x5C, CHR 0x5C]
      else if c = CHR 0x0A then [CHR 0x5C, CHR ''n'']
      else if c = CHR 0x09 then [CHR 0x5C, CHR ''t'']
      else if c = CHR 0x0D then [CHR 0x5C, CHR ''r'']
      else [c])"

definition json_escape :: "string \<Rightarrow> string" where
  "json_escape s = concat (map json_escape_char s)"

definition to_json :: "l4_event \<Rightarrow> string" where
  "to_json e =
     ''{\"ts_ns\":'' @ show_nat (unat (ev_ts e)) @
     '',\"kind\":\"'' @ kind_str (ev_kind e) @
     ''\",\"severity\":\"'' @ severity_str (ev_severity e) @
     ''\",\"proto\":\"'' @ proto_str (key_proto (ev_key e)) @
     ''\",\"low\":\"'' @ show_endpoint (low (ev_key e)) @
     ''\",\"high\":\"'' @ show_endpoint (high (ev_key e)) @
     ''\",\"value\":'' @ fmt_fixed 3 (ev_value e) @
     '',\"detail\":\"'' @ json_escape (ev_detail e) @ ''\"}''"

definition nanos_to_secs :: "u64 \<Rightarrow> u64" where
  "nanos_to_secs ns = ns div 1000000000"

section \<open>Laws of the flow key\<close>

text \<open>The observed (source, destination) pair, read back from a canonical key and a direction;
  \<^verbatim>\<open>flow.rs\<close> does so for every new flow.\<close>

definition key_endpoints :: "flow_key \<Rightarrow> direction \<Rightarrow> endpoint \<times> endpoint" where
  "key_endpoints k d = (case d of Forward \<Rightarrow> (low k, high k) | Reverse \<Rightarrow> (high k, low k))"

lemma canonical_swap: "fst (canonical a b p) = fst (canonical b a p)"
  by (auto simp: canonical_def)

lemma canonical_dir_swap: "a \<noteq> b \<Longrightarrow> snd (canonical a b p) \<noteq> snd (canonical b a p)"
  by (auto simp: canonical_def)

lemma canonical_endpoints [simp]:
  "key_endpoints (fst (canonical a b p)) (snd (canonical a b p)) = (a, b)"
  by (simp add: canonical_def key_endpoints_def)

lemma canonical_low_le_high: "low (fst (canonical a b p)) \<le> high (fst (canonical a b p))"
  by (auto simp: canonical_def)

lemma canonical_proto [simp]: "key_proto (fst (canonical a b p)) = p"
  by (simp add: canonical_def)

lemma canonical_eq_iff:
  "fst (canonical a b p) = fst (canonical c d q) \<longleftrightarrow> p = q \<and> (a = c \<and> b = d \<or> a = d \<and> b = c)"
  by (auto simp: canonical_def)

section \<open>Laws of the rendering\<close>

lemma show_base_chars: "2 \<le> b \<Longrightarrow> b \<le> 16 \<Longrightarrow> set (show_base b n) \<subseteq> digit_char ` {..<16}"
proof (induction n rule: less_induct)
  case (less n)
  show ?case
  proof (cases "n < b")
    case True
    with less.prems show ?thesis by (subst show_base.simps) auto
  next
    case False
    with less.prems have "n div b < n" by simp
    with less False have "set (show_base b (n div b)) \<subseteq> digit_char ` {..<16}" by blast
    moreover have "n mod b < 16" using less.prems
      by (meson less_le_trans mod_less_divisor zero_less_numeral)
    ultimately show ?thesis using False less.prems by (subst show_base.simps) auto
  qed
qed

definition plain_char :: "char \<Rightarrow> bool" where
  "plain_char c \<longleftrightarrow> c \<noteq> CHR 0x0A \<and> c \<noteq> CHR 0x0D \<and> c \<noteq> CHR 0x22 \<and> c \<noteq> CHR 0x5C"

definition plain :: "string \<Rightarrow> bool" where
  "plain s \<longleftrightarrow> list_all plain_char s"

lemma plain_Nil [simp]: "plain []" by (simp add: plain_def)
lemma plain_Cons [simp]: "plain (c # b) \<longleftrightarrow> plain_char c \<and> plain b" by (simp add: plain_def)
lemma plain_append [simp]: "plain (a @ b) \<longleftrightarrow> plain a \<and> plain b" by (simp add: plain_def)

lemma plain_take [simp]: "plain s \<Longrightarrow> plain (take n s)"
  and plain_drop [simp]: "plain s \<Longrightarrow> plain (drop n s)"
  by (auto simp: plain_def list_all_iff dest: in_set_takeD in_set_dropD)

lemma plain_replicate [simp]: "plain_char c \<Longrightarrow> plain (replicate n c)"
  by (induction n) auto

lemma plain_digit_char: "d < 16 \<Longrightarrow> plain_char (digit_char d)"
proof -
  assume "d < 16"
  then have "d \<in> set [0..<16]" by simp
  moreover have "list_all (\<lambda>d. plain_char (digit_char d)) [0..<16]"
    by (simp add: plain_char_def digit_char_def upt_rec char_of_eq_iff)
  ultimately show ?thesis by (simp only: list_all_iff)
qed

lemma plain_show_base: "2 \<le> b \<Longrightarrow> b \<le> 16 \<Longrightarrow> plain (show_base b n)"
  using show_base_chars [of b n] plain_digit_char by (fastforce simp: plain_def list_all_iff)

lemma plain_show_nat [simp]: "plain (show_nat n)" and plain_show_hex [simp]: "plain (show_hex n)"
  by (simp_all add: show_nat_def show_hex_def plain_show_base)

lemma plain_join: "plain sep \<Longrightarrow> list_all plain xs \<Longrightarrow> plain (join sep xs)"
  by (induction sep xs rule: join.induct) auto

lemma plain_show_ipv4 [simp]: "plain (show_ipv4 w)"
  unfolding show_ipv4_def by (rule plain_join) (auto simp: list_all_iff plain_char_def)

lemma plain_show_segments [simp]: "plain (show_segments ss)"
  unfolding show_segments_def by (rule plain_join) (auto simp: list_all_iff plain_char_def)

lemma plain_show_ipv6 [simp]: "plain (show_ipv6 w)"
  by (simp add: show_ipv6_def Let_def plain_char_def split: prod.splits)

lemma plain_show_ip [simp]: "plain (show_ip a)"
  by (cases a) simp_all

lemma plain_show_endpoint [simp]: "plain (show_endpoint e)"
  by (simp add: show_endpoint_def plain_char_def split: ip_addr.splits)

lemma plain_kind_str [simp]: "plain (kind_str k)"
  by (cases k) (simp_all add: plain_char_def)

lemma plain_severity_str [simp]: "plain (severity_str k)"
  by (cases k) (simp_all add: plain_char_def)

lemma plain_proto_str [simp]: "plain (proto_str k)"
  by (cases k) (simp_all add: plain_char_def)

lemma plain_fmt_fixed [simp]: "plain (fmt_fixed n v)"
  by (cases v) (simp_all add: fmt_fixed_def Let_def plain_char_def del: take_append drop_append)

text \<open>Undoing the escapes of \<^const>\<open>json_escape\<close> the way a JSON reader does.\<close>

fun json_unescape :: "string \<Rightarrow> string" where
  "json_unescape [] = []"
| "json_unescape [c] = [c]"
| "json_unescape (c # d # s) =
     (if c = CHR 0x5C then
        (if d = CHR ''n'' then CHR 0x0A else if d = CHR ''t'' then CHR 0x09
         else if d = CHR ''r'' then CHR 0x0D else d) # json_unescape s
      else c # json_unescape (d # s))"

lemma json_unescape_plain: "c \<noteq> CHR 0x5C \<Longrightarrow> json_unescape (c # s) = c # json_unescape s"
  by (cases s) auto

lemma json_unescape_escape: "json_unescape (json_escape s) = s"
proof (induction s)
  case Nil
  then show ?case by (simp add: json_escape_def)
next
  case (Cons c s)
  then show ?case by (auto simp: json_escape_def json_unescape_plain)
qed

lemma json_escape_no_newline: "CHR 0x0A \<notin> set (json_escape s)"
  by (auto simp: json_escape_def split: if_splits)

section \<open>Properties\<close>

text \<open>C34: both directions of a conversation have one flow key, and distinct conversations have distinct
  keys: two canonical keys are equal exactly when protocol and unordered pair of endpoints agree. The
  direction tells the observed source and destination; the two ways of a conversation have different
  directions, except between an endpoint and itself, where both are \<open>Forward\<close>.\<close>

theorem flow_key_symmetric:
  "(fst (canonical a b p) = fst (canonical c d q) \<longleftrightarrow> p = q \<and> (a = c \<and> b = d \<or> a = d \<and> b = c)) \<and>
   key_endpoints (fst (canonical a b p)) (snd (canonical a b p)) = (a, b) \<and>
   (snd (canonical a b p) \<noteq> snd (canonical b a p) \<longleftrightarrow> a \<noteq> b) \<and> snd (canonical a a p) = Forward"
proof (intro conjI)
  show "fst (canonical a b p) = fst (canonical c d q) \<longleftrightarrow> p = q \<and> (a = c \<and> b = d \<or> a = d \<and> b = c)"
    "key_endpoints (fst (canonical a b p)) (snd (canonical a b p)) = (a, b)"
    using canonical_eq_iff [of a b p c d q] by simp_all
  show "snd (canonical a b p) \<noteq> snd (canonical b a p) \<longleftrightarrow> a \<noteq> b" using canonical_dir_swap [of a b p] by blast
  show "snd (canonical a a p) = Forward" by (simp add: canonical_def)
qed

end
