(* ===== verification/Metrics.thy ===== *)
theory Metrics
  imports Core_Types "HOL-Library.List_Lexorder" "HOL-Library.Char_ord" "HOL-Library.Product_Lexorder"
begin

text \<open>
  \<^verbatim>\<open>l4scope-export/src/metrics.rs\<close>: the metrics registry. A \<open>BTreeMap\<close> of counters is a list sorted
  by key, and \<open>*entry(k).or_insert(0) += 1\<close> is one insertion; its contract is the locale
  \<open>counter_map\<close>. The mutex is its poisoned flag: a poisoned registry drops updates.
\<close>

section \<open>Ordered counters\<close>

type_synonym 'k counters = "('k \<times> u64) list"

fun bump :: "'k::linorder \<Rightarrow> 'k counters \<Rightarrow> 'k counters" where
  "bump k [] = [(k, 1)]"
| "bump k ((j, n) # m) =
     (if k < j then (k, 1) # (j, n) # m
      else if k = j then (j, n + 1) # m
      else (j, n) # bump k m)"

definition counter :: "'k counters \<Rightarrow> 'k \<Rightarrow> u64" where
  "counter m k = (case map_of m k of None \<Rightarrow> 0 | Some n \<Rightarrow> n)"

definition counters_sorted :: "'k::linorder counters \<Rightarrow> bool" where
  "counters_sorted m \<longleftrightarrow> sorted_wrt (<) (map fst m)"

section \<open>The registry\<close>

record metrics =
  packets_total :: u64
  events_total :: u64
  event_counts :: "(string \<times> string) counters"
  pod_event_counts :: "(string \<times> string \<times> string) counters"
  pod_packets :: "string counters"
  m_active_flows :: u64
  m_half_open_max :: u64
  m_rst_per_sec :: f64
  m_new_flow_per_sec :: f64

definition metrics_default :: metrics where
  "metrics_default =
     \<lparr>packets_total = 0, events_total = 0, event_counts = [], pod_event_counts = [], pod_packets = [],
      m_active_flows = 0, m_half_open_max = 0, m_rst_per_sec = F64 0, m_new_flow_per_sec = F64 0\<rparr>"

record registry =
  reg_metrics :: metrics
  reg_poisoned :: bool

definition registry_new :: registry where
  "registry_new = \<lparr>reg_metrics = metrics_default, reg_poisoned = False\<rparr>"

definition with_lock :: "(metrics \<Rightarrow> metrics) \<Rightarrow> registry \<Rightarrow> registry" where
  "with_lock f r = (if reg_poisoned r then r else r\<lparr>reg_metrics := f (reg_metrics r)\<rparr>)"

definition record_packet :: "string option \<Rightarrow> registry \<Rightarrow> registry" where
  "record_packet pod_ip = with_lock (\<lambda>m.
     let m1 = m\<lparr>packets_total := packets_total m + 1\<rparr> in
     case pod_ip of Some ip \<Rightarrow> m1\<lparr>pod_packets := bump ip (pod_packets m1)\<rparr> | None \<Rightarrow> m1)"

definition record_event :: "l4_event \<Rightarrow> string option \<Rightarrow> registry \<Rightarrow> registry" where
  "record_event ev pod_ip = with_lock (\<lambda>m.
     let k = kind_str (ev_kind ev); s = severity_str (ev_severity ev);
         m1 = m\<lparr>events_total := events_total m + 1, event_counts := bump (k, s) (event_counts m)\<rparr> in
     case pod_ip of
       Some ip \<Rightarrow> m1\<lparr>pod_event_counts := bump (ip, k, s) (pod_event_counts m1)\<rparr>
     | None \<Rightarrow> m1)"

definition set_gauges :: "u64 \<Rightarrow> u64 \<Rightarrow> f64 \<Rightarrow> f64 \<Rightarrow> registry \<Rightarrow> registry" where
  "set_gauges active half_open rst_rate new_rate = with_lock (\<lambda>m.
     m\<lparr>m_active_flows := active, m_half_open_max := half_open, m_rst_per_sec := rst_rate,
       m_new_flow_per_sec := new_rate\<rparr>)"

record metrics_snapshot =
  sn_packets_total :: u64
  sn_events_total :: u64
  sn_event_counts :: "(string \<times> string \<times> u64) list"
  sn_pod_event_counts :: "(string \<times> string \<times> string \<times> u64) list"
  sn_pod_packets :: "(string \<times> u64) list"
  sn_active_flows :: u64
  sn_half_open_max :: u64
  sn_rst_per_sec :: f64
  sn_new_flow_per_sec :: f64

definition snapshot :: "registry \<Rightarrow> metrics_snapshot" where
  "snapshot r = (let m = reg_metrics r in
     \<lparr>sn_packets_total = packets_total m, sn_events_total = events_total m,
      sn_event_counts = map (\<lambda>((k, s), n). (k, s, n)) (event_counts m),
      sn_pod_event_counts = map (\<lambda>((ip, k, s), n). (ip, k, s, n)) (pod_event_counts m),
      sn_pod_packets = pod_packets m, sn_active_flows = m_active_flows m,
      sn_half_open_max = m_half_open_max m, sn_rst_per_sec = m_rst_per_sec m,
      sn_new_flow_per_sec = m_new_flow_per_sec m\<rparr>)"

section \<open>Prometheus text\<close>

definition nl :: string where "nl = [CHR 0x0A]"

definition help_type :: "string \<Rightarrow> string \<Rightarrow> string \<Rightarrow> string" where
  "help_type nm help ty = ''# HELP '' @ nm @ '' '' @ help @ nl @ ''# TYPE '' @ nm @ '' '' @ ty @ nl"

definition sample :: "string \<Rightarrow> string \<Rightarrow> string" where
  "sample series v = series @ '' '' @ v @ nl"

definition show_u64 :: "u64 \<Rightarrow> string" where
  "show_u64 n = show_nat (unat n)"

definition event_series :: "string \<Rightarrow> string \<Rightarrow> string" where
  "event_series kind sev = ''l4scope_events{kind=\"'' @ kind @ ''\",severity=\"'' @ sev @ ''\"}''"

definition pod_event_series :: "string \<Rightarrow> string \<Rightarrow> string \<Rightarrow> string" where
  "pod_event_series ip kind sev =
     ''l4scope_pod_events{pod_ip=\"'' @ ip @ ''\",kind=\"'' @ kind @ ''\",severity=\"'' @ sev @ ''\"}''"

definition pod_packet_series :: "string \<Rightarrow> string" where
  "pod_packet_series ip = ''l4scope_pod_packets_total{pod_ip=\"'' @ ip @ ''\"}''"

definition render_prometheus :: "registry \<Rightarrow> string" where
  "render_prometheus r =
     (if reg_poisoned r then ''# metrics unavailable'' @ nl
      else let m = reg_metrics r in
        help_type ''l4scope_packets_total'' ''Packets processed by the engine.'' ''counter'' @
        sample ''l4scope_packets_total'' (show_u64 (packets_total m)) @
        help_type ''l4scope_events_total'' ''L4 anomaly events emitted.'' ''counter'' @
        sample ''l4scope_events_total'' (show_u64 (events_total m)) @
        help_type ''l4scope_events'' ''Anomaly events by kind and severity.'' ''counter'' @
        concat (map (\<lambda>((k, s), n). sample (event_series k s) (show_u64 n)) (event_counts m)) @
        (if pod_event_counts m = [] then []
         else
           help_type ''l4scope_pod_events'' ''Anomaly events by pod, kind and severity.'' ''counter'' @
           concat (map (\<lambda>((ip, k, s), n). sample (pod_event_series ip k s) (show_u64 n)) (pod_event_counts m)) @
           help_type ''l4scope_pod_packets_total'' ''Packets processed per pod.'' ''counter'' @
           concat (map (\<lambda>(ip, n). sample (pod_packet_series ip) (show_u64 n)) (pod_packets m))) @
        help_type ''l4scope_active_flows'' ''Flows currently tracked.'' ''gauge'' @
        sample ''l4scope_active_flows'' (show_u64 (m_active_flows m)) @
        help_type ''l4scope_half_open_max'' ''Max concurrent half-open connections to one service.'' ''gauge'' @
        sample ''l4scope_half_open_max'' (show_u64 (m_half_open_max m)) @
        help_type ''l4scope_rst_per_second'' ''Host-wide TCP RST rate.'' ''gauge'' @
        sample ''l4scope_rst_per_second'' (fmt_fixed 3 (m_rst_per_sec m)) @
        help_type ''l4scope_new_flows_per_second'' ''Host-wide new-flow rate.'' ''gauge'' @
        sample ''l4scope_new_flows_per_second'' (fmt_fixed 3 (m_new_flow_per_sec m)))"

section \<open>The contract of a counter map\<close>

locale counter_map =
  fixes val :: "'m \<Rightarrow> 'k \<Rightarrow> u64" and incr :: "'k \<Rightarrow> 'm \<Rightarrow> 'm" and wf :: "'m \<Rightarrow> bool" and empty :: 'm
  assumes wf_empty: "wf empty"
    and val_empty: "val empty k = 0"
    and wf_incr: "wf m \<Longrightarrow> wf (incr k m)"
    and val_incr: "wf m \<Longrightarrow> val (incr k m) j = val m j + (if j = k then 1 else 0)"
begin

lemma wf_fold: "wf m \<Longrightarrow> wf (fold incr ks m)"
  by (induction ks arbitrary: m) (simp_all add: wf_incr)

lemma val_fold: "wf m \<Longrightarrow> val (fold incr ks m) j = val m j + of_nat (count_list ks j)"
proof (induction ks arbitrary: m)
  case (Cons k ks)
  from Cons.IH [OF wf_incr [OF Cons.prems]] Cons.prems show ?case by (simp add: val_incr)
qed simp

lemma val_count: "val (fold incr ks empty) j = of_nat (count_list ks j)"
  by (simp add: val_fold wf_empty val_empty)

end

lemma counters_sorted_Cons:
  "counters_sorted ((j, n) # m) \<longleftrightarrow> (\<forall>i \<in> fst ` set m. j < i) \<and> counters_sorted m"
  by (simp add: counters_sorted_def)

lemma fst_set_bump: "fst ` set (bump k m) = insert k (fst ` set m)"
proof (induction m)
  case (Cons p m)
  then show ?case by (cases p) auto
qed simp

lemma counters_sorted_bump: "counters_sorted m \<Longrightarrow> counters_sorted (bump k m)"
proof (induction m)
  case Nil
  then show ?case by (simp add: counters_sorted_def)
next
  case (Cons p m)
  obtain j n where p: "p = (j, n)" by (cases p)
  from Cons.prems have s: "\<forall>i \<in> fst ` set m. j < i" "counters_sorted m" by (simp_all add: p counters_sorted_Cons)
  with Cons.IH have IH: "counters_sorted (bump k m)" by simp
  consider "k < j" | "k = j" | "j < k" by fastforce
  then show ?case
  proof cases
    case 1
    with s show ?thesis by (auto simp: p counters_sorted_Cons)
  next
    case 2
    with s show ?thesis by (simp add: p counters_sorted_Cons)
  next
    case 3
    with s(1) IH show ?thesis by (auto simp: p counters_sorted_Cons fst_set_bump)
  qed
qed

lemma counter_bump: "counters_sorted m \<Longrightarrow> counter (bump k m) j = counter m j + (if j = k then 1 else 0)"
proof (induction m)
  case Nil
  then show ?case by (simp add: counter_def)
next
  case (Cons p m)
  obtain i n where p: "p = (i, n)" by (cases p)
  from Cons.prems have s: "\<forall>l \<in> fst ` set m. i < l" "counters_sorted m" by (simp_all add: p counters_sorted_Cons)
  have "map_of m k = None" if "k < i"
    using that s(1) by (fastforce simp: map_of_eq_None_iff)
  with Cons.IH [OF s(2)] show ?case by (auto simp: p counter_def)
qed

interpretation bt: counter_map counter bump counters_sorted "[]"
  by unfold_locales (simp_all add: counters_sorted_bump counter_bump, simp_all add: counters_sorted_def counter_def)

section \<open>The registry as a log of observations\<close>

datatype reg_op = SeenPacket "string option" | SeenEvent l4_event "string option"
  | Gauges u64 u64 f64 f64

fun reg_step :: "reg_op \<Rightarrow> registry \<Rightarrow> registry" where
  "reg_step (SeenPacket ip) r = record_packet ip r"
| "reg_step (SeenEvent ev ip) r = record_event ev ip r"
| "reg_step (Gauges a h x y) r = set_gauges a h x y r"

definition label :: "l4_event \<Rightarrow> string \<times> string" where
  "label ev = (kind_str (ev_kind ev), severity_str (ev_severity ev))"

definition labels :: "reg_op list \<Rightarrow> (string \<times> string) list" where
  "labels ops = List.map_filter (\<lambda>x. case x of SeenEvent ev ip \<Rightarrow> Some (label ev) | _ \<Rightarrow> None) ops"

definition pod_labels :: "reg_op list \<Rightarrow> (string \<times> string \<times> string) list" where
  "pod_labels ops = List.map_filter
     (\<lambda>x. case x of SeenEvent ev (Some ip) \<Rightarrow> Some (ip, label ev) | _ \<Rightarrow> None) ops"

definition pod_ips :: "reg_op list \<Rightarrow> string list" where
  "pod_ips ops = List.map_filter (\<lambda>x. case x of SeenPacket ip \<Rightarrow> ip | _ \<Rightarrow> None) ops"

definition packet_ops :: "reg_op list \<Rightarrow> nat" where
  "packet_ops ops = length (filter (\<lambda>x. case x of SeenPacket ip \<Rightarrow> True | _ \<Rightarrow> False) ops)"

lemma log_simps [simp]:
  "labels [] = []" "labels (SeenPacket ip # ops) = labels ops" "labels (Gauges a h x y # ops) = labels ops"
  "labels (SeenEvent ev ip # ops) = label ev # labels ops"
  "pod_labels [] = []" "pod_labels (SeenPacket ip # ops) = pod_labels ops"
  "pod_labels (Gauges a h x y # ops) = pod_labels ops"
  "pod_labels (SeenEvent ev ip # ops) = (case ip of None \<Rightarrow> pod_labels ops | Some i \<Rightarrow> (i, label ev) # pod_labels ops)"
  "pod_ips [] = []" "pod_ips (SeenPacket ip # ops) = (case ip of None \<Rightarrow> pod_ips ops | Some i \<Rightarrow> i # pod_ips ops)"
  "pod_ips (Gauges a h x y # ops) = pod_ips ops" "pod_ips (SeenEvent ev ip # ops) = pod_ips ops"
  "packet_ops [] = 0" "packet_ops (SeenPacket ip # ops) = Suc (packet_ops ops)"
  "packet_ops (Gauges a h x y # ops) = packet_ops ops" "packet_ops (SeenEvent ev ip # ops) = packet_ops ops"
  by (simp_all add: labels_def pod_labels_def pod_ips_def packet_ops_def map_filter_simps split: option.split)

lemmas record_defs = record_packet_def record_event_def set_gauges_def with_lock_def

lemma log_fields:
  "\<not> reg_poisoned r \<Longrightarrow>
   \<not> reg_poisoned (fold reg_step ops r) \<and>
   packets_total (reg_metrics (fold reg_step ops r)) = packets_total (reg_metrics r) + of_nat (packet_ops ops) \<and>
   events_total (reg_metrics (fold reg_step ops r)) = events_total (reg_metrics r) + of_nat (length (labels ops)) \<and>
   event_counts (reg_metrics (fold reg_step ops r)) = fold bump (labels ops) (event_counts (reg_metrics r)) \<and>
   pod_event_counts (reg_metrics (fold reg_step ops r)) = fold bump (pod_labels ops) (pod_event_counts (reg_metrics r)) \<and>
   pod_packets (reg_metrics (fold reg_step ops r)) = fold bump (pod_ips ops) (pod_packets (reg_metrics r))"
proof (induction ops arbitrary: r)
  case Nil
  then show ?case by simp
next
  case (Cons x ops)
  then show ?case
  proof (cases x)
    case (SeenPacket ip)
    with Cons.IH [of "record_packet ip r"] Cons.prems show ?thesis
      by (cases ip) (simp_all add: record_packet_def with_lock_def Let_def)
  next
    case (SeenEvent ev ip)
    with Cons.IH [of "record_event ev ip r"] Cons.prems show ?thesis
      by (cases ip) (simp_all add: record_event_def with_lock_def Let_def label_def)
  next
    case (Gauges a h xx y)
    with Cons.IH [of "set_gauges a h xx y r"] Cons.prems show ?thesis
      by (simp add: set_gauges_def with_lock_def)
  qed
qed

lemma registry_new_fields [simp]:
  "\<not> reg_poisoned registry_new" "packets_total (reg_metrics registry_new) = 0"
  "events_total (reg_metrics registry_new) = 0" "event_counts (reg_metrics registry_new) = []"
  "pod_event_counts (reg_metrics registry_new) = []" "pod_packets (reg_metrics registry_new) = []"
  by (simp_all add: registry_new_def metrics_default_def)

lemma registry_log:
  defines "m \<equiv> \<lambda>ops. reg_metrics (fold reg_step ops registry_new)"
  shows "packets_total (m ops) = of_nat (packet_ops ops)"
    and "events_total (m ops) = of_nat (length (labels ops))"
    and "counter (event_counts (m ops)) l = of_nat (count_list (labels ops) l)"
    and "counter (pod_event_counts (m ops)) pl = of_nat (count_list (pod_labels ops) pl)"
    and "counter (pod_packets (m ops)) ip = of_nat (count_list (pod_ips ops) ip)"
    and "counters_sorted (event_counts (m ops))"
  using log_fields [of registry_new ops]
  by (simp_all add: m_def bt.val_count bt.wf_fold bt.wf_empty)

text \<open>The series of a counter map add up to the number of observations.\<close>

lemma sum_bump: "sum_list (map snd (bump k m)) = sum_list (map snd m) + 1"
proof (induction m)
  case (Cons p m)
  then show ?case by (cases p) (auto simp: add_ac)
qed simp

lemma sum_fold_bump: "sum_list (map snd (fold bump ks m)) = sum_list (map snd m) + of_nat (length ks)"
  by (induction ks arbitrary: m) (simp_all add: sum_bump add_ac)

lemma registry_sum:
  "sum_list (map snd (event_counts (reg_metrics (fold reg_step ops registry_new)))) =
     events_total (reg_metrics (fold reg_step ops registry_new))"
  using log_fields [of registry_new ops] by (simp add: sum_fold_bump)

text \<open>The exported series add up.\<close>

lemma series_sum:
  "sum_list (map (\<lambda>(k, s, n). n) (sn_event_counts (snapshot (fold reg_step ops registry_new)))) =
     sn_events_total (snapshot (fold reg_step ops registry_new)) \<and>
   sorted_wrt (<) (map (\<lambda>(k, s, n). (k, s)) (sn_event_counts (snapshot (fold reg_step ops registry_new))))"
proof -
  have m: "map (\<lambda>(k, s, n). n) (map (\<lambda>((k, s), n). (k, s, n)) xs) = map snd xs"
    "map (\<lambda>(k, s, n). (k, s)) (map (\<lambda>((k, s), n). (k, s, n)) xs) = map fst xs" for xs :: "(string \<times> string) counters"
    by (simp_all add: case_prod_unfold)
  show ?thesis
    using registry_sum [of ops] registry_log(6) [of ops]
    by (simp only: snapshot_def Let_def metrics_snapshot.simps m counters_sorted_def)
qed

text \<open>The packets per pod are exported only once a pod has had an event: until then the rendered text is
  the same whatever the pods have sent and received.\<close>

lemma pod_packets_hidden:
  assumes "pod_event_counts (reg_metrics r) = []"
  shows "render_prometheus (r\<lparr>reg_metrics := (reg_metrics r)\<lparr>pod_packets := pp\<rparr>\<rparr>) = render_prometheus r"
  using assms by (simp add: render_prometheus_def Let_def)

section \<open>Properties\<close>

text \<open>C26: the registry counts what it was told: after any sequence of observations the totals, the events
  per kind and severity, the events per pod and the packets per pod are the numbers of the
  observations of that label, modulo the 64 bits of a counter; and the exported samples of the events,
  one per label and in the order of the labels, add up to the total.\<close>

theorem registry_counts:
  "packets_total (reg_metrics (fold reg_step ops registry_new)) = of_nat (packet_ops ops) \<and>
   events_total (reg_metrics (fold reg_step ops registry_new)) = of_nat (length (labels ops)) \<and>
   counter (event_counts (reg_metrics (fold reg_step ops registry_new))) l = of_nat (count_list (labels ops) l) \<and>
   counter (pod_event_counts (reg_metrics (fold reg_step ops registry_new))) pl = of_nat (count_list (pod_labels ops) pl) \<and>
   counter (pod_packets (reg_metrics (fold reg_step ops registry_new))) ip = of_nat (count_list (pod_ips ops) ip) \<and>
   sum_list (map (\<lambda>(k, s, n). n) (sn_event_counts (snapshot (fold reg_step ops registry_new)))) =
     sn_events_total (snapshot (fold reg_step ops registry_new)) \<and>
   sorted_wrt (<) (map (\<lambda>(k, s, n). (k, s)) (sn_event_counts (snapshot (fold reg_step ops registry_new))))"
  using registry_log series_sum [of ops] by blast

end
