(* ===== verification/Core_Config.thy ===== *)
theory Core_Config
  imports Core_Types
begin

text \<open>
  \<^verbatim>\<open>l4scope-core/src/config.rs\<close>: the configuration records with their defaults and the parser of
  the TOML subset. Errors carry the messages of the source.
\<close>

section \<open>Records and defaults\<close>

datatype backend = PcapFile | Synthetic | Live | Ebpf | Etw

record capture_config =
  cc_backend :: backend
  cc_interface :: string
  cc_filter :: string
  cc_pcap_path :: string
  cc_live_command :: string

record detect_config =
  flow_ttl_secs :: u64
  retransmit_ratio_warn :: f64
  dup_ack_threshold :: u32
  rst_storm_per_sec :: f64
  syn_backlog_threshold :: u32
  rtt_warn_ms :: f64
  handshake_timeout_secs :: u64
  churn_per_sec :: f64
  alert_debounce_secs :: u64

record export_config =
  prometheus_addr :: string
  json_events :: string

record otlp_config =
  oc_enabled :: bool
  oc_endpoint :: string
  oc_path :: string
  oc_interval_secs :: u64
  oc_headers :: string
  oc_resource_attributes :: string
  oc_service_name :: string
  oc_pod_cidrs :: string
  oc_pod_attribution :: bool

record config =
  cfg_capture :: capture_config
  cfg_detect :: detect_config
  cfg_export :: export_config
  cfg_otlp :: otlp_config

definition default_detect :: detect_config where
  "default_detect =
     \<lparr>flow_ttl_secs = 120, retransmit_ratio_warn = f64_of_rat 0.05, dup_ack_threshold = 3,
      rst_storm_per_sec = f64_of_rat 20, syn_backlog_threshold = 64, rtt_warn_ms = f64_of_rat 250,
      handshake_timeout_secs = 3, churn_per_sec = f64_of_rat 200, alert_debounce_secs = 10\<rparr>"

definition default_config :: config where
  "default_config =
     \<lparr>cfg_capture = \<lparr>cc_backend = Synthetic, cc_interface = '''', cc_filter = ''tcp or udp'',
        cc_pcap_path = '''', cc_live_command = ''''\<rparr>,
      cfg_detect = default_detect,
      cfg_export = \<lparr>prometheus_addr = ''127.0.0.1:9560'', json_events = ''stdout''\<rparr>,
      cfg_otlp = \<lparr>oc_enabled = False, oc_endpoint = ''http://localhost:4318'',
        oc_path = ''/v1/metrics'', oc_interval_secs = 15, oc_headers = '''',
        oc_resource_attributes = '''', oc_service_name = ''l4scope'', oc_pod_cidrs = '''',
        oc_pod_attribution = False\<rparr>\<rparr>"

section \<open>Parsing values\<close>

definition backend_parse :: "string \<Rightarrow> backend result" where
  "backend_parse s =
     (if s = ''pcap_file'' \<or> s = ''pcap'' then Inr PcapFile
      else if s = ''synthetic'' \<or> s = ''demo'' then Inr Synthetic
      else if s = ''live'' \<or> s = ''tcpdump'' then Inr Live
      else if s = ''ebpf'' then Inr Ebpf
      else if s = ''etw'' then Inr Etw
      else Inl (Config_err (''unknown backend '' @ [CHR 0x27] @ s @ [CHR 0x27])))"

definition strip_comment :: "string \<Rightarrow> string" where
  "strip_comment line = takeWhile (\<lambda>c. c \<noteq> CHR ''#'') line"

definition unquote :: "string \<Rightarrow> string" where
  "unquote v0 =
     (let v = trim v0 in
      if 2 \<le> length v \<and> prefix [CHR 0x22] v \<and> suffix [CHR 0x22] v
      then take (length v - 2) (drop 1 v) else v)"

definition parse_bool :: "string \<Rightarrow> bool result" where
  "parse_bool v =
     (if v = ''true'' then Inr True else if v = ''false'' then Inr False
      else Inl (Config_err (''expected true/false, got '' @ [CHR 0x27] @ v @ [CHR 0x27])))"

definition parse_u64 :: "string \<Rightarrow> u64 result" where
  "parse_u64 v = (case parse_uint 64 v of
      Some n \<Rightarrow> Inr (of_nat n)
    | None \<Rightarrow> Inl (Config_err (''expected integer, got '' @ [CHR 0x27] @ v @ [CHR 0x27])))"

definition parse_u32 :: "string \<Rightarrow> u32 result" where
  "parse_u32 v = (case parse_uint 32 v of
      Some n \<Rightarrow> Inr (of_nat n)
    | None \<Rightarrow> Inl (Config_err (''expected integer, got '' @ [CHR 0x27] @ v @ [CHR 0x27])))"

definition parse_f64 :: "string \<Rightarrow> f64 result" where
  "parse_f64 v = (case parse_f64_str v of
      Some x \<Rightarrow> Inr x
    | None \<Rightarrow> Inl (Config_err (''expected number, got '' @ [CHR 0x27] @ v @ [CHR 0x27])))"

section \<open>Applying one key\<close>

definition on_ok :: "'a result \<Rightarrow> ('a \<Rightarrow> 'b) \<Rightarrow> 'b result" where
  "on_ok r f = (case r of Inl e \<Rightarrow> Inl e | Inr x \<Rightarrow> Inr (f x))"

definition set_capture :: "config \<Rightarrow> (capture_config \<Rightarrow> capture_config) \<Rightarrow> config" where
  "set_capture c f = c\<lparr>cfg_capture := f (cfg_capture c)\<rparr>"

definition set_detect :: "config \<Rightarrow> (detect_config \<Rightarrow> detect_config) \<Rightarrow> config" where
  "set_detect c f = c\<lparr>cfg_detect := f (cfg_detect c)\<rparr>"

definition set_export :: "config \<Rightarrow> (export_config \<Rightarrow> export_config) \<Rightarrow> config" where
  "set_export c f = c\<lparr>cfg_export := f (cfg_export c)\<rparr>"

definition set_otlp :: "config \<Rightarrow> (otlp_config \<Rightarrow> otlp_config) \<Rightarrow> config" where
  "set_otlp c f = c\<lparr>cfg_otlp := f (cfg_otlp c)\<rparr>"

definition unknown_key :: "string \<Rightarrow> string \<Rightarrow> 'a result" where
  "unknown_key section key =
     Inl (Config_err (''unknown key '' @ [CHR 0x27] @ ''['' @ section @ ''] '' @ key @ [CHR 0x27]))"

definition apply_capture :: "config \<Rightarrow> string \<Rightarrow> string \<Rightarrow> config result" where
  "apply_capture c key val =
     (if key = ''backend'' then on_ok (backend_parse (unquote val)) (\<lambda>b. set_capture c (cc_backend_update (\<lambda>_. b)))
      else if key = ''interface'' then Inr (set_capture c (cc_interface_update (\<lambda>_. unquote val)))
      else if key = ''filter'' then Inr (set_capture c (cc_filter_update (\<lambda>_. unquote val)))
      else if key = ''pcap_path'' then Inr (set_capture c (cc_pcap_path_update (\<lambda>_. unquote val)))
      else if key = ''live_command'' then Inr (set_capture c (cc_live_command_update (\<lambda>_. unquote val)))
      else unknown_key ''capture'' key)"

definition apply_detect :: "config \<Rightarrow> string \<Rightarrow> string \<Rightarrow> config result" where
  "apply_detect c key val =
     (if key = ''flow_ttl_secs'' then on_ok (parse_u64 val) (\<lambda>x. set_detect c (flow_ttl_secs_update (\<lambda>_. x)))
      else if key = ''retransmit_ratio_warn'' then on_ok (parse_f64 val) (\<lambda>x. set_detect c (retransmit_ratio_warn_update (\<lambda>_. x)))
      else if key = ''dup_ack_threshold'' then on_ok (parse_u32 val) (\<lambda>x. set_detect c (dup_ack_threshold_update (\<lambda>_. x)))
      else if key = ''rst_storm_per_sec'' then on_ok (parse_f64 val) (\<lambda>x. set_detect c (rst_storm_per_sec_update (\<lambda>_. x)))
      else if key = ''syn_backlog_threshold'' then on_ok (parse_u32 val) (\<lambda>x. set_detect c (syn_backlog_threshold_update (\<lambda>_. x)))
      else if key = ''rtt_warn_ms'' then on_ok (parse_f64 val) (\<lambda>x. set_detect c (rtt_warn_ms_update (\<lambda>_. x)))
      else if key = ''handshake_timeout_secs'' then on_ok (parse_u64 val) (\<lambda>x. set_detect c (handshake_timeout_secs_update (\<lambda>_. x)))
      else if key = ''churn_per_sec'' then on_ok (parse_f64 val) (\<lambda>x. set_detect c (churn_per_sec_update (\<lambda>_. x)))
      else if key = ''alert_debounce_secs'' then on_ok (parse_u64 val) (\<lambda>x. set_detect c (alert_debounce_secs_update (\<lambda>_. x)))
      else unknown_key ''detect'' key)"

definition apply_export :: "config \<Rightarrow> string \<Rightarrow> string \<Rightarrow> config result" where
  "apply_export c key val =
     (if key = ''prometheus_addr'' then Inr (set_export c (prometheus_addr_update (\<lambda>_. unquote val)))
      else if key = ''json_events'' then Inr (set_export c (json_events_update (\<lambda>_. unquote val)))
      else unknown_key ''export'' key)"

definition apply_otlp :: "config \<Rightarrow> string \<Rightarrow> string \<Rightarrow> config result" where
  "apply_otlp c key val =
     (if key = ''enabled'' then on_ok (parse_bool (unquote val)) (\<lambda>x. set_otlp c (oc_enabled_update (\<lambda>_. x)))
      else if key = ''endpoint'' then Inr (set_otlp c (oc_endpoint_update (\<lambda>_. unquote val)))
      else if key = ''path'' then Inr (set_otlp c (oc_path_update (\<lambda>_. unquote val)))
      else if key = ''interval_secs'' then on_ok (parse_u64 val) (\<lambda>x. set_otlp c (oc_interval_secs_update (\<lambda>_. x)))
      else if key = ''headers'' then Inr (set_otlp c (oc_headers_update (\<lambda>_. unquote val)))
      else if key = ''resource_attributes'' then Inr (set_otlp c (oc_resource_attributes_update (\<lambda>_. unquote val)))
      else if key = ''service_name'' then Inr (set_otlp c (oc_service_name_update (\<lambda>_. unquote val)))
      else if key = ''pod_cidrs'' then Inr (set_otlp c (oc_pod_cidrs_update (\<lambda>_. unquote val)))
      else if key = ''pod_attribution'' then on_ok (parse_bool (unquote val)) (\<lambda>x. set_otlp c (oc_pod_attribution_update (\<lambda>_. x)))
      else unknown_key ''otlp'' key)"

definition apply_key :: "config \<Rightarrow> string \<Rightarrow> string \<Rightarrow> string \<Rightarrow> config result" where
  "apply_key c section key val =
     (if section = ''capture'' then apply_capture c key val
      else if section = ''detect'' then apply_detect c key val
      else if section = ''export'' then apply_export c key val
      else if section = ''otlp'' then apply_otlp c key val
      else unknown_key section key)"

section \<open>The parser\<close>

type_synonym parse_state = "config \<times> string"

definition section_header :: "string \<Rightarrow> string option" where
  "section_header line = Option.bind (strip_prefix_str ''['' line) (strip_suffix_str '']'')"

text \<open>One iteration of the line loop, with the zero-based line number.\<close>

definition parse_line :: "nat \<Rightarrow> string \<Rightarrow> parse_state \<Rightarrow> parse_state result" where
  "parse_line lineno raw st =
     (let (c, section) = st; line = trim (strip_comment raw) in
      if line = [] then Inr st
      else case section_header line of
        Some sec \<Rightarrow> Inr (c, trim sec)
      | None \<Rightarrow>
          (case split_once (CHR ''='') line of
             None \<Rightarrow> Inl (Config_err (''line '' @ show_nat (lineno + 1) @ '': expected key = value''))
           | Some (k, v) \<Rightarrow>
               (case apply_key c section (trim k) (trim v) of
                  Inl e \<Rightarrow> Inl (Config_err (''line '' @ show_nat (lineno + 1) @ '': '' @ show_error e))
                | Inr c' \<Rightarrow> Inr (c', section))))"

fun parse_lines :: "nat \<Rightarrow> string list \<Rightarrow> parse_state \<Rightarrow> parse_state result" where
  "parse_lines n [] st = Inr st"
| "parse_lines n (l # ls) st =
     (case parse_line n l st of Inl e \<Rightarrow> Inl e | Inr st' \<Rightarrow> parse_lines (n + 1) ls st')"

definition from_str :: "string \<Rightarrow> config result" where
  "from_str text = on_ok (parse_lines 0 (lines text) (default_config, '''')) fst"

text \<open>\<open>Config::load\<close>: the file system is the parameter \<open>read\<close>, which gives the text or the
  message of the I/O error.\<close>

definition load :: "(string \<Rightarrow> string + string) \<Rightarrow> string \<Rightarrow> config result" where
  "load read path = (case read path of
      Inl e \<Rightarrow> Inl (Config_err (''cannot read '' @ path @ '': '' @ e))
    | Inr text \<Rightarrow> from_str text)"

end
