(* ===== verification/Export.thy ===== *)
theory Export
  imports Metrics Core_Config
begin

text \<open>
  \<^verbatim>\<open>l4scope-export\<close>: the NDJSON sink (\<^verbatim>\<open>json.rs\<close>), the HTTP endpoint (\<^verbatim>\<open>http.rs\<close>), and the OTLP/JSON
  exporter (\<^verbatim>\<open>otlp.rs\<close>). What the sockets and the file system answer is a parameter.
\<close>

section \<open>The NDJSON sink\<close>

datatype json_sink = SinkOff | SinkStdout | SinkStderr | SinkFile string

text \<open>The text written so far to the standard streams and to files, the requests sent to the collector, and the
  child processes stopped.\<close>

record world =
  w_stdout :: string
  w_stderr :: string
  w_files :: "string \<Rightarrow> string"
  w_posts :: "string list"
  w_stopped :: "string list list"

definition world_empty :: world where
  "world_empty = \<lparr>w_stdout = [], w_stderr = [], w_files = (\<lambda>f. []), w_posts = [], w_stopped = []\<rparr>"

definition from_target :: "(string \<Rightarrow> string option) \<Rightarrow> string \<Rightarrow> json_sink result" where
  "from_target open_append target =
     (let t = trim target in
      if t = '''' \<or> t = ''off'' \<or> t = ''none'' then Inr SinkOff
      else if t = ''stdout'' then Inr SinkStdout
      else if t = ''stderr'' then Inr SinkStderr
      else case open_append t of
        Some e \<Rightarrow> Inl (Config_err (''cannot open json_events '' @ t @ '': '' @ e))
      | None \<Rightarrow> Inr (SinkFile t))"

definition emit :: "json_sink \<Rightarrow> l4_event \<Rightarrow> world \<Rightarrow> world" where
  "emit sink ev w =
     (let line = to_json ev @ nl in
      case sink of
        SinkOff \<Rightarrow> w
      | SinkStdout \<Rightarrow> w\<lparr>w_stdout := w_stdout w @ line\<rparr>
      | SinkStderr \<Rightarrow> w\<lparr>w_stderr := w_stderr w @ line\<rparr>
      | SinkFile f \<Rightarrow> w\<lparr>w_files := (w_files w)(f := w_files w f @ line)\<rparr>)"

section \<open>The HTTP endpoint\<close>

definition crlf :: string where "crlf = [CHR 0x0D, CHR 0x0A]"

text \<open>\<open>read_line\<close>: up to and including the next line feed.\<close>

definition read_line :: "string \<Rightarrow> string \<times> string" where
  "read_line s =
     (let a = takeWhile (\<lambda>c. c \<noteq> CHR 0x0A) s; n = length a + 1 in (take n s, drop n s))"

definition route :: "registry \<Rightarrow> string \<Rightarrow> string \<times> string \<times> string" where
  "route reg path =
     (if prefix ''/metrics'' path then (''200 OK'', ''text/plain; version=0.0.4'', render_prometheus reg)
      else if prefix ''/healthz'' path then (''200 OK'', ''text/plain'', ''ok'' @ nl)
      else (''404 Not Found'', ''text/plain'', ''not found'' @ nl))"

definition http_response :: "string \<times> string \<times> string \<Rightarrow> string" where
  "http_response r = (case r of (status, ctype, body) \<Rightarrow>
     ''HTTP/1.1 '' @ status @ crlf @ ''Content-Type: '' @ ctype @ crlf @
     ''Content-Length: '' @ show_nat (length body) @ crlf @ ''Connection: close'' @ crlf @ crlf @ body)"

section \<open>Serving connections\<close>

text \<open>\<open>String::from_utf8_lossy\<close>: each maximal invalid prefix becomes U+FFFD.\<close>

definition cont :: "nat \<Rightarrow> nat \<Rightarrow> string \<Rightarrow> bool" where
  "cont lo hi s = (case s of [] \<Rightarrow> False | c # _ \<Rightarrow> lo \<le> of_char c \<and> of_char c \<le> (hi :: nat))"

definition utf8_second :: "nat \<Rightarrow> nat \<times> nat" where
  "utf8_second b =
     (if b = 0xE0 then (0xA0, 0xBF) else if b = 0xED then (0x80, 0x9F)
      else if b = 0xF0 then (0x90, 0xBF) else if b = 0xF4 then (0x80, 0x8F) else (0x80, 0xBF))"

definition utf8_width :: "nat \<Rightarrow> nat" where
  "utf8_width b =
     (if b < 0x80 then 1 else if 0xC2 \<le> b \<and> b \<le> 0xDF then 2 else if 0xE0 \<le> b \<and> b \<le> 0xEF then 3
      else if 0xF0 \<le> b \<and> b \<le> 0xF4 then 4 else 0)"

fun good_tail :: "nat \<Rightarrow> nat \<times> nat \<Rightarrow> string \<Rightarrow> nat" where
  "good_tail 0 r s = 0"
| "good_tail (Suc n) r s =
     (if cont (fst r) (snd r) s then Suc (good_tail n (0x80, 0xBF) (tl s)) else 0)"

fun lossy_aux :: "nat \<Rightarrow> string \<Rightarrow> string" where
  "lossy_aux 0 s = []"
| "lossy_aux (Suc n) [] = []"
| "lossy_aux (Suc n) (c # cs) =
     (let b = of_char c :: nat; w = utf8_width b; t = good_tail (w - 1) (utf8_second b) cs in
      if w \<noteq> 0 \<and> t = w - 1 then c # take t cs @ lossy_aux n (drop t cs)
      else [CHR 0xEF, CHR 0xBF, CHR 0xBD] @ lossy_aux n (drop t cs))"

definition from_utf8_lossy :: "string \<Rightarrow> string" where
  "from_utf8_lossy s = lossy_aux (length s) s"

definition utf8_valid :: "string \<Rightarrow> bool" where
  "utf8_valid s \<longleftrightarrow> from_utf8_lossy s = s"

text \<open>A connection: whether cloning its handle fails, the bytes it delivers, the error in place of the end
  of the stream, and the error of writing the response.\<close>

record conn =
  conn_clone :: "string option"
  conn_bytes :: string
  conn_read :: "string option"
  conn_write :: "string option"

text \<open>\<open>BufRead::read_line\<close>: a line, nothing at the end of the stream, or an error.\<close>

definition conn_line :: "conn \<Rightarrow> string \<Rightarrow> string + (string \<times> string)" where
  "conn_line c s =
     (let (line, rest) = read_line s in
      if CHR 0x0A \<notin> set line \<and> conn_read c \<noteq> None then Inl (the (conn_read c))
      else if \<not> utf8_valid line then Inl ''stream did not contain valid UTF-8''
      else Inr (line, rest))"

lemma conn_line_shorter: "conn_line c s = Inr (line, rest) \<Longrightarrow> line \<noteq> [] \<Longrightarrow> length rest < length s"
  by (cases s) (auto simp: conn_line_def read_line_def Let_def split: if_splits)

function drain_headers :: "conn \<Rightarrow> string \<Rightarrow> string + unit" where
  "drain_headers c s = (case conn_line c s of
      Inl e \<Rightarrow> Inl e
    | Inr (line, rest) \<Rightarrow> if line = [] \<or> line = crlf \<or> line = nl then Inr () else drain_headers c rest)"
  by pat_completeness auto
termination
  by (relation "measure (\<lambda>(c, s). length s)") (auto dest: conn_line_shorter)

declare drain_headers.simps [simp del]

definition request_path :: "string \<Rightarrow> string" where
  "request_path line = (case split_whitespace line of _ # p # _ \<Rightarrow> p | _ \<Rightarrow> ''/'')"

definition handle_conn :: "registry \<Rightarrow> conn \<Rightarrow> string + string" where
  "handle_conn reg c = (case conn_clone c of
      Some e \<Rightarrow> Inl e
    | None \<Rightarrow>
        (case conn_line c (conn_bytes c) of
           Inl e \<Rightarrow> Inl e
         | Inr (request_line, rest) \<Rightarrow>
             (case drain_headers c rest of
                Inl e \<Rightarrow> Inl e
              | Inr _ \<Rightarrow>
                  (case conn_write c of
                     Some e \<Rightarrow> Inl e
                   | None \<Rightarrow> Inr (http_response (route reg (request_path request_line)))))))"

text \<open>The server: the address is bound, then the connections are answered one after the other; what
  fails on one connection does not end the loop. Each connection finds the registry as it is then.\<close>

definition serve :: "(string \<Rightarrow> string option) \<Rightarrow> string \<Rightarrow> unit result" where
  "serve try_bind addr = (case try_bind addr of
      Some e \<Rightarrow> Inl (Config_err (''cannot bind metrics addr '' @ addr @ '': '' @ e)) | None \<Rightarrow> Inr ())"

fun accept_loop :: "(string + registry \<times> conn) list \<Rightarrow> string list" where
  "accept_loop [] = []"
| "accept_loop (Inl e # cs) = accept_loop cs"
| "accept_loop (Inr (reg, c) # cs) =
     (case handle_conn reg c of Inl e \<Rightarrow> accept_loop cs | Inr resp \<Rightarrow> resp # accept_loop cs)"

section \<open>The OTLP target\<close>

record target =
  t_host :: string
  t_port :: u16
  t_path :: string
  t_headers :: "(string \<times> string) list"

definition kv_pair :: "string \<Rightarrow> (string \<times> string) option" where
  "kv_pair kv = map_option (\<lambda>(k, v). (trim k, trim v)) (split_once (CHR ''='') kv)"

definition parse_target :: "otlp_config \<Rightarrow> target result" where
  "parse_target cfg =
     (let ep = trim (oc_endpoint cfg);
          rest = (case strip_prefix_str ''http://'' ep of Some r \<Rightarrow> r | None \<Rightarrow> ep)
      in if strip_prefix_str ''http://'' ep = None \<and> prefix ''https://'' ep
         then Inl (Config_err ''otlp endpoint must be http:// (run a node-local Collector for TLS/cloud)'')
         else
           let authority = hd (split_on (CHR ''/'') rest);
               (host, port) = (case rsplit_once (CHR '':'') authority of
                   Some (h, p) \<Rightarrow> (h, (case parse_uint 16 p of Some n \<Rightarrow> of_nat n | None \<Rightarrow> 4318))
                 | None \<Rightarrow> (authority, 4318))
           in if host = [] then Inl (Config_err ''otlp endpoint has no host'')
              else Inr \<lparr>t_host = host, t_port = port, t_path = oc_path cfg,
                t_headers = List.map_filter kv_pair (split_on (CHR '','') (oc_headers cfg))\<rparr>)"

section \<open>JSON assembly\<close>

fun esc_char :: "char \<Rightarrow> string" where
  "esc_char c =
     (if c = CHR 0x22 then [CHR 0x5C, CHR 0x22]
      else if c = CHR 0x5C then [CHR 0x5C, CHR 0x5C]
      else if c = CHR 0x0A then [CHR 0x5C, CHR ''n'']
      else if c = CHR 0x0D then [CHR 0x5C, CHR ''r'']
      else if c = CHR 0x09 then [CHR 0x5C, CHR ''t'']
      else [c])"

definition esc :: "string \<Rightarrow> string" where
  "esc s = concat (map esc_char s)"

definition attr_str :: "string \<times> string \<Rightarrow> string" where
  "attr_str kv = (case kv of (key, v) \<Rightarrow>
     ''{\"key\":\"'' @ esc key @ ''\",\"value\":{\"stringValue\":\"'' @ esc v @ ''\"}}'')"

definition attrs_array :: "(string \<times> string) list \<Rightarrow> string" where
  "attrs_array ps = ''['' @ join '','' (map attr_str ps) @ '']''"

definition sum_dp_int :: "u64 \<Rightarrow> u64 \<Rightarrow> u64 \<Rightarrow> string \<Rightarrow> string" where
  "sum_dp_int v start_ns now_ns attrs =
     ''{\"asInt\":\"'' @ show_u64 v @ ''\",\"startTimeUnixNano\":\"'' @ show_u64 start_ns @
     ''\",\"timeUnixNano\":\"'' @ show_u64 now_ns @ ''\",\"attributes\":'' @ attrs @ ''}''"

definition gauge_dp_int :: "u64 \<Rightarrow> u64 \<Rightarrow> string" where
  "gauge_dp_int v now_ns =
     ''{\"asInt\":\"'' @ show_u64 v @ ''\",\"timeUnixNano\":\"'' @ show_u64 now_ns @ ''\",\"attributes\":[]}''"

text \<open>\<open>Display\<close> of an \<open>f64\<close>: the fewest significant digits that read back as the same value, without
  an exponent.\<close>

fun dec_exponent :: "nat \<Rightarrow> rat \<Rightarrow> int" where
  "dec_exponent 0 q = 0"
| "dec_exponent (Suc n) q =
     (if q \<ge> 1 then int (length (show_nat (nat \<lfloor>q\<rfloor>))) - 1 else dec_exponent n (q * 10) - 1)"

definition sig_digits :: "rat \<Rightarrow> nat \<Rightarrow> nat \<times> int" where
  "sig_digits q d =
     (let s = dec_exponent 400 q - int d + 1 in (nat (round_half_even (q * 10 powi (- s))), s))"

definition shortest :: "rat \<Rightarrow> nat \<times> int" where
  "shortest q = (case find (\<lambda>d. let (m, s) = sig_digits q d in f64_of_rat (of_nat m * 10 powi s) = F64 q) [1..<18] of
      Some d \<Rightarrow> sig_digits q d | None \<Rightarrow> sig_digits q 17)"

definition show_f64 :: "f64 \<Rightarrow> string" where
  "show_f64 v = (case v of
      F64 q \<Rightarrow>
        if q = 0 then ''0''
        else
          let (m, s) = shortest \<bar>q\<bar>; ds = show_nat m;
              body = (if s \<ge> 0 then ds @ replicate (nat s) (CHR ''0'')
                      else
                        let k = nat (- s); ds' = replicate (k + 1 - length ds) (CHR ''0'') @ ds;
                            i = length ds' - k; fr = rev (dropWhile (\<lambda>c. c = CHR ''0'') (rev (drop i ds')))
                        in take i ds' @ (if fr = [] then [] else ''.'' @ fr))
          in (if q < 0 then ''-'' else '''') @ body
    | F64_Inf neg \<Rightarrow> (if neg then ''-inf'' else ''inf'')
    | F64_NaN \<Rightarrow> ''NaN'')"

definition gauge_dp_double :: "f64 \<Rightarrow> u64 \<Rightarrow> string" where
  "gauge_dp_double v now_ns =
     ''{\"asDouble\":'' @ show_f64 v @ '',\"timeUnixNano\":\"'' @ show_u64 now_ns @ ''\",\"attributes\":[]}''"

definition metric_sum :: "string \<Rightarrow> string \<Rightarrow> string list \<Rightarrow> string" where
  "metric_sum nm un dps =
     ''{\"name\":\"'' @ nm @ ''\",\"unit\":\"'' @ un @
     ''\",\"sum\":{\"aggregationTemporality\":2,\"isMonotonic\":true,\"dataPoints\":['' @ join '','' dps @ '']}}''"

definition metric_gauge :: "string \<Rightarrow> string \<Rightarrow> string list \<Rightarrow> string" where
  "metric_gauge nm un dps =
     ''{\"name\":\"'' @ nm @ ''\",\"unit\":\"'' @ un @ ''\",\"gauge\":{\"dataPoints\":['' @ join '','' dps @ '']}}''"

definition unless_empty :: "string list \<Rightarrow> (string list \<Rightarrow> string) \<Rightarrow> string list" where
  "unless_empty dps f = (if dps = [] then [] else [f dps])"

definition build_body :: "metrics_snapshot \<Rightarrow> (string \<times> string) list \<Rightarrow> u64 \<Rightarrow> u64 \<Rightarrow> string" where
  "build_body snap resource_attrs start_ns now_ns =
     (let ev_dps = map (\<lambda>(k, s, n). sum_dp_int n start_ns now_ns
            (attrs_array [(''l4.kind'', k), (''severity'', s)])) (sn_event_counts snap);
          pod_ev_dps = map (\<lambda>(ip, k, s, n). sum_dp_int n start_ns now_ns
            (attrs_array [(''k8s.pod.ip'', ip), (''l4.kind'', k), (''severity'', s)])) (sn_pod_event_counts snap);
          pod_pkt_dps = map (\<lambda>(ip, n). sum_dp_int n start_ns now_ns (attrs_array [(''k8s.pod.ip'', ip)]))
            (sn_pod_packets snap);
          metrics =
            [metric_sum ''l4scope.packets'' ''1'' [sum_dp_int (sn_packets_total snap) start_ns now_ns ''[]'']] @
            unless_empty ev_dps (metric_sum ''l4scope.events'' ''1'') @
            unless_empty pod_ev_dps (metric_sum ''l4scope.pod.events'' ''1'') @
            unless_empty pod_pkt_dps (metric_sum ''l4scope.pod.packets'' ''1'') @
            [metric_gauge ''l4scope.active_flows'' ''1'' [gauge_dp_int (sn_active_flows snap) now_ns],
             metric_gauge ''l4scope.half_open_max'' ''1'' [gauge_dp_int (sn_half_open_max snap) now_ns],
             metric_gauge ''l4scope.rst_per_second'' ''1/s'' [gauge_dp_double (sn_rst_per_sec snap) now_ns],
             metric_gauge ''l4scope.new_flows_per_second'' ''1/s''
               [gauge_dp_double (sn_new_flow_per_sec snap) now_ns]]
      in ''{\"resourceMetrics\":[{\"resource\":{\"attributes\":['' @ join '','' (map attr_str resource_attrs) @
         '']},\"scopeMetrics\":[{\"scope\":{\"name\":\"l4scope\",\"version\":\"0.1.0\"},\"metrics\":['' @
         join '','' metrics @ '']}]}]}'')"

section \<open>The push\<close>

definition otlp_request :: "target \<Rightarrow> string \<Rightarrow> string" where
  "otlp_request t body =
     ''POST '' @ t_path t @ '' HTTP/1.1'' @ crlf @
     ''Host: '' @ t_host t @ '':'' @ show_nat (unat (t_port t)) @ crlf @
     ''Content-Type: application/json'' @ crlf @
     ''Content-Length: '' @ show_nat (length body) @ crlf @
     concat (map (\<lambda>(k, v). if k = [] then [] else k @ '': '' @ v @ crlf) (t_headers t)) @
     ''Connection: close'' @ crlf @ crlf"

text \<open>The connection: whether \<open>connect\<close> and the two writes fail, and the first bytes of the reply, none
  on a failed read.\<close>

record net =
  net_connect :: "string option"
  net_write :: "string option"
  net_write_body :: "string option"
  net_reply :: string

text \<open>What was sent in full, and the outcome.\<close>

definition post :: "(string \<Rightarrow> u16 \<Rightarrow> net) \<Rightarrow> target \<Rightarrow> string \<Rightarrow> string \<times> (string + unit)" where
  "post env t body =
     (let c = env (t_host t) (t_port t); req = otlp_request t body in
      case net_connect c of
        Some e \<Rightarrow> ([], Inl (''connect '' @ t_host t @ '':'' @ show_nat (unat (t_port t)) @ '': '' @ e))
      | None \<Rightarrow> (case net_write c of Some e \<Rightarrow> ([], Inl e)
      | None \<Rightarrow> (case net_write_body c of Some e \<Rightarrow> (req, Inl e)
      | None \<Rightarrow>
          (let buf = take 256 (net_reply c) in
           (req @ body,
            if buf = [] then Inr ()
            else case split_whitespace (from_utf8_lossy buf) of
                   _ # status # _ \<Rightarrow>
                     if prefix ''2'' status then Inr () else Inl (''collector returned HTTP '' @ status)
                 | _ \<Rightarrow> Inr ())))))"

definition build_and_post ::
  "(string \<Rightarrow> u16 \<Rightarrow> net) \<Rightarrow> target \<Rightarrow> registry \<Rightarrow> (string \<times> string) list \<Rightarrow> u64 \<Rightarrow> u64
     \<Rightarrow> string \<times> (string + unit)" where
  "build_and_post env t reg attrs start_ns now_ns = post env t (build_body (snapshot reg) attrs start_ns now_ns)"

definition flush ::
  "(string \<Rightarrow> u16 \<Rightarrow> net) \<Rightarrow> registry \<Rightarrow> otlp_config \<Rightarrow> (string \<times> string) list \<Rightarrow> u64 \<Rightarrow> u64
     \<Rightarrow> string \<times> unit result" where
  "flush env reg cfg attrs start_ns now_ns = (case parse_target cfg of
      Inl e \<Rightarrow> ([], Inl e)
    | Inr t \<Rightarrow> map_prod id (map_sum Io id) (build_and_post env t reg attrs start_ns now_ns))"

text \<open>The periodic push: the target and the interval it starts with, and one turn of its loop at the time
  \<open>now\<close>, with the registry and the network as they are then.\<close>

record pusher =
  p_target :: target
  p_interval_secs :: u64
  p_start_ns :: u64
  p_attrs :: "(string \<times> string) list"

definition otlp_start :: "otlp_config \<Rightarrow> (string \<times> string) list \<Rightarrow> u64 \<Rightarrow> pusher result" where
  "otlp_start cfg attrs now = (case parse_target cfg of
      Inl e \<Rightarrow> Inl e
    | Inr t \<Rightarrow> Inr \<lparr>p_target = t, p_interval_secs = max (oc_interval_secs cfg) 1, p_start_ns = now, p_attrs = attrs\<rparr>)"

definition eprintln :: "string \<Rightarrow> world \<Rightarrow> world" where
  "eprintln s w = w\<lparr>w_stderr := w_stderr w @ s @ nl\<rparr>"

definition send_post :: "string \<Rightarrow> world \<Rightarrow> world" where
  "send_post s w = (if s = [] then w else w\<lparr>w_posts := w_posts w @ [s]\<rparr>)"

definition push_turn :: "pusher \<Rightarrow> (string \<Rightarrow> u16 \<Rightarrow> net) \<Rightarrow> registry \<Rightarrow> u64 \<Rightarrow> world \<Rightarrow> world" where
  "push_turn p env reg now w =
     (let (sent, r) = build_and_post env (p_target p) reg (p_attrs p) (p_start_ns p) now; w1 = send_post sent w
      in case r of Inr _ \<Rightarrow> w1 | Inl e \<Rightarrow> eprintln (''l4scope: otlp push failed: '' @ e) w1)"

text \<open>The thread: the times at which it wakes up, with the registry and the network it finds.\<close>

fun push_loop :: "pusher \<Rightarrow> (u64 \<times> registry \<times> (string \<Rightarrow> u16 \<Rightarrow> net)) list \<Rightarrow> world \<Rightarrow> world" where
  "push_loop p [] w = w"
| "push_loop p ((now, reg, env) # wakes) w = push_loop p wakes (push_turn p env reg now w)"

end
