(* ===== verification/Bytes.thy ===== *)
theory Bytes
  imports Core_Types
begin

unbundle bit_operations_syntax

text \<open>
  Byte sequences: bounds-checked access to slices, and the big- and little-endian readings and
  writings of machine words that the parsers of the capture backends share.
\<close>

type_synonym bytes = "u8 list"

section \<open>Checked access\<close>

definition get_at :: "nat \<Rightarrow> 'a list \<Rightarrow> 'a option" where
  "get_at i xs = (if i < length xs then Some (xs ! i) else None)"

definition get_from :: "nat \<Rightarrow> 'a list \<Rightarrow> 'a list option" where
  "get_from i xs = (if i \<le> length xs then Some (drop i xs) else None)"

definition get_range :: "nat \<Rightarrow> nat \<Rightarrow> 'a list \<Rightarrow> 'a list option" where
  "get_range i j xs = (if i \<le> j \<and> j \<le> length xs then Some (take (j - i) (drop i xs)) else None)"

definition subslice :: "nat \<Rightarrow> nat \<Rightarrow> 'a list \<Rightarrow> 'a list" where
  "subslice i j xs = take (j - i) (drop i xs)"

section \<open>Endianness\<close>

definition from_be :: "bytes \<Rightarrow> 'a::len word" where
  "from_be bs = foldl (\<lambda>acc b. push_bit 8 acc OR ucast b) 0 bs"

definition from_le :: "bytes \<Rightarrow> 'a::len word" where
  "from_le bs = from_be (rev bs)"

definition be16 :: "bytes \<Rightarrow> u16 option" where
  "be16 b = do { x0 \<leftarrow> get_at 0 b; x1 \<leftarrow> get_at 1 b; Some (from_be [x0, x1]) }"

definition be32 :: "bytes \<Rightarrow> u32 option" where
  "be32 b = do { x0 \<leftarrow> get_at 0 b; x1 \<leftarrow> get_at 1 b; x2 \<leftarrow> get_at 2 b; x3 \<leftarrow> get_at 3 b;
     Some (from_be [x0, x1, x2, x3]) }"

text \<open>Writers, the specification side of the round trips; \<open>to_be n\<close> writes \<open>n\<close> bytes, the most significant first.\<close>

definition to_be16 :: "u16 \<Rightarrow> bytes" where
  "to_be16 w = [ucast (drop_bit 8 w), ucast w]"

definition to_be32 :: "u32 \<Rightarrow> bytes" where
  "to_be32 w = ipv4_octets w"

definition to_be :: "nat \<Rightarrow> 'a::len word \<Rightarrow> bytes" where
  "to_be n w = map (\<lambda>i. ucast (drop_bit (8 * (n - Suc i)) w)) [0..<n]"

definition to_be128 :: "u128 \<Rightarrow> bytes" where
  "to_be128 w = to_be 16 w"

lemma from_be_ipv4: "from_be [a, b, c, d] = ipv4_new a b c d"
  by (rule bit_word_eqI) (auto simp: from_be_def ipv4_new_def bit_simps)

lemma from_be16_to_be16 [simp]: "from_be (to_be16 w) = w"
  by (rule bit_word_eqI) (auto simp: from_be_def to_be16_def bit_simps)

lemma from_be32_to_be32 [simp]: "from_be (to_be32 w) = w"
proof (rule bit_word_eqI)
  fix n assume "n < LENGTH(32)"
  then consider "n < 8" | "8 \<le> n" "n < 16" | "16 \<le> n" "n < 24" | "24 \<le> n" "n < 32" by force
  then show "bit (from_be (to_be32 w) :: u32) n = bit w n"
    by cases (auto simp: from_be_def to_be32_def ipv4_octets_def bit_simps)
qed

lemma ipv4_new_octets: "ipv4_octets w = [a, b, c, d] \<Longrightarrow> ipv4_new a b c d = w"
  using from_be32_to_be32 [of w] by (simp add: to_be32_def flip: from_be_ipv4)

lemma be16_to_be16 [simp]: "be16 (to_be16 w @ bs) = Some w"
proof -
  have "be16 (to_be16 w @ bs) = Some (from_be (to_be16 w))"
    by (simp add: be16_def to_be16_def get_at_def)
  then show ?thesis by simp
qed

lemma be32_to_be32 [simp]: "be32 (to_be32 w @ bs) = Some w"
proof -
  have "be32 (to_be32 w @ bs) = Some (from_be (to_be32 w))"
    by (simp add: be32_def to_be32_def ipv4_octets_def get_at_def)
  then show ?thesis by simp
qed

lemma length_to_be_n [simp]: "length (to_be n w) = n"
  by (simp add: to_be_def)

lemma length_to_be [simp]: "length (to_be16 w) = 2" "length (to_be32 v) = 4" "length (to_be128 x) = 16"
  by (simp_all add: to_be16_def to_be32_def ipv4_octets_def to_be128_def)

lemma from_be_snoc: "from_be (bs @ [b]) = push_bit 8 (from_be bs) OR ucast b"
  by (simp add: from_be_def)

lemma from_be_to_be_prefix:
  assumes "LENGTH('a) = 8 * k"
  shows "n \<le> k \<Longrightarrow> (from_be (map (\<lambda>i. ucast (drop_bit (8 * (k - Suc i)) w)) [0..<n]) :: 'a::len word) = drop_bit (8 * (k - n)) w"
proof (induction n)
  case 0
  have "drop_bit (8 * k) w = 0" by (rule bit_word_eqI) (simp add: bit_simps assms)
  then show ?case by (simp add: from_be_def)
next
  case (Suc n)
  then have n: "n < k" and IH: "(from_be (map (\<lambda>i. ucast (drop_bit (8 * (k - Suc i)) w)) [0..<n]) :: 'a word) = drop_bit (8 * (k - n)) w"
    by simp_all
  have e: "8 * (k - n) = 8 + 8 * (k - Suc n)" using n by simp
  have "push_bit 8 (drop_bit (8 * (k - n)) w) OR ucast (ucast (drop_bit (8 * (k - Suc n)) w) :: u8)
      = drop_bit (8 * (k - Suc n)) w"
    unfolding e by (rule bit_word_eqI) (auto simp: bit_simps)
  then show ?case by (simp add: from_be_snoc IH)
qed

lemma from_be_to_be: "LENGTH('a::len) = 8 * n \<Longrightarrow> from_be (to_be n (w :: 'a word)) = w"
  using from_be_to_be_prefix [of n n w] by (simp add: to_be_def)

lemma from_be128_to_be128 [simp]: "from_be (to_be128 w) = w"
  by (simp add: to_be128_def from_be_to_be)

end
