(* ===== verification/Attribution.thy ===== *)
theory Attribution
  imports Bytes
begin

unbundle bit_operations_syntax

text \<open>
  \<^verbatim>\<open>l4scope-export/src/attribution.rs\<close>: the pod CIDRs of a node and the pod address of a flow, with
  the textual addresses of the standard library that the CIDR list is written in.
\<close>

section \<open>Textual addresses\<close>

text \<open>\<open>str::parse::<IpAddr>\<close>: a reader takes what it can from the front of the text; numbers have a
  radix, a maximal number of digits and a range, and octets have no leading zero.\<close>

type_synonym 'a parser = "string \<Rightarrow> ('a \<times> string) option"

definition hex_val :: "char \<Rightarrow> nat option" where
  "hex_val c = (let n = of_char c :: nat in
     if 48 \<le> n \<and> n \<le> 57 then Some (n - 48)
     else if 97 \<le> n \<and> n \<le> 102 then Some (n - 87)
     else if 65 \<le> n \<and> n \<le> 70 then Some (n - 55) else None)"

definition to_digit :: "nat \<Rightarrow> char \<Rightarrow> nat option" where
  "to_digit radix c = (case hex_val c of Some d \<Rightarrow> if d < radix then Some d else None | None \<Rightarrow> None)"

definition read_number :: "nat \<Rightarrow> nat \<Rightarrow> bool \<Rightarrow> nat \<Rightarrow> nat parser" where
  "read_number radix max_digits zero_prefix bound s =
     (let ds = takeWhile (\<lambda>c. to_digit radix c \<noteq> None) s;
          v = foldl (\<lambda>acc c. acc * radix + the (to_digit radix c)) 0 ds
      in if ds = [] \<or> length ds > max_digits \<or> v \<ge> bound \<or>
            (\<not> zero_prefix \<and> hd ds = CHR ''0'' \<and> length ds > 1)
         then None else Some (v, drop (length ds) s))"

definition read_given :: "char \<Rightarrow> string \<Rightarrow> string option" where
  "read_given c s = (case s of [] \<Rightarrow> None | x # xs \<Rightarrow> if x = c then Some xs else None)"

definition read_separator :: "char \<Rightarrow> nat \<Rightarrow> 'a parser \<Rightarrow> 'a parser" where
  "read_separator c i p s = (if i > 0 then Option.bind (read_given c s) p else p s)"

fun read_octets :: "nat \<Rightarrow> nat \<Rightarrow> u8 list parser" where
  "read_octets i 0 s = Some ([], s)"
| "read_octets i (Suc n) s =
     (case read_separator (CHR ''.'') i (read_number 10 3 False 256) s of
        None \<Rightarrow> None
      | Some (v, s') \<Rightarrow>
          (case read_octets (Suc i) n s' of None \<Rightarrow> None | Some (vs, s'') \<Rightarrow> Some (of_nat v # vs, s'')))"

definition read_ipv4_addr :: "u32 parser" where
  "read_ipv4_addr s = (case read_octets 0 4 s of
      Some ([a, b, c, d], r) \<Rightarrow> Some (ipv4_new a b c d, r) | _ \<Rightarrow> None)"

text \<open>At most \<open>limit\<close> groups from position \<open>i\<close>: the groups, whether they end in an IPv4 address, the
  rest.\<close>

fun read_groups :: "nat \<Rightarrow> nat \<Rightarrow> string \<Rightarrow> u16 list \<times> bool \<times> string" where
  "read_groups i 0 s = ([], False, s)"
| "read_groups i (Suc n) s =
     (case (if n > 0 then read_separator (CHR '':'') i read_ipv4_addr s else None) of
        Some (w, s') \<Rightarrow> ([ucast (drop_bit 16 w), ucast w], True, s')
      | None \<Rightarrow>
          (case read_separator (CHR '':'') i (read_number 16 4 True 65536) s of
             None \<Rightarrow> ([], False, s)
           | Some (g, s') \<Rightarrow>
               (let (gs, v4, s'') = read_groups (Suc i) n s' in (of_nat g # gs, v4, s''))))"

definition ipv6_of_segments :: "u16 list \<Rightarrow> u128" where
  "ipv6_of_segments gs = foldl (\<lambda>acc g. push_bit 16 acc OR ucast g) 0 gs"

definition read_ipv6_addr :: "u128 parser" where
  "read_ipv6_addr s =
     (let (head, head_v4, r) = read_groups 0 8 s in
      if length head = 8 then Some (ipv6_of_segments head, r)
      else if head_v4 then None
      else case Option.bind (read_given (CHR '':'') r) (read_given (CHR '':'')) of
             None \<Rightarrow> None
           | Some r1 \<Rightarrow>
               (let (tail, _, r2) = read_groups 0 (7 - length head) r1
                in Some (ipv6_of_segments (head @ replicate (8 - length head - length tail) 0 @ tail), r2)))"

definition parse_ip :: "string \<Rightarrow> ip_addr option" where
  "parse_ip s = (case read_ipv4_addr s of
      Some (w, r) \<Rightarrow> if r = [] then Some (V4 w) else None
    | None \<Rightarrow> (case read_ipv6_addr s of Some (w, r) \<Rightarrow> if r = [] then Some (V6 w) else None | None \<Rightarrow> None))"

section \<open>The matcher\<close>

type_synonym pod_matcher = "(ip_addr \<times> u32) list"

definition parse_cidr :: "string \<Rightarrow> (ip_addr \<times> u32) option" where
  "parse_cidr part0 =
     (let part = trim part0 in
      if part = [] then None
      else case split_once (CHR ''/'') part of
             None \<Rightarrow> None
           | Some (net, pfx) \<Rightarrow>
               (case (parse_ip (trim net), parse_uint 32 (trim pfx)) of
                  (Some ip, Some p) \<Rightarrow> Some (ip, of_nat p)
                | _ \<Rightarrow> None))"

definition pod_matcher_new :: "string \<Rightarrow> pod_matcher" where
  "pod_matcher_new spec = List.map_filter parse_cidr (split_on (CHR '','') spec)"

definition mask_of :: "u32 \<Rightarrow> 'a::len word" where
  "mask_of pfx = (if pfx = 0 then 0 else push_bit (LENGTH('a) - unat pfx) (- 1))"

fun cidr_contains :: "ip_addr \<Rightarrow> u32 \<Rightarrow> ip_addr \<Rightarrow> bool" where
  "cidr_contains (V4 n) pfx (V4 a) =
     (if pfx > 32 then False else n AND mask_of pfx = a AND mask_of pfx)"
| "cidr_contains (V6 n) pfx (V6 a) =
     (if pfx > 128 then False else n AND mask_of pfx = a AND mask_of pfx)"
| "cidr_contains _ pfx _ = False"

definition matcher_contains :: "pod_matcher \<Rightarrow> ip_addr \<Rightarrow> bool" where
  "matcher_contains m ip = list_ex (\<lambda>(net, pfx). cidr_contains net pfx ip) m"

definition matcher_is_empty :: "pod_matcher \<Rightarrow> bool" where
  "matcher_is_empty m \<longleftrightarrow> m = []"

definition local_pod_ip :: "pod_matcher \<Rightarrow> flow_key \<Rightarrow> string option" where
  "local_pod_ip m key =
     (if matcher_contains m (ep_ip (low key)) then Some (show_ip (ep_ip (low key)))
      else if matcher_contains m (ep_ip (high key)) then Some (show_ip (ep_ip (high key)))
      else None)"

section \<open>Prefixes\<close>

lemma mask_and_eq_iff:
  fixes a b :: "'a::len word"
  assumes "unat p \<le> LENGTH('a)"
  shows "a AND mask_of p = b AND mask_of p \<longleftrightarrow> drop_bit (LENGTH('a) - unat p) a = drop_bit (LENGTH('a) - unat p) b"
proof (cases "p = 0")
  case True
  have "drop_bit LENGTH('a) w = 0" for w :: "'a word" by (rule bit_word_eqI) (simp add: bit_simps)
  with True show ?thesis by (simp add: mask_of_def)
next
  case False
  let ?k = "LENGTH('a) - unat p"
  have m: "bit (w AND mask_of p) n \<longleftrightarrow> ?k \<le> n \<and> bit w n" for w :: "'a word" and n
    using False by (auto simp: mask_of_def bit_simps dest: bit_imp_le_length)
  show ?thesis
  proof
    assume "a AND mask_of p = b AND mask_of p"
    then have "bit a (?k + n) = bit b (?k + n)" for n using m [of a "?k + n"] m [of b "?k + n"] by simp
    then show "drop_bit ?k a = drop_bit ?k b" by (intro bit_word_eqI) (simp add: bit_simps)
  next
    assume e: "drop_bit ?k a = drop_bit ?k b"
    have "bit a n = bit b n" if "?k \<le> n" for n
      using arg_cong [OF e, of "\<lambda>w. bit w (n - ?k)"] that by (simp add: bit_simps)
    then show "a AND mask_of p = b AND mask_of p" by (intro bit_word_eqI) (auto simp: m)
  qed
qed

lemma u32_le_numeral: "(p :: u32) \<le> 32 \<longleftrightarrow> unat p \<le> 32" "(p :: u32) \<le> 128 \<longleftrightarrow> unat p \<le> 128"
  by (simp_all add: word_le_nat_alt)

lemma cidr_contains_v4:
  "cidr_contains (V4 n) p (V4 a) \<longleftrightarrow> unat p \<le> 32 \<and> drop_bit (32 - unat p) n = drop_bit (32 - unat p) a"
  using mask_and_eq_iff [of p n a] by (auto simp: u32_le_numeral simp flip: not_le)

lemma cidr_contains_v6:
  "cidr_contains (V6 n) p (V6 a) \<longleftrightarrow> unat p \<le> 128 \<and> drop_bit (128 - unat p) n = drop_bit (128 - unat p) a"
  using mask_and_eq_iff [of p n a] by (auto simp: u32_le_numeral simp flip: not_le)

lemma local_pod_ip_iff:
  "local_pod_ip m key \<noteq> None \<longleftrightarrow>
     (\<exists>(net, p) \<in> set m. cidr_contains net p (ep_ip (low key)) \<or> cidr_contains net p (ep_ip (high key)))"
  by (auto simp: local_pod_ip_def matcher_contains_def list_ex_iff)

section \<open>Properties\<close>

text \<open>C30: a flow is attributed to a pod of this node exactly when one of its addresses lies in one of the
  configured networks: agrees with the network address in the leading bits of the prefix, for both
  address families, prefixes zero and full included, and an invalid prefix matches nothing.\<close>

theorem cidr_is_prefix_match:
  "(cidr_contains (V4 n) p (V4 a) \<longleftrightarrow> unat p \<le> 32 \<and> drop_bit (32 - unat p) n = drop_bit (32 - unat p) a) \<and>
   (cidr_contains (V6 n') p (V6 a') \<longleftrightarrow> unat p \<le> 128 \<and> drop_bit (128 - unat p) n' = drop_bit (128 - unat p) a') \<and>
   (local_pod_ip m key \<noteq> None \<longleftrightarrow>
     (\<exists>net q. (net, q) \<in> set m \<and> (cidr_contains net q (ep_ip (low key)) \<or> cidr_contains net q (ep_ip (high key)))))"
  using cidr_contains_v4 [of n p a] cidr_contains_v6 [of n' p a'] local_pod_ip_iff [of m key] by auto

end
