(* ===== verification/Frame_Parse.thy ===== *)
theory Frame_Parse
  imports Bytes
begin

unbundle bit_operations_syntax

text \<open>
  \<^verbatim>\<open>l4scope-capture/src/parse.rs\<close>: link layer, IPv4 or IPv6 with extension headers, TCP or UDP,
  down to the normalized packet record. A frame that is truncated or not of interest is
  \<open>None\<close>; no access is out of bounds.
\<close>

section \<open>The parser\<close>

definition DLT_EN10MB :: u32 where "DLT_EN10MB = 1"
definition DLT_RAW :: u32 where "DLT_RAW = 101"
definition DLT_LINUX_SLL :: u32 where "DLT_LINUX_SLL = 113"
definition DLT_NULL :: u32 where "DLT_NULL = 0"

definition ETH_P_IP :: u16 where "ETH_P_IP = 0x0800"
definition ETH_P_IPV6 :: u16 where "ETH_P_IPV6 = 0x86DD"
definition ETH_P_VLAN :: u16 where "ETH_P_VLAN = 0x8100"
definition ETH_P_QINQ :: u16 where "ETH_P_QINQ = 0x88A8"

definition IPPROTO_TCP :: u8 where "IPPROTO_TCP = 6"
definition IPPROTO_UDP :: u8 where "IPPROTO_UDP = 17"

lemmas link_consts = DLT_EN10MB_def DLT_RAW_def DLT_LINUX_SLL_def DLT_NULL_def
  ETH_P_IP_def ETH_P_IPV6_def ETH_P_VLAN_def ETH_P_QINQ_def IPPROTO_TCP_def IPPROTO_UDP_def

fun vlan_walk :: "nat \<Rightarrow> bytes \<Rightarrow> u16 \<Rightarrow> nat \<Rightarrow> (u16 \<times> nat) option" where
  "vlan_walk 0 data et off = Some (et, off)"
| "vlan_walk (Suc n) data et off =
     (if et = ETH_P_VLAN \<or> et = ETH_P_QINQ then
        do { s \<leftarrow> get_from (off + 2) data; et' \<leftarrow> be16 s; vlan_walk n data et' (off + 4) }
      else Some (et, off))"

definition strip_link :: "u32 \<Rightarrow> bytes \<Rightarrow> (u16 \<times> bytes) option" where
  "strip_link linktype data =
     (if linktype = DLT_EN10MB then
        do { s \<leftarrow> get_from 12 data; et \<leftarrow> be16 s; (et', off) \<leftarrow> vlan_walk 2 data et 14;
             l3 \<leftarrow> get_from off data; Some (et', l3) }
      else if linktype = DLT_LINUX_SLL then
        do { s \<leftarrow> get_from 14 data; et \<leftarrow> be16 s; l3 \<leftarrow> get_from 16 data; Some (et, l3) }
      else if linktype = DLT_RAW then
        do { b \<leftarrow> get_at 0 data; let v = drop_bit 4 b;
             if v = 4 then Some (ETH_P_IP, data)
             else if v = 6 then Some (ETH_P_IPV6, data) else None }
      else if linktype = DLT_NULL then
        do { b \<leftarrow> get_at 4 data; let v = drop_bit 4 b; l3 \<leftarrow> get_from 4 data;
             if v = 4 then Some (ETH_P_IP, l3)
             else if v = 6 then Some (ETH_P_IPV6, l3) else None }
      else None)"

definition build :: "ip_addr \<Rightarrow> u16 \<Rightarrow> ip_addr \<Rightarrow> u16 \<Rightarrow> protocol \<Rightarrow> tcp_flags \<Rightarrow> u32 \<Rightarrow> u32 \<Rightarrow> u32 \<Rightarrow> u32
    \<Rightarrow> u8 \<Rightarrow> u64 \<Rightarrow> u32 \<Rightarrow> packet_meta" where
  "build src_ip sport dst_ip dport proto flags sq ak window plen ttl ts iface =
     (let src = \<lparr>ep_ip = src_ip, ep_port = sport\<rparr>; dst = \<lparr>ep_ip = dst_ip, ep_port = dport\<rparr>;
          (key, dir) = canonical src dst proto
      in \<lparr>ts_nanos = ts, pkt_key = key, pkt_dir = dir, pkt_proto = proto, pkt_flags = flags,
          pkt_seq = sq, pkt_ack = ak, pkt_window = window, payload_len = plen, pkt_ttl = ttl,
          pkt_iface = iface\<rparr>)"

definition finish :: "u8 \<Rightarrow> ip_addr \<Rightarrow> ip_addr \<Rightarrow> u8 \<Rightarrow> bytes \<Rightarrow> nat \<Rightarrow> u64 \<Rightarrow> u32 \<Rightarrow> packet_meta option" where
  "finish proto_num src_ip dst_ip ttl l4 ip_payload_len ts iface =
     (if proto_num = IPPROTO_TCP then
        (if length l4 < 20 then None
         else do { sport \<leftarrow> be16 l4; dport \<leftarrow> be16 (drop 2 l4); sq \<leftarrow> be32 (drop 4 l4);
                   ak \<leftarrow> be32 (drop 8 l4);
                   let data_off = unat (drop_bit 4 (l4 ! 12)) * 4;
                   if data_off < 20 then None
                   else do { window \<leftarrow> be16 (drop 14 l4);
                     Some (build src_ip sport dst_ip dport Tcp (TcpFlags (l4 ! 13 AND 0x3f)) sq ak
                       (ucast window) (of_nat (ip_payload_len - data_off)) ttl ts iface) } })
      else if proto_num = IPPROTO_UDP then
        (if length l4 < 8 then None
         else do { sport \<leftarrow> be16 l4; dport \<leftarrow> be16 (drop 2 l4); ulen \<leftarrow> be16 (drop 4 l4);
                   Some (build src_ip sport dst_ip dport Udp (TcpFlags 0) 0 0 0
                     (saturating_sub (ucast ulen) 8) ttl ts iface) })
      else None)"

definition parse_ipv4 :: "bytes \<Rightarrow> u64 \<Rightarrow> u32 \<Rightarrow> packet_meta option" where
  "parse_ipv4 d ts iface =
     (if length d < 20 then None
      else
        let ihl = unat (d ! 0 AND 0x0f) * 4 in
        if ihl < 20 \<or> length d < ihl then None
        else do {
          tl \<leftarrow> be16 (drop 2 d);
          let ip_payload = min (unat tl - ihl) (length d - ihl);
          finish (d ! 9) (V4 (ipv4_new (d ! 12) (d ! 13) (d ! 14) (d ! 15)))
            (V4 (ipv4_new (d ! 16) (d ! 17) (d ! 18) (d ! 19))) (d ! 8) (drop ihl d) ip_payload ts iface })"

fun ext_walk :: "nat \<Rightarrow> bytes \<Rightarrow> nat \<Rightarrow> u8 \<Rightarrow> nat \<Rightarrow> (u8 \<times> nat) option" where
  "ext_walk 0 d end' nxt off = Some (nxt, off)"
| "ext_walk (Suc n) d end' nxt off =
     (if nxt = IPPROTO_TCP \<or> nxt = IPPROTO_UDP then Some (nxt, off)
      else if nxt \<in> {0, 43, 60, 51} then
        do { hdr \<leftarrow> get_range off (off + 2) d;
             let nxt' = hdr ! 0;
             let len = (if nxt' = 51 then (unat (hdr ! 1) + 2) * 4 else (unat (hdr ! 1) + 1) * 8);
             let off' = off + len;
             if off' \<ge> end' then None else ext_walk n d end' nxt' off' }
      else if nxt = 44 then
        do { nxt' \<leftarrow> get_at off d;
             let off' = off + 8;
             if off' \<ge> end' then None else ext_walk n d end' nxt' off' }
      else None)"

definition parse_ipv6 :: "bytes \<Rightarrow> u64 \<Rightarrow> u32 \<Rightarrow> packet_meta option" where
  "parse_ipv6 d ts iface =
     (if length d < 40 then None
      else do {
        plen \<leftarrow> be16 (drop 4 d);
        let src = V6 (from_be (subslice 8 24 d));
        let dst = V6 (from_be (subslice 24 40 d));
        let end' = min (40 + unat plen) (length d);
        (nxt, off) \<leftarrow> ext_walk 8 d end' (d ! 6) 40;
        l4 \<leftarrow> get_from off d;
        finish nxt src dst (d ! 7) l4 (end' - off) ts iface })"

definition parse_frame :: "u32 \<Rightarrow> bytes \<Rightarrow> u64 \<Rightarrow> u32 \<Rightarrow> packet_meta option" where
  "parse_frame linktype data ts iface = do {
     (ethertype, l3) \<leftarrow> strip_link linktype data;
     if ethertype = ETH_P_IP then parse_ipv4 l3 ts iface
     else if ethertype = ETH_P_IPV6 then parse_ipv6 l3 ts iface
     else None }"

section \<open>Headers on the wire\<close>

text \<open>Writers for the headers of RFC 793, 768, 791 and 8200, as the specification of what the parser reads
  back. The fields the parser ignores are arbitrary bytes.\<close>

definition tcp_bytes :: "u16 \<Rightarrow> u16 \<Rightarrow> u32 \<Rightarrow> u32 \<Rightarrow> nat \<Rightarrow> u8 \<Rightarrow> u16 \<Rightarrow> bytes \<Rightarrow> bytes" where
  "tcp_bytes sport dport sq ak doff flags win rest =
     to_be16 sport @ to_be16 dport @ to_be32 sq @ to_be32 ak @ [push_bit 4 (of_nat doff), flags] @ to_be16 win @ rest"

definition udp_bytes :: "u16 \<Rightarrow> u16 \<Rightarrow> u16 \<Rightarrow> bytes \<Rightarrow> bytes" where
  "udp_bytes sport dport ulen rest = to_be16 sport @ to_be16 dport @ to_be16 ulen @ rest"

definition ipv4_bytes :: "nat \<Rightarrow> u8 \<Rightarrow> u16 \<Rightarrow> u16 \<Rightarrow> u16 \<Rightarrow> u8 \<Rightarrow> u8 \<Rightarrow> u16 \<Rightarrow> u32 \<Rightarrow> u32 \<Rightarrow> bytes \<Rightarrow> bytes" where
  "ipv4_bytes ihl tos totlen ident frag ttl proto csum src dst rest =
     [0x40 OR of_nat ihl, tos] @ to_be16 totlen @ to_be16 ident @ to_be16 frag @ [ttl, proto] @ to_be16 csum @
     to_be32 src @ to_be32 dst @ rest"

definition ipv6_bytes :: "u32 \<Rightarrow> u16 \<Rightarrow> u8 \<Rightarrow> u8 \<Rightarrow> u128 \<Rightarrow> u128 \<Rightarrow> bytes \<Rightarrow> bytes" where
  "ipv6_bytes vtf plen nxt hop src dst rest =
     to_be32 vtf @ to_be16 plen @ [nxt, hop] @ to_be128 src @ to_be128 dst @ rest"

definition eth_bytes :: "bytes \<Rightarrow> (u16 \<times> u16) list \<Rightarrow> u16 \<Rightarrow> bytes \<Rightarrow> bytes" where
  "eth_bytes macs tags et rest =
     macs @ concat (map (\<lambda>(tpid, tci). to_be16 tpid @ to_be16 tci) tags) @ to_be16 et @ rest"

lemma drop_to_be [simp]: "drop 2 (to_be16 a @ bs) = bs" "drop 4 (to_be32 b @ bs) = bs"
  by simp_all

lemma nibble_cases:
  assumes "(k::nat) < 16" "\<And>j. j \<in> set [0, 1, 2, 3, 4, 5, 6, 7, 8, 9, 10, 11, 12, 13, 14, 15] \<Longrightarrow> P j"
  shows "P k"
proof (rule assms(2))
  show "k \<in> set [0, 1, 2, 3, 4, 5, 6, 7, 8, 9, 10, 11, 12, 13, 14, 15]" using assms(1) by simp arith
qed

lemma high_nibble: "k < 16 \<Longrightarrow> unat (drop_bit 4 (push_bit 4 (of_nat k) :: u8)) = k"
  by (erule nibble_cases) auto

lemma low_nibble: "k < 16 \<Longrightarrow> unat ((0x40 OR of_nat k) AND 0x0f :: u8) = k"
  by (erule nibble_cases) auto

lemma finish_tcp:
  assumes "5 \<le> doff" "doff < 16" "4 \<le> length rest"
  shows "finish IPPROTO_TCP src dst ttl (tcp_bytes sport dport sq ak doff flags win rest) n ts iface =
    Some (build src sport dst dport Tcp (TcpFlags (flags AND 0x3f)) sq ak (ucast win)
      (of_nat (n - 4 * doff)) ttl ts iface)"
proof -
  let ?l4 = "tcp_bytes sport dport sq ak doff flags win rest"
  have f: "be16 ?l4 = Some sport" "be16 (drop 2 ?l4) = Some dport" "be32 (drop 4 ?l4) = Some sq"
    "be32 (drop 8 ?l4) = Some ak" "be16 (drop 14 ?l4) = Some win" "?l4 ! 13 = flags"
    "?l4 ! 12 = push_bit 4 (of_nat doff)" "\<not> length ?l4 < 20"
    using assms(3) by (simp_all add: tcp_bytes_def nth_append)
  have "unat (drop_bit 4 (?l4 ! 12)) * 4 = 4 * doff"
    unfolding f(7) high_nibble [OF assms(2)] by simp
  with f assms(1) show ?thesis by (simp add: finish_def Let_def mult.commute)
qed

lemma finish_udp:
  assumes "2 \<le> length rest"
  shows "finish IPPROTO_UDP src dst ttl (udp_bytes sport dport ulen rest) n ts iface =
    Some (build src sport dst dport Udp (TcpFlags 0) 0 0 0 (saturating_sub (ucast ulen) 8) ttl ts iface)"
  using assms by (simp add: finish_def udp_bytes_def IPPROTO_TCP_def IPPROTO_UDP_def)

lemma parse_ipv4_header:
  assumes ihl: "5 \<le> ihl" "ihl < 16" "length opts = 4 * (ihl - 5)"
  shows "parse_ipv4 (ipv4_bytes ihl tos totlen ident frag ttl proto csum src dst (opts @ l4)) ts iface =
    finish proto (V4 src) (V4 dst) ttl l4 (min (unat totlen - 4 * ihl) (length l4)) ts iface"
proof -
  let ?d = "ipv4_bytes ihl tos totlen ident frag ttl proto csum src dst (opts @ l4)"
  have nib: "unat (?d ! 0 AND 0x0f) * 4 = 4 * ihl"
    using low_nibble [OF ihl(2)] by (simp add: ipv4_bytes_def)
  have len: "length ?d = 4 * ihl + length l4" using ihl by (simp add: ipv4_bytes_def)
  let ?h = "ipv4_bytes ihl tos totlen ident frag ttl proto csum src dst opts"
  have h: "?d = ?h @ l4" "length ?h = 4 * ihl" using ihl by (simp_all add: ipv4_bytes_def)
  have dl: "drop (4 * ihl) ?d = l4" unfolding h(1) h(2) [symmetric] by simp
  have f: "be16 (drop 2 ?d) = Some totlen" "?d ! 9 = proto" "?d ! 8 = ttl"
    by (simp_all add: ipv4_bytes_def nth_append)
  have a: "ipv4_new (?d ! 12) (?d ! 13) (?d ! 14) (?d ! 15) = src"
    "ipv4_new (?d ! 16) (?d ! 17) (?d ! 18) (?d ! 19) = dst"
    using from_be32_to_be32 [of src] from_be32_to_be32 [of dst]
    by (simp_all add: ipv4_bytes_def nth_append to_be16_def to_be32_def ipv4_octets_def flip: from_be_ipv4)
  show ?thesis
    unfolding parse_ipv4_def nib Let_def len dl f a using ihl(1) by simp
qed

lemma parse_ipv6_header:
  "parse_ipv6 (ipv6_bytes vtf plen nxt hop src dst rest) ts iface = do {
     let d = ipv6_bytes vtf plen nxt hop src dst rest;
     let end' = 40 + min (unat plen) (length rest);
     (nxt', off) \<leftarrow> ext_walk 8 d end' nxt 40;
     l4 \<leftarrow> get_from off d;
     finish nxt' (V6 src) (V6 dst) hop l4 (end' - off) ts iface }"
proof -
  let ?d = "ipv6_bytes vtf plen nxt hop src dst rest"
  have len: "length ?d = 40 + length rest" by (simp add: ipv6_bytes_def)
  have f: "be16 (drop 4 ?d) = Some plen" "?d ! 6 = nxt" "?d ! 7 = hop"
    by (simp_all add: ipv6_bytes_def nth_append)
  have "subslice 8 24 ?d = to_be128 src" "subslice 24 40 ?d = to_be128 dst"
    by (simp_all add: ipv6_bytes_def subslice_def)
  then have a: "from_be (subslice 8 24 ?d) = src" "from_be (subslice 24 40 ?d) = dst" by simp_all
  have m: "min (40 + unat plen) (40 + length rest) = 40 + min (unat plen) (length rest)" by simp
  show ?thesis unfolding parse_ipv6_def f a len by (simp add: Let_def m)
qed

lemma ext_walk_direct: "nxt \<in> {IPPROTO_TCP, IPPROTO_UDP} \<Longrightarrow> ext_walk n d e nxt off = Some (nxt, off)"
  by (cases n) auto

lemma drop_ipv6_header: "drop 40 (ipv6_bytes vtf plen nxt hop src dst rest) = rest"
  by (simp add: ipv6_bytes_def)

lemma parse_ipv6_direct:
  "nxt \<in> {IPPROTO_TCP, IPPROTO_UDP} \<Longrightarrow>
   parse_ipv6 (ipv6_bytes vtf plen nxt hop src dst l4) ts iface =
     finish nxt (V6 src) (V6 dst) hop l4 (min (unat plen) (length l4)) ts iface"
  unfolding parse_ipv6_header
  by (simp add: ext_walk_direct get_from_def drop_ipv6_header) (simp add: ipv6_bytes_def)

subsection \<open>Link layers\<close>

definition tag_bytes :: "(u16 \<times> u16) list \<Rightarrow> bytes" where
  "tag_bytes tags = concat (map (\<lambda>(tpid, tci). to_be16 tpid @ to_be16 tci) tags)"

definition first_type :: "(u16 \<times> u16) list \<Rightarrow> u16 \<Rightarrow> u16" where
  "first_type tags et = (case tags of [] \<Rightarrow> et | (tpid, tci) # _ \<Rightarrow> tpid)"

lemma be16_first_type: "be16 (tag_bytes tags @ to_be16 et @ l3) = Some (first_type tags et)"
  by (cases tags) (auto simp: tag_bytes_def first_type_def)

lemma length_tag_bytes [simp]: "length (tag_bytes tags) = 4 * length tags"
  by (induction tags) (auto simp: tag_bytes_def)

lemma vlan_walk_tags:
  assumes "\<forall>(tpid, tci) \<in> set tags. tpid = ETH_P_VLAN \<or> tpid = ETH_P_QINQ"
    "et \<noteq> ETH_P_VLAN" "et \<noteq> ETH_P_QINQ" "length tags \<le> n"
  shows "vlan_walk n (pre @ tag_bytes tags @ to_be16 et @ l3) (first_type tags et) (length pre + 2) =
    Some (et, length pre + 4 * length tags + 2)"
  using assms
proof (induction tags arbitrary: pre n)
  case Nil
  then show ?case by (cases n) (simp_all add: first_type_def)
next
  case (Cons tag tags)
  obtain tpid tci where tag: "tag = (tpid, tci)" by (cases tag)
  from Cons.prems(4) obtain n' where n: "n = Suc n'" "length tags \<le> n'" by (cases n) auto
  let ?pre = "pre @ to_be16 tpid @ to_be16 tci"
  let ?data = "pre @ tag_bytes (tag # tags) @ to_be16 et @ l3"
  have data: "?data = ?pre @ tag_bytes tags @ to_be16 et @ l3" by (simp add: tag tag_bytes_def)
  have len: "length ?pre = length pre + 4" by simp
  have slice: "get_from (length pre + 2 + 2) ?data = Some (tag_bytes tags @ to_be16 et @ l3)"
    unfolding data get_from_def using drop_append [of "length ?pre" ?pre] by (simp add: len)
  have "vlan_walk n' ?data (first_type tags et) (length ?pre + 2)
      = Some (et, length ?pre + 4 * length tags + 2)"
    unfolding data using Cons.prems n(2) by (intro Cons.IH) auto
  moreover have "tpid = ETH_P_VLAN \<or> tpid = ETH_P_QINQ" using Cons.prems(1) tag by auto
  then have "vlan_walk n ?data (first_type (tag # tags) et) (length pre + 2)
      = vlan_walk n' ?data (first_type tags et) (length pre + 2 + 4)"
    unfolding n(1) vlan_walk.simps slice by (simp add: be16_first_type) (auto simp: first_type_def tag)
  ultimately show ?case by (simp add: len add_ac)
qed

lemma strip_link_eth:
  assumes "length macs = 12" "\<forall>(tpid, tci) \<in> set tags. tpid = ETH_P_VLAN \<or> tpid = ETH_P_QINQ"
    "et \<noteq> ETH_P_VLAN" "et \<noteq> ETH_P_QINQ" "length tags \<le> 2"
  shows "strip_link DLT_EN10MB (eth_bytes macs tags et l3) = Some (et, l3)"
proof -
  let ?d = "macs @ tag_bytes tags @ to_be16 et @ l3"
  have w: "vlan_walk 2 ?d (first_type tags et) 14 = Some (et, 14 + 4 * length tags)"
    using vlan_walk_tags [OF assms(2-5), of macs l3] assms(1) by (simp add: add_ac)
  have s: "get_from 12 ?d = Some (tag_bytes tags @ to_be16 et @ l3)"
    "get_from (14 + 4 * length tags) ?d = Some l3"
    using assms(1) by (simp_all add: get_from_def)
  have e: "eth_bytes macs tags et l3 = ?d" by (simp add: eth_bytes_def tag_bytes_def)
  show ?thesis unfolding e strip_link_def s by (simp add: be16_first_type w s)
qed

text \<open>The four link types the parser knows, with the header each puts before the IP packet.\<close>

datatype link = Eth bytes "(u16 \<times> u16) list" | Sll bytes | Raw | Null bytes

fun dlt :: "link \<Rightarrow> u32" where
  "dlt (Eth _ _) = DLT_EN10MB"
| "dlt (Sll _) = DLT_LINUX_SLL"
| "dlt Raw = DLT_RAW"
| "dlt (Null _) = DLT_NULL"

fun wrap :: "link \<Rightarrow> u16 \<Rightarrow> bytes \<Rightarrow> bytes" where
  "wrap (Eth macs tags) et l3 = eth_bytes macs tags et l3"
| "wrap (Sll h) et l3 = h @ to_be16 et @ l3"
| "wrap Raw et l3 = l3"
| "wrap (Null fam) et l3 = fam @ l3"

fun link_ok :: "link \<Rightarrow> bool" where
  "link_ok (Eth macs tags) \<longleftrightarrow> length macs = 12 \<and> length tags \<le> 2 \<and>
     list_all (\<lambda>(tpid, tci). tpid = ETH_P_VLAN \<or> tpid = ETH_P_QINQ) tags"
| "link_ok (Sll h) \<longleftrightarrow> length h = 14"
| "link_ok Raw \<longleftrightarrow> True"
| "link_ok (Null fam) \<longleftrightarrow> length fam = 4"

definition version_ok :: "u16 \<Rightarrow> bytes \<Rightarrow> bool" where
  "version_ok et l3 \<longleftrightarrow> l3 \<noteq> [] \<and>
     (et = ETH_P_IP \<and> drop_bit 4 (hd l3) = 4 \<or> et = ETH_P_IPV6 \<and> drop_bit 4 (hd l3) = 6)"

lemma strip_link_wrap:
  assumes "link_ok lk" "version_ok et l3"
  shows "strip_link (dlt lk) (wrap lk et l3) = Some (et, l3)"
proof (cases lk)
  case (Eth macs tags)
  with assms show ?thesis
    by (auto simp: version_ok_def list_all_iff link_consts strip_link_eth
        [unfolded link_consts])
next
  case (Sll h)
  with assms show ?thesis by (simp add: strip_link_def get_from_def DLT_LINUX_SLL_def DLT_EN10MB_def)
next
  case Raw
  with assms show ?thesis
    by (auto simp: strip_link_def version_ok_def get_at_def hd_conv_nth link_consts)
next
  case (Null fam)
  with assms show ?thesis
    by (auto simp: strip_link_def version_ok_def get_at_def get_from_def nth_append hd_conv_nth link_consts)
qed

lemma parse_frame_v4:
  assumes "link_ok lk" "version_ok ETH_P_IP l3"
  shows "parse_frame (dlt lk) (wrap lk ETH_P_IP l3) ts iface = parse_ipv4 l3 ts iface"
  unfolding parse_frame_def strip_link_wrap [OF assms] by simp

lemma parse_frame_v6:
  assumes "link_ok lk" "version_ok ETH_P_IPV6 l3"
  shows "parse_frame (dlt lk) (wrap lk ETH_P_IPV6 l3) ts iface = parse_ipv6 l3 ts iface"
  unfolding parse_frame_def strip_link_wrap [OF assms] by (simp add: link_consts)

lemma version_ipv4: "ihl < 16 \<Longrightarrow> version_ok ETH_P_IP (ipv4_bytes ihl tos totlen ident frag ttl proto csum src dst rest)"
proof -
  have "drop_bit 4 (0x40 OR of_nat k :: u8) = 4" if "k < 16" for k
    using that by (rule nibble_cases) auto
  then show "ihl < 16 \<Longrightarrow> ?thesis" by (simp add: version_ok_def ipv4_bytes_def)
qed

lemma version_ipv6:
  assumes "drop_bit 28 vtf = 6"
  shows "version_ok ETH_P_IPV6 (ipv6_bytes vtf plen nxt hop src dst rest)"
proof -
  have "drop_bit 4 (ucast (drop_bit 24 vtf) :: u8) = ucast (drop_bit 28 vtf)"
    by (rule bit_word_eqI) (auto simp: bit_simps dest: bit_imp_le_length)
  with assms show ?thesis
    by (simp add: version_ok_def ipv6_bytes_def to_be32_def ipv4_octets_def)
qed

subsection \<open>Segments\<close>

text \<open>A segment: the fixed header, checksum and urgent pointer, options up to the data offset, payload.\<close>

definition tcp_segment :: "u16 \<Rightarrow> u16 \<Rightarrow> u32 \<Rightarrow> u32 \<Rightarrow> u8 \<Rightarrow> u16 \<Rightarrow> u32 \<Rightarrow> bytes \<Rightarrow> bytes \<Rightarrow> bytes" where
  "tcp_segment sport dport sq ak flags win cu opts payload =
     tcp_bytes sport dport sq ak (5 + length opts div 4) flags win (to_be32 cu @ opts @ payload)"

definition opts_ok :: "bytes \<Rightarrow> bool" where
  "opts_ok opts \<longleftrightarrow> 4 dvd length opts \<and> length opts \<le> 40"

lemma length_tcp_segment [simp]:
  "length (tcp_segment sport dport sq ak flags win cu opts payload) = 20 + length opts + length payload"
  by (simp add: tcp_segment_def tcp_bytes_def)

lemma finish_segment:
  assumes "opts_ok opts"
  shows "finish IPPROTO_TCP src dst ttl (tcp_segment sport dport sq ak flags win cu opts payload @ pad) n ts iface =
    Some (build src sport dst dport Tcp (TcpFlags (flags AND 0x3f)) sq ak (ucast win)
      (of_nat (n - (20 + length opts))) ttl ts iface)"
proof -
  let ?doff = "5 + length opts div 4"
  have d: "5 \<le> ?doff" "?doff < 16" "4 * ?doff = 20 + length opts" using assms by (auto simp: opts_ok_def)
  have "tcp_segment sport dport sq ak flags win cu opts payload @ pad
      = tcp_bytes sport dport sq ak ?doff flags win (to_be32 cu @ opts @ payload @ pad)"
    by (simp add: tcp_segment_def tcp_bytes_def)
  then show ?thesis by (simp only: finish_tcp [OF d(1,2)] d(3) length_append length_to_be le_add1)
qed

lemma unat_of_nat_u16: "n < 2 ^ 16 \<Longrightarrow> unat (of_nat n :: u16) = n"
  by (simp add: unsigned_of_nat take_bit_nat_eq_self)

definition ipv4_packet :: "u8 \<Rightarrow> u16 \<Rightarrow> u16 \<Rightarrow> u8 \<Rightarrow> u8 \<Rightarrow> u16 \<Rightarrow> u32 \<Rightarrow> u32 \<Rightarrow> bytes \<Rightarrow> bytes \<Rightarrow> bytes" where
  "ipv4_packet tos ident frag ttl proto csum src dst opts l4 =
     ipv4_bytes (5 + length opts div 4) tos (of_nat (20 + length opts + length l4)) ident frag ttl proto csum src dst
       (opts @ l4)"

lemma parse_ipv4_packet:
  assumes "opts_ok opts" "20 + length opts + length l4 < 2 ^ 16"
  shows "parse_ipv4 (ipv4_packet tos ident frag ttl proto csum src dst opts l4 @ pad) ts iface =
    finish proto (V4 src) (V4 dst) ttl (l4 @ pad) (length l4) ts iface"
proof -
  let ?ihl = "5 + length opts div 4"
  have d: "5 \<le> ?ihl" "?ihl < 16" "4 * ?ihl = 20 + length opts" "length opts = 4 * (?ihl - 5)"
    using assms(1) by (auto simp: opts_ok_def)
  have t: "unat (of_nat (20 + length opts + length l4) :: u16) = 20 + length opts + length l4"
    by (rule unat_of_nat_u16 [OF assms(2)])
  have "ipv4_packet tos ident frag ttl proto csum src dst opts l4 @ pad
      = ipv4_bytes ?ihl tos (of_nat (20 + length opts + length l4)) ident frag ttl proto csum src dst (opts @ l4 @ pad)"
    by (simp add: ipv4_packet_def ipv4_bytes_def)
  moreover have "min (20 + length opts + length l4 - (20 + length opts)) (length (l4 @ pad)) = length l4" by simp
  ultimately show ?thesis by (simp only: parse_ipv4_header [OF d(1,2,4)] t d(3))
qed

lemma version_ipv4_packet:
  "opts_ok opts \<Longrightarrow> version_ok ETH_P_IP (ipv4_packet tos ident frag ttl proto csum src dst opts l4 @ pad)"
  using version_ipv4 [of "5 + length opts div 4"]
  by (auto simp: ipv4_packet_def opts_ok_def version_ok_def ipv4_bytes_def)

section \<open>What is read back\<close>

definition udp_datagram :: "u16 \<Rightarrow> u16 \<Rightarrow> u16 \<Rightarrow> bytes \<Rightarrow> bytes" where
  "udp_datagram sport dport csum payload = udp_bytes sport dport (of_nat (8 + length payload)) (to_be16 csum @ payload)"

lemma length_udp_datagram [simp]: "length (udp_datagram sport dport csum payload) = 8 + length payload"
  by (simp add: udp_datagram_def udp_bytes_def)

lemma finish_datagram:
  assumes "8 + length payload < 2 ^ 16"
  shows "finish IPPROTO_UDP src dst ttl (udp_datagram sport dport csum payload @ pad) n ts iface =
    Some (build src sport dst dport Udp (TcpFlags 0) 0 0 0 (of_nat (length payload)) ttl ts iface)"
proof -
  have u: "unat (of_nat (8 + length payload) :: u16) = 8 + length payload" by (rule unat_of_nat_u16 [OF assms])
  have "saturating_sub (ucast (of_nat (8 + length payload) :: u16)) 8 = (of_nat (length payload) :: u32)"
  proof (rule word_unat_eq_iff [THEN iffD2])
    have "unat (ucast (of_nat (8 + length payload) :: u16) :: u32) = 8 + length payload"
      using assms by (simp only: unsigned_ucast_eq u) (simp add: take_bit_nat_eq_self)
    moreover have "unat (of_nat (length payload) :: u32) = length payload"
      using assms by (simp add: unsigned_of_nat take_bit_nat_eq_self)
    ultimately show "unat (saturating_sub (ucast (of_nat (8 + length payload) :: u16)) 8 :: u32) = unat (of_nat (length payload) :: u32)"
      by (simp only: unat_saturating_sub) simp
  qed
  then show ?thesis
    using finish_udp [of "to_be16 csum @ payload @ pad"] by (simp add: udp_datagram_def udp_bytes_def)
qed

lemma tcp4_frame_parsed:
  assumes "link_ok lk" "opts_ok ip_opts" "opts_ok tcp_opts"
    "40 + length ip_opts + length tcp_opts + length payload < 2 ^ 16"
  shows "parse_frame (dlt lk)
      (wrap lk ETH_P_IP (ipv4_packet tos ident frag ttl IPPROTO_TCP csum src dst ip_opts
        (tcp_segment sport dport sq ak flags win cu tcp_opts payload) @ pad)) ts iface =
    Some (build (V4 src) sport (V4 dst) dport Tcp (TcpFlags (flags AND 0x3f)) sq ak (ucast win)
      (of_nat (length payload)) ttl ts iface)"
proof -
  let ?seg = "tcp_segment sport dport sq ak flags win cu tcp_opts payload"
  have len: "20 + length ip_opts + length ?seg < 2 ^ 16" using assms(4) by simp
  have "length ?seg - (20 + length tcp_opts) = length payload" by simp
  then show ?thesis
    by (simp only: parse_frame_v4 [OF assms(1) version_ipv4_packet [OF assms(2)]]
        parse_ipv4_packet [OF assms(2) len] finish_segment [OF assms(3)])
qed

text \<open>
  C11: a TCP segment or a UDP datagram in an IPv4 packet, on any of the four link types, with any VLAN
  tags, IP and TCP options and whatever padding the link adds, comes back with its addresses, ports,
  numbers, flags, window and the length of its payload.
\<close>

theorem v4_frame_roundtrip:
  assumes "link_ok lk" "opts_ok ip_opts" "opts_ok tcp_opts"
    "40 + length ip_opts + length tcp_opts + length payload < 2 ^ 16"
  shows "parse_frame (dlt lk)
      (wrap lk ETH_P_IP (ipv4_packet tos ident frag ttl IPPROTO_TCP csum src dst ip_opts
        (tcp_segment sport dport sq ak flags win cu tcp_opts payload) @ pad)) ts iface =
    Some (build (V4 src) sport (V4 dst) dport Tcp (TcpFlags (flags AND 0x3f)) sq ak (ucast win)
      (of_nat (length payload)) ttl ts iface) \<and>
    parse_frame (dlt lk)
      (wrap lk ETH_P_IP (ipv4_packet tos ident frag ttl IPPROTO_UDP csum src dst ip_opts
        (udp_datagram sport dport ucsum payload) @ pad)) ts iface =
    Some (build (V4 src) sport (V4 dst) dport Udp (TcpFlags 0) 0 0 0 (of_nat (length payload)) ttl ts iface)"
proof
  have len: "20 + length ip_opts + length (udp_datagram sport dport ucsum payload) < 2 ^ 16" "8 + length payload < 2 ^ 16"
    using assms(4) by simp_all
  show "parse_frame (dlt lk)
      (wrap lk ETH_P_IP (ipv4_packet tos ident frag ttl IPPROTO_UDP csum src dst ip_opts
        (udp_datagram sport dport ucsum payload) @ pad)) ts iface =
    Some (build (V4 src) sport (V4 dst) dport Udp (TcpFlags 0) 0 0 0 (of_nat (length payload)) ttl ts iface)"
    by (simp only: parse_frame_v4 [OF assms(1) version_ipv4_packet [OF assms(2)]]
        parse_ipv4_packet [OF assms(2) len(1)] finish_datagram [OF len(2)])
qed (rule tcp4_frame_parsed [OF assms])

theorem v4_frame_roundtrip_witness:
  "parse_frame DLT_EN10MB
      (eth_bytes (replicate 12 7) [(ETH_P_VLAN, 5)] ETH_P_IP (ipv4_packet 0 1 0 64 IPPROTO_TCP 0 0x0A000001 0x0A000002 []
        (tcp_segment 5000 80 77 99 0x18 512 0 [1, 1, 1, 0] [104, 105]) @ [0, 0])) 42 3 =
    Some (build (V4 0x0A000001) 5000 (V4 0x0A000002) 80 Tcp (TcpFlags 0x18) 77 99 512 2 64 42 3)"
proof -
  have "opts_ok [1 :: u8, 1, 1, 0]" by code_simp
  then show ?thesis
    using v4_frame_roundtrip [of "Eth (replicate 12 7) [(ETH_P_VLAN, 5)]" "[]" "[1, 1, 1, 0]" "[104, 105]"
        0 1 0 64 0 "0x0A000001" "0x0A000002" 5000 80 77 99 "0x18" 512 0 "[0, 0]" 42 3 0]
    by (simp add: opts_ok_def [of "[]"])
qed

text \<open>A chain of extension headers: each is its number and the bytes behind the number of the next one. A
  fragment header has a fixed length, the others (hop-by-hop, routing, destination options) count
  their units of eight bytes, the first not included.\<close>

definition first_hdr :: "(u8 \<times> bytes) list \<Rightarrow> u8 \<Rightarrow> u8" where
  "first_hdr hs proto = (case hs of [] \<Rightarrow> proto | (k, body) # _ \<Rightarrow> k)"

fun ext_bytes :: "(u8 \<times> bytes) list \<Rightarrow> u8 \<Rightarrow> bytes" where
  "ext_bytes [] proto = []"
| "ext_bytes ((k, body) # hs) proto = first_hdr hs proto # body @ ext_bytes hs proto"

definition ext_ok :: "u8 \<times> bytes \<Rightarrow> bool" where
  "ext_ok h \<longleftrightarrow> (case h of (k, body) \<Rightarrow>
     k = 44 \<and> length body = 7 \<or> k \<in> {0, 43, 60} \<and> body \<noteq> [] \<and> length body + 1 = (unat (hd body) + 1) * 8)"

lemma first_hdr_chain:
  assumes "proto \<in> {IPPROTO_TCP, IPPROTO_UDP}" "list_all ext_ok hs"
  shows "first_hdr hs proto \<noteq> 51"
  using assms by (cases hs) (auto simp: first_hdr_def ext_ok_def link_consts)

lemma length_ext_bytes: "length (ext_bytes hs p) = length (ext_bytes hs q)"
  by (induction hs) auto

lemma ext_walk_header:
  assumes d: "drop off d = nx # body @ rest"
    and ok: "k = 44 \<and> length body = 7 \<or> k \<in> {0, 43, 60} \<and> body \<noteq> [] \<and> length body + 1 = (unat (hd body) + 1) * 8"
    and nx: "nx \<noteq> 51" and e: "off + (1 + length body) < e"
  shows "ext_walk (Suc m) d e k off = ext_walk m d e nx (off + (1 + length body))"
proof -
  have len: "length d = off + (1 + length body + length rest)" using arg_cong [OF d, of length] by simp
  have g: "get_at off d = Some nx" using d len by (simp add: get_at_def) (metis Cons_nth_drop_Suc d length_drop list.inject
      not_add_less1 not_less drop_all list.distinct(1))
  from ok show ?thesis
  proof
    assume "k = 44 \<and> length body = 7"
    with g e show ?thesis by (simp add: link_consts Let_def)
  next
    assume k: "k \<in> {0, 43, 60} \<and> body \<noteq> [] \<and> length body + 1 = (unat (hd body) + 1) * 8"
    then obtain b bs where b: "body = b # bs" by (cases body) auto
    have r: "get_range off (off + 2) d = Some [nx, b]" using d len by (simp add: get_range_def b)
    have "(unat b + 1) * 8 = 1 + length body" using k by (simp add: b)
    with k r nx e show ?thesis by (auto simp: link_consts Let_def)
  qed
qed

lemma ext_walk_chain:
  assumes "proto \<in> {IPPROTO_TCP, IPPROTO_UDP}"
  shows "list_all ext_ok hs \<Longrightarrow> length hs \<le> n \<Longrightarrow> drop off d = ext_bytes hs proto @ rest \<Longrightarrow>
    off + length (ext_bytes hs proto) < e \<Longrightarrow>
    ext_walk n d e (first_hdr hs proto) off = Some (proto, off + length (ext_bytes hs proto))"
proof (induction hs arbitrary: n off)
  case Nil
  then show ?case using assms by (simp add: first_hdr_def ext_walk_direct)
next
  case (Cons h hs)
  obtain k body m where h: "h = (k, body)" and n: "n = Suc m" using Cons.prems(2) by (cases h; cases n) auto
  have ok: "k = 44 \<and> length body = 7 \<or> k \<in> {0, 43, 60} \<and> body \<noteq> [] \<and> length body + 1 = (unat (hd body) + 1) * 8"
    using Cons.prems(1) by (simp add: h ext_ok_def)
  have d: "drop off d = first_hdr hs proto # body @ ext_bytes hs proto @ rest" using Cons.prems(3) by (simp add: h)
  let ?off = "off + (1 + length body)"
  have "drop ?off d = drop (1 + length body) (drop off d)" by (simp only: drop_drop add.commute)
  then have d': "drop ?off d = ext_bytes hs proto @ rest" by (simp add: d)
  have nx: "first_hdr hs proto \<noteq> 51" using first_hdr_chain [OF assms] Cons.prems(1) by simp
  have step: "ext_walk n d e k off = ext_walk m d e (first_hdr hs proto) ?off"
    using ext_walk_header [OF d ok nx, of e m] Cons.prems(4) by (simp add: n h)
  show ?case
    using Cons.IH [OF _ _ d', of m] Cons.prems(1,2,4) step by (simp add: first_hdr_def h n add_ac)
qed

definition ipv6_packet :: "u32 \<Rightarrow> (u8 \<times> bytes) list \<Rightarrow> u8 \<Rightarrow> u8 \<Rightarrow> u128 \<Rightarrow> u128 \<Rightarrow> bytes \<Rightarrow> bytes" where
  "ipv6_packet vtf hs proto hop src dst l4 =
     ipv6_bytes vtf (of_nat (length (ext_bytes hs proto @ l4))) (first_hdr hs proto) hop src dst (ext_bytes hs proto @ l4)"

lemma parse_ipv6_packet:
  assumes "proto \<in> {IPPROTO_TCP, IPPROTO_UDP}" "list_all ext_ok hs" "length hs \<le> 8" "l4 \<noteq> []"
    "length (ext_bytes hs proto @ l4) < 2 ^ 16"
  shows "parse_ipv6 (ipv6_packet vtf hs proto hop src dst l4 @ pad) ts iface =
    finish proto (V6 src) (V6 dst) hop (l4 @ pad) (length l4) ts iface"
proof -
  let ?x = "ext_bytes hs proto" and ?nx = "first_hdr hs proto"
  let ?d = "ipv6_bytes vtf (of_nat (length (?x @ l4))) ?nx hop src dst ((?x @ l4) @ pad)"
  have eq: "ipv6_packet vtf hs proto hop src dst l4 @ pad = ?d" by (simp add: ipv6_packet_def ipv6_bytes_def)
  have e: "40 + min (unat (of_nat (length (?x @ l4)) :: u16)) (length ((?x @ l4) @ pad)) = 40 + length ?x + length l4"
    unfolding unat_of_nat_u16 [OF assms(5)] by simp
  have "ext_walk 8 ?d (40 + length ?x + length l4) ?nx 40 = Some (proto, 40 + length ?x)"
    using assms(4) by (intro ext_walk_chain [where rest = "l4 @ pad", OF assms(1-3)]) (simp_all add: drop_ipv6_header)
  moreover have "get_from (40 + length ?x) ?d = Some (l4 @ pad)"
  proof -
    have "drop (40 + length ?x) ?d = drop (length ?x) (drop 40 ?d)" by (simp only: drop_drop add.commute)
    then have "drop (40 + length ?x) ?d = l4 @ pad" by (simp add: drop_ipv6_header)
    then show ?thesis by (simp add: get_from_def) (simp add: ipv6_bytes_def)
  qed
  ultimately show ?thesis unfolding eq parse_ipv6_header e Let_def by simp
qed

lemma version_ipv6_packet:
  "drop_bit 28 vtf = 6 \<Longrightarrow> version_ok ETH_P_IPV6 (ipv6_packet vtf hs proto hop src dst l4 @ pad)"
  using version_ipv6 [of vtf] by (simp add: ipv6_packet_def ipv6_bytes_def)

text \<open>C24: the same for IPv6: a TCP segment or a UDP datagram behind up to eight extension headers of four
  kinds (hop-by-hop, routing, destination options, fragment), on any of the link types and with any
  padding, comes back with its fields. Authentication headers are left out: the code measures them in the
  wrong unit (\<open>ah_header_offset\<close>). A fragment header may carry any offset: the code does not look at
  it, so what follows the header of a later fragment is read as a transport header too, although the
  comment in the source says that only the first fragment has one.\<close>

theorem v6_frame_roundtrip:
  assumes "link_ok lk" "drop_bit 28 vtf = 6" "list_all ext_ok hs" "length hs \<le> 8" "opts_ok tcp_opts"
    "length (ext_bytes hs IPPROTO_TCP) + 20 + length tcp_opts + length payload < 2 ^ 16"
  shows "parse_frame (dlt lk)
      (wrap lk ETH_P_IPV6 (ipv6_packet vtf hs IPPROTO_TCP hop src dst
        (tcp_segment sport dport sq ak flags win cu tcp_opts payload) @ pad)) ts iface =
    Some (build (V6 src) sport (V6 dst) dport Tcp (TcpFlags (flags AND 0x3f)) sq ak (ucast win)
      (of_nat (length payload)) hop ts iface) \<and>
    parse_frame (dlt lk)
      (wrap lk ETH_P_IPV6 (ipv6_packet vtf hs IPPROTO_UDP hop src dst (udp_datagram sport dport csum payload) @ pad)) ts iface =
    Some (build (V6 src) sport (V6 dst) dport Udp (TcpFlags 0) 0 0 0 (of_nat (length payload)) hop ts iface)"
proof
  let ?seg = "tcp_segment sport dport sq ak flags win cu tcp_opts payload" and ?dg = "udp_datagram sport dport csum payload"
  have len: "length (ext_bytes hs IPPROTO_TCP @ ?seg) < 2 ^ 16" "length (ext_bytes hs IPPROTO_UDP @ ?dg) < 2 ^ 16"
    "8 + length payload < 2 ^ 16" using assms(6) by (simp_all add: length_ext_bytes [of hs IPPROTO_UDP IPPROTO_TCP])
  have ne: "?seg \<noteq> []" "?dg \<noteq> []" by (simp_all flip: length_greater_0_conv)
  have "length ?seg - (20 + length tcp_opts) = length payload" by simp
  then show "parse_frame (dlt lk) (wrap lk ETH_P_IPV6 (ipv6_packet vtf hs IPPROTO_TCP hop src dst ?seg @ pad)) ts iface =
      Some (build (V6 src) sport (V6 dst) dport Tcp (TcpFlags (flags AND 0x3f)) sq ak (ucast win)
        (of_nat (length payload)) hop ts iface)"
    by (simp only: parse_frame_v6 [OF assms(1) version_ipv6_packet [OF assms(2)]]
        parse_ipv6_packet [OF insertI1 assms(3,4) ne(1) len(1)] finish_segment [OF assms(5)])
  show "parse_frame (dlt lk) (wrap lk ETH_P_IPV6 (ipv6_packet vtf hs IPPROTO_UDP hop src dst ?dg @ pad)) ts iface =
      Some (build (V6 src) sport (V6 dst) dport Udp (TcpFlags 0) 0 0 0 (of_nat (length payload)) hop ts iface)"
    by (simp only: parse_frame_v6 [OF assms(1) version_ipv6_packet [OF assms(2)]]
        parse_ipv6_packet [OF insertI2 [OF insertI1] assms(3,4) ne(2) len(2)] finish_datagram [OF len(3)])
qed

theorem v6_frame_roundtrip_witness:
  "parse_frame DLT_RAW (ipv6_packet 0x60000000 [(0, [0, 1, 4, 0, 0, 0, 0]), (44, [0, 5, 0xA8, 0, 0, 0, 9])] IPPROTO_TCP 64 1 2
        (tcp_segment 5000 80 77 99 0x02 512 0 [] []) @ []) 42 3 =
    Some (build (V6 1) 5000 (V6 2) 80 Tcp (TcpFlags 0x02) 77 99 512 0 64 42 3)"
  using v6_frame_roundtrip [of Raw "0x60000000" "[(0, [0, 1, 4, 0, 0, 0, 0]), (44, [0, 5, 0xA8, 0, 0, 0, 9])]" "[]" "[]"
      64 1 2 5000 80 77 99 "0x02" 512 0 "[]" 42 3 0]
  by (simp add: opts_ok_def ext_ok_def)

section \<open>Bounds on arbitrary input\<close>

lemma bind_Some_iff: "Option.bind x f = Some y \<longleftrightarrow> (\<exists>a. x = Some a \<and> f a = Some y)"
  by (cases x) simp_all

lemma get_from_length: "get_from i xs = Some ys \<Longrightarrow> length ys + i = length xs"
  by (auto simp: get_from_def split: if_splits)

lemma strip_link_length: "strip_link lt data = Some (et, l3) \<Longrightarrow> length l3 \<le> length data"
  by (auto simp: strip_link_def bind_Some_iff Let_def dest!: get_from_length split: if_splits prod.splits)

lemma build_fields [simp]:
  "ts_nanos (build a b c d pr fl sq ak w pl ttl ts ifc) = ts"
  "pkt_iface (build a b c d pr fl sq ak w pl ttl ts ifc) = ifc"
  "pkt_proto (build a b c d pr fl sq ak w pl ttl ts ifc) = pr"
  "payload_len (build a b c d pr fl sq ak w pl ttl ts ifc) = pl"
  "pkt_flags (build a b c d pr fl sq ak w pl ttl ts ifc) = fl"
  "key_proto (pkt_key (build a b c d pr fl sq ak w pl ttl ts ifc)) = pr"
  "low (pkt_key (build a b c d pr fl sq ak w pl ttl ts ifc)) \<le> high (pkt_key (build a b c d pr fl sq ak w pl ttl ts ifc))"
  using linear [of "\<lparr>ep_ip = a, ep_port = b\<rparr>" "\<lparr>ep_ip = c, ep_port = d\<rparr>"]
  by (auto simp: build_def canonical_def Let_def)

definition meta_ok :: "u64 \<Rightarrow> u32 \<Rightarrow> nat \<Rightarrow> packet_meta \<Rightarrow> bool" where
  "meta_ok ts iface n m \<longleftrightarrow> ts_nanos m = ts \<and> pkt_iface m = iface \<and>
     low (pkt_key m) \<le> high (pkt_key m) \<and> key_proto (pkt_key m) = pkt_proto m \<and>
     (case pkt_proto m of Tcp \<Rightarrow> unat (payload_len m) \<le> n - 20 | Udp \<Rightarrow> unat (payload_len m) \<le> 65527)"

lemma unat_of_nat_le: "unat (of_nat k :: u32) \<le> k"
  by (simp add: unsigned_of_nat take_bit_nat_less_eq_self)

lemma unat_udp_payload: "unat (saturating_sub (ucast (ulen :: u16)) 8 :: u32) \<le> 65527"
proof -
  have "unat ulen < 2 ^ 16" using unsigned_less [of ulen] by simp
  moreover have "unat (ucast ulen :: u32) = unat ulen" 
    using \<open>unat ulen < 2 ^ 16\<close> by (simp add: unsigned_ucast_eq take_bit_nat_eq_self)
  ultimately show ?thesis by (simp add: sat_simps)
qed

lemma tcp_payload_le: "20 \<le> k \<Longrightarrow> unat (of_nat (n - k) :: u32) \<le> n - 20"
  using unat_of_nat_le [of "n - k"] by (meson diff_le_mono2 le_trans)

lemma finish_ok: "finish pn s d ttl l4 n ts iface = Some m \<Longrightarrow> meta_ok ts iface n m"
  by (auto simp: finish_def bind_Some_iff Let_def meta_ok_def unat_udp_payload tcp_payload_le split: if_splits)

lemma meta_ok_mono: "meta_ok ts iface n m \<Longrightarrow> n \<le> k \<Longrightarrow> meta_ok ts iface k m"
  by (auto simp: meta_ok_def split: protocol.splits)

lemma parse_ipv4_ok: "parse_ipv4 d ts iface = Some m \<Longrightarrow> meta_ok ts iface (length d - 20) m"
  by (auto simp: parse_ipv4_def bind_Some_iff Let_def dest!: finish_ok intro: meta_ok_mono split: if_splits)

lemma ext_walk_off: "ext_walk n d e nxt off = Some (nxt', off') \<Longrightarrow> off \<le> off'"
proof (induction n arbitrary: nxt off)
  case (Suc n)
  then show ?case
    by (auto simp: bind_Some_iff Let_def split: if_splits dest!: Suc.IH)
qed simp

lemma parse_ipv6_ok: "parse_ipv6 d ts iface = Some m \<Longrightarrow> meta_ok ts iface (length d - 20) m"
proof -
  assume "parse_ipv6 d ts iface = Some m"
  then obtain nxt off e l4 s t where "40 \<le> length d" "ext_walk 8 d e (d ! 6) 40 = Some (nxt, off)"
    "e \<le> length d" "finish nxt s t (d ! 7) l4 (e - off) ts iface = Some m"
    by (auto simp: parse_ipv6_def bind_Some_iff Let_def split: if_splits)
  with ext_walk_off [of 8 d e "d ! 6" 40] finish_ok show ?thesis by (fastforce intro: meta_ok_mono)
qed

lemma parse_frame_ok: "parse_frame lt data ts iface = Some m \<Longrightarrow> meta_ok ts iface (length data - 20) m"
  by (auto simp: parse_frame_def bind_Some_iff dest!: strip_link_length parse_ipv4_ok parse_ipv6_ok
      intro: meta_ok_mono split: if_splits prod.splits)

text \<open>C25: whatever bytes arrive, a packet the parser returns carries the timestamp and interface it was
  given, a canonical flow key of its own protocol, and a bounded payload length: for TCP at most the bytes
  of the frame less the 40 of two headers; for UDP at most 65527, the range of the length field of the
  datagram, which the code does not compare with the bytes it has (\<open>udp_length_believed\<close>).\<close>

theorem parse_frame_sound:
  "case parse_frame lt data ts iface of None \<Rightarrow> True | Some m \<Rightarrow>
     ts_nanos m = ts \<and> pkt_iface m = iface \<and> low (pkt_key m) \<le> high (pkt_key m) \<and> key_proto (pkt_key m) = pkt_proto m \<and>
     unat (payload_len m) \<le> (case pkt_proto m of Tcp \<Rightarrow> length data - 40 | Udp \<Rightarrow> 65527)"
  using parse_frame_ok [of lt data ts iface] by (auto simp: meta_ok_def split: option.split protocol.splits)

section \<open>Lengths that are believed\<close>

text \<open>The length in the header of a UDP datagram is reported whatever the frame holds.\<close>

lemma udp_length_believed:
  "parse_ipv4 (ipv4_bytes 5 tos totlen ident frag ttl IPPROTO_UDP csum src dst (udp_bytes sport dport ulen (to_be16 uc @ payload))) ts iface =
     Some (build (V4 src) sport (V4 dst) dport Udp (TcpFlags 0) 0 0 0 (saturating_sub (ucast ulen) 8) ttl ts iface)"
  using parse_ipv4_header [of 5 "[]"] finish_udp [of "to_be16 uc @ payload"] by (simp add: udp_bytes_def)

section \<open>Truncated captures and authentication headers\<close>

text \<open>A capture that keeps only \<open>m\<close> bytes of the payload reports \<open>m\<close> as the length of the payload, not
  the length of the segment.\<close>

lemma truncated_payload_len:
  assumes "opts_ok tcp_opts" "40 + length tcp_opts + length payload < 2 ^ 16" "m \<le> length payload"
  shows "parse_ipv4 (take (40 + length tcp_opts + m)
      (ipv4_packet tos ident frag ttl IPPROTO_TCP csum src dst []
        (tcp_segment sport dport sq ak flags win cu tcp_opts payload))) ts iface =
    Some (build (V4 src) sport (V4 dst) dport Tcp (TcpFlags (flags AND 0x3f)) sq ak (ucast win)
      (of_nat m) ttl ts iface)"
proof -
  let ?seg = "tcp_segment sport dport sq ak flags win cu tcp_opts"
  let ?tot = "20 + length (?seg payload)"
  have t: "unat (of_nat ?tot :: u16) = ?tot" using assms(2) by (intro unat_of_nat_u16) simp
  have cut: "take (40 + length tcp_opts + m) (ipv4_packet tos ident frag ttl IPPROTO_TCP csum src dst [] (?seg payload))
      = ipv4_bytes 5 tos (of_nat ?tot) ident frag ttl IPPROTO_TCP csum src dst ([] @ ?seg (take m payload) @ [])"
  proof -
    let ?h = "ipv4_bytes 5 tos (of_nat ?tot) ident frag ttl IPPROTO_TCP csum src dst (?seg [])"
    have "ipv4_packet tos ident frag ttl IPPROTO_TCP csum src dst [] (?seg payload) = ?h @ payload"
      "?h @ take m payload = ipv4_bytes 5 tos (of_nat ?tot) ident frag ttl IPPROTO_TCP csum src dst ([] @ ?seg (take m payload) @ [])"
      "length ?h = 40 + length tcp_opts"
      by (simp_all add: ipv4_packet_def ipv4_bytes_def tcp_segment_def tcp_bytes_def)
    then show ?thesis by (metis add_diff_cancel_left' le_add1 take_all take_append)
  qed
  have m: "min (?tot - 4 * 5) (length (?seg (take m payload) @ [])) - (20 + length tcp_opts) = m"
    using assms(3) by simp
  show ?thesis
    unfolding cut by (subst parse_ipv4_header) (simp_all only: t finish_segment [OF assms(1)] m, simp_all)
qed

text \<open>Behind an authentication header (protocol 51, whose length counts four-byte words) the transport
  header is looked for with the formula of the other extension headers, in units of eight bytes.\<close>

lemma ah_header_offset:
  assumes "get_range 40 42 d = Some [IPPROTO_TCP, alen]" "40 + (unat alen + 1) * 8 < end'"
  shows "ext_walk 8 d end' 51 40 = Some (IPPROTO_TCP, 40 + (unat alen + 1) * 8)"
proof -
  have "ext_walk (Suc 7) d end' 51 40 = ext_walk 7 d end' IPPROTO_TCP (40 + (unat alen + 1) * 8)"
    unfolding ext_walk.simps using assms by (simp add: link_consts Let_def)
  then show ?thesis by (simp add: ext_walk_direct)
qed

end
