(* ===== verification/Pcap_Stream.thy ===== *)
theory Pcap_Stream
  imports Frame_Parse
begin

text \<open>
  \<^verbatim>\<open>l4scope-capture/src/pcapio.rs\<close>: the streaming reader of the classic pcap format. The
  underlying \<open>Read\<close> (a file, or the pipe of a child process) is the list of what its calls will
  return: chunks of bytes, interruptions, I/O errors; the end of the list is the end of the
  stream.
\<close>

section \<open>Readers\<close>

datatype read_item = Chunk bytes | Interrupted | IoErr string

type_synonym reader = "read_item list"

datatype read_result = ReadOk bytes | ReadInterrupted | ReadErr string

text \<open>One call \<open>read(&mut buf[..n])\<close>: at most \<open>n\<close> bytes of the next chunk.\<close>

fun read_call :: "reader \<Rightarrow> nat \<Rightarrow> reader \<times> read_result" where
  "read_call [] n = ([], ReadOk [])"
| "read_call (Chunk bs # r) n = (if length bs \<le> n then (r, ReadOk bs) else (Chunk (drop n bs) # r, ReadOk (take n bs)))"
| "read_call (Interrupted # r) n = (r, ReadInterrupted)"
| "read_call (IoErr e # r) n = (r, ReadErr e)"

fun item_size :: "read_item \<Rightarrow> nat" where
  "item_size (Chunk bs) = Suc (length bs)"
| "item_size _ = 1"

definition reader_size :: "reader \<Rightarrow> nat" where
  "reader_size r = sum_list (map item_size r)"

lemma read_call_size_le: "reader_size (fst (read_call r n)) \<le> reader_size r"
  by (cases "(r, n)" rule: read_call.cases) (auto simp: reader_size_def)

lemma read_call_size: "r \<noteq> [] \<Longrightarrow> 0 < n \<Longrightarrow> reader_size (fst (read_call r n)) < reader_size r"
  by (cases "(r, n)" rule: read_call.cases) (auto simp: reader_size_def)

lemma read_call_some:
  "read_call r n = (r', ReadOk bs) \<Longrightarrow> bs \<noteq> [] \<Longrightarrow> 0 < n \<Longrightarrow> reader_size r' < reader_size r"
  "read_call r n = (r', ReadInterrupted) \<Longrightarrow> 0 < n \<Longrightarrow> reader_size r' < reader_size r"
  using read_call_size [of r n] by (cases "r = []"; simp)+

text \<open>The loop of \<open>read_full\<close> and \<open>read_full_opt\<close>: fill \<open>n\<close> more bytes after those in \<open>acc\<close>. They differ
  in what the end of the stream means.\<close>

function read_loop :: "(bytes \<Rightarrow> 'a result) \<Rightarrow> (bytes \<Rightarrow> 'a) \<Rightarrow> reader \<Rightarrow> nat \<Rightarrow> bytes \<Rightarrow> reader \<times> 'a result" where
  "read_loop eof full r n acc =
     (if length acc \<ge> n then (r, Inr (full acc))
      else case read_call r (n - length acc) of
        (r', ReadOk bs) \<Rightarrow> (if bs = [] then (r', eof acc) else read_loop eof full r' n (acc @ bs))
      | (r', ReadInterrupted) \<Rightarrow> read_loop eof full r' n acc
      | (r', ReadErr e) \<Rightarrow> (r', Inl (Io e)))"
  by pat_completeness auto

termination
  by (relation "measure (\<lambda>(eof, full, r, n, acc). reader_size r)")
    (auto intro: read_call_some [OF sym])

declare read_loop.simps [simp del]

lemma read_loop_empty: "length acc < n \<Longrightarrow> read_loop eof full [] n acc = ([], eof acc)"
  by (subst read_loop.simps) simp

definition read_full :: "reader \<Rightarrow> nat \<Rightarrow> reader \<times> bytes result" where
  "read_full r n = read_loop (\<lambda>acc. Inl (Parse ''unexpected end of pcap stream'')) id r n []"

definition read_full_opt :: "reader \<Rightarrow> nat \<Rightarrow> reader \<times> bytes option result" where
  "read_full_opt r n =
     read_loop (\<lambda>acc. if acc = [] then Inr None else Inl (Parse ''truncated pcap record header'')) Some r n []"

lemma read_loop_size: "reader_size (fst (read_loop eof full r n acc)) \<le> reader_size r"
proof (induction eof full r n acc rule: read_loop.induct)
  case (1 eof full r n acc)
  obtain r1 y where c: "read_call r (n - length acc) = (r1, y)" by (cases "read_call r (n - length acc)")
  have "reader_size r1 \<le> reader_size r" using read_call_size_le [of r "n - length acc"] by (simp add: c)
  with "1.IH" [OF _ c [symmetric]] show ?case
    by (subst read_loop.simps) (auto simp: c split: read_result.split intro: order_trans)
qed

lemma read_loop_progress:
  assumes "length acc < n" "r \<noteq> []"
  shows "reader_size (fst (read_loop eof full r n acc)) < reader_size r"
proof -
  obtain r1 y where c: "read_call r (n - length acc) = (r1, y)" by (cases "read_call r (n - length acc)")
  have "reader_size r1 < reader_size r" using read_call_size [of r "n - length acc"] assms by (simp add: c)
  then show ?thesis
    using assms(1) read_loop_size [of eof full r1 n]
    by (subst read_loop.simps) (auto simp: c split: read_result.split intro: le_less_trans)
qed

section \<open>The stream\<close>

record pcap_stream =
  ps_inner :: reader
  ps_little :: bool
  ps_nanos :: bool
  ps_linktype :: u32
  ps_iface :: u32

definition MAGIC_US_LE :: u32 where "MAGIC_US_LE = 0xa1b2c3d4"
definition MAGIC_US_BE :: u32 where "MAGIC_US_BE = 0xd4c3b2a1"
definition MAGIC_NS_LE :: u32 where "MAGIC_NS_LE = 0xa1b23c4d"
definition MAGIC_NS_BE :: u32 where "MAGIC_NS_BE = 0x4d3cb2a1"

lemmas magic_defs = MAGIC_US_LE_def MAGIC_US_BE_def MAGIC_NS_LE_def MAGIC_NS_BE_def

definition read_u32 :: "bytes \<Rightarrow> bool \<Rightarrow> u32" where
  "read_u32 b little =
     (let a = [b ! 0, b ! 1, b ! 2, b ! 3] in if little then from_le a else from_be a)"

text \<open>The formatting \<open>{:#010x}\<close>: \<open>0x\<close> and eight hexadecimal digits.\<close>

definition fmt_hex010 :: "u32 \<Rightarrow> string" where
  "fmt_hex010 w = (let s = show_hex (unat w) in ''0x'' @ replicate (8 - length s) (CHR ''0'') @ s)"

definition pcap_new :: "reader \<Rightarrow> u32 \<Rightarrow> pcap_stream result" where
  "pcap_new inner iface = (case read_full inner 24 of
      (r, Inl e) \<Rightarrow> Inl e
    | (r, Inr hdr) \<Rightarrow>
        (let magic = from_le [hdr ! 0, hdr ! 1, hdr ! 2, hdr ! 3];
             mk = (\<lambda>little nanos. Inr \<lparr>ps_inner = r, ps_little = little, ps_nanos = nanos,
                     ps_linktype = read_u32 (subslice 20 24 hdr) little, ps_iface = iface\<rparr>)
         in if magic = MAGIC_US_LE then mk True False
            else if magic = MAGIC_US_BE then mk False False
            else if magic = MAGIC_NS_LE then mk True True
            else if magic = MAGIC_NS_BE then mk False True
            else Inl (Parse (''not a pcap stream (magic '' @ fmt_hex010 magic @ '')''))))"

definition record_ts :: "bool \<Rightarrow> u64 \<Rightarrow> u64 \<Rightarrow> u64" where
  "record_ts nanos ts_sec ts_frac =
     saturating_add (saturating_mul ts_sec 1000000000) (if nanos then ts_frac else ts_frac * 1000)"

text \<open>One turn of the loop of \<open>next_packet\<close>: the record header and the captured bytes.\<close>

definition read_record :: "pcap_stream \<Rightarrow> pcap_stream \<times> (u64 \<times> bytes) option result" where
  "read_record s = (case read_full_opt (ps_inner s) 16 of
      (r, Inl e) \<Rightarrow> (s\<lparr>ps_inner := r\<rparr>, Inl e)
    | (r, Inr None) \<Rightarrow> (s\<lparr>ps_inner := r\<rparr>, Inr None)
    | (r, Inr (Some rec)) \<Rightarrow>
        (let ts_sec = ucast (read_u32 (subslice 0 4 rec) (ps_little s));
             ts_frac = ucast (read_u32 (subslice 4 8 rec) (ps_little s));
             incl_len = unat (read_u32 (subslice 8 12 rec) (ps_little s))
         in if incl_len > 262144 then
              (s\<lparr>ps_inner := r\<rparr>, Inl (Parse (''implausible record length '' @ show_nat incl_len)))
            else case read_full r incl_len of
              (r', Inl e) \<Rightarrow> (s\<lparr>ps_inner := r'\<rparr>, Inl e)
            | (r', Inr buf) \<Rightarrow>
                (s\<lparr>ps_inner := r'\<rparr>, Inr (Some (record_ts (ps_nanos s) ts_sec ts_frac, buf)))))"

lemma read_full_size: "reader_size (fst (read_full r n)) \<le> reader_size r"
  unfolding read_full_def by (rule read_loop_size)

lemma read_full_opt_size: "reader_size (fst (read_full_opt r n)) \<le> reader_size r"
  unfolding read_full_opt_def by (rule read_loop_size)

lemma read_full_opt_progress:
  "snd (read_full_opt r n) = Inr (Some b) \<Longrightarrow> 0 < n \<Longrightarrow> reader_size (fst (read_full_opt r n)) < reader_size r"
proof (cases "r = []")
  case True
  moreover assume "snd (read_full_opt r n) = Inr (Some b)" "0 < n"
  ultimately show ?thesis by (simp add: read_full_opt_def read_loop_empty)
next
  case False
  assume "0 < n"
  with False show ?thesis unfolding read_full_opt_def by (intro read_loop_progress) auto
qed

lemma read_record_progress:
  assumes "read_record s = (s', Inr (Some x))"
  shows "reader_size (ps_inner s') < reader_size (ps_inner s)"
proof -
  obtain r y where o: "read_full_opt (ps_inner s) 16 = (r, y)" by (cases "read_full_opt (ps_inner s) 16")
  with assms obtain rec where y: "y = Inr (Some rec)"
    by (cases y) (auto simp: read_record_def split: option.splits)
  define k where "k = unat (read_u32 (subslice 8 12 rec) (ps_little s))"
  obtain r' z where f: "read_full r k = (r', z)" by (cases "read_full r k")
  have "ps_inner s' = r'"
    using assms by (auto simp: read_record_def o y f k_def [symmetric] Let_def split: if_splits sum.splits)
  with read_full_opt_progress [of "ps_inner s" 16 rec] read_full_size [of r k] show ?thesis
    by (simp add: o y f)
qed

function pcap_next :: "pcap_stream \<Rightarrow> pcap_stream \<times> packet_meta option result" where
  "pcap_next s = (case read_record s of
      (s', Inl e) \<Rightarrow> (s', Inl e)
    | (s', Inr None) \<Rightarrow> (s', Inr None)
    | (s', Inr (Some (ts, buf))) \<Rightarrow>
        (case parse_frame (ps_linktype s) buf ts (ps_iface s) of
           Some pkt \<Rightarrow> (s', Inr (Some pkt))
         | None \<Rightarrow> pcap_next s'))"
  by pat_completeness auto

termination
  by (relation "measure (\<lambda>s. reader_size (ps_inner s))") (auto dest: read_record_progress [OF sym])

declare pcap_next.simps [simp del]

end
