(* ===== verification/Pcap_Spec.thy ===== *)
theory Pcap_Spec
  imports Pcap_Stream
begin

text \<open>
  What the streaming reader promises: on a stream without I/O errors the packets it yields are a
  function of the bytes alone, however they arrive, and a capture that was written is read back.
\<close>

section \<open>Clean readers\<close>

fun item_bytes :: "read_item \<Rightarrow> bytes" where
  "item_bytes (Chunk bs) = bs"
| "item_bytes _ = []"

definition bytes_of :: "reader \<Rightarrow> bytes" where
  "bytes_of r = concat (map item_bytes r)"

fun item_clean :: "read_item \<Rightarrow> bool" where
  "item_clean (Chunk bs) = (bs \<noteq> [])"
| "item_clean Interrupted = True"
| "item_clean (IoErr _) = False"

definition clean :: "reader \<Rightarrow> bool" where
  "clean r = list_all item_clean r"

lemma bytes_of_simps [simp]:
  "bytes_of [] = []" "bytes_of (Chunk bs # r) = bs @ bytes_of r"
  "bytes_of (Interrupted # r) = bytes_of r" "bytes_of (IoErr e # r) = bytes_of r"
  by (simp_all add: bytes_of_def)

lemma clean_simps [simp]:
  "clean []" "clean (Chunk bs # r) \<longleftrightarrow> bs \<noteq> [] \<and> clean r" "clean (Interrupted # r) \<longleftrightarrow> clean r" "\<not> clean (IoErr e # r)"
  by (simp_all add: clean_def)

lemma read_call_clean:
  assumes "clean r" "0 < n"
  shows "(\<exists>r' bs. read_call r n = (r', ReadOk bs) \<and> clean r' \<and> bytes_of r = bs @ bytes_of r' \<and> length bs \<le> n \<and>
      (bs = [] \<longrightarrow> bytes_of r = [])) \<or>
    (\<exists>r'. read_call r n = (r', ReadInterrupted) \<and> clean r' \<and> bytes_of r' = bytes_of r)"
  using assms by (cases "(r, n)" rule: read_call.cases) auto

definition read_spec :: "(bytes \<Rightarrow> 'a result) \<Rightarrow> (bytes \<Rightarrow> 'a) \<Rightarrow> nat \<Rightarrow> bytes \<Rightarrow> bytes \<times> 'a result" where
  "read_spec eof full n bs = (if n \<le> length bs then (drop n bs, Inr (full (take n bs))) else ([], eof bs))"

lemma read_loop_clean:
  "clean r \<Longrightarrow> length acc \<le> n \<Longrightarrow>
   clean (fst (read_loop eof full r n acc)) \<and>
   (bytes_of (fst (read_loop eof full r n acc)), snd (read_loop eof full r n acc)) = read_spec eof full n (acc @ bytes_of r)"
proof (induction eof full r n acc rule: read_loop.induct)
  case (1 eof full r n acc)
  show ?case
  proof (cases "length acc = n")
    case True
    with "1.prems" show ?thesis by (subst (1 2 3) read_loop.simps) (simp add: read_spec_def)
  next
    case False
    with "1.prems" have lt: "length acc < n" "\<not> n \<le> length acc" by simp_all
    from read_call_clean [OF "1.prems"(1), of "n - length acc"] lt consider
      r' bs where "read_call r (n - length acc) = (r', ReadOk bs)" "clean r'" "bytes_of r = bs @ bytes_of r'"
        "length bs \<le> n - length acc" "bs = [] \<longrightarrow> bytes_of r = []"
      | r' where "read_call r (n - length acc) = (r', ReadInterrupted)" "clean r'" "bytes_of r' = bytes_of r" by auto
    then show ?thesis
    proof cases
      case (1 r' bs)
      show ?thesis
      proof (cases "bs = []")
        case True
        with 1 lt show ?thesis by (subst (1 2 3) read_loop.simps) (auto simp: read_spec_def)
      next
        case False
        with "1.IH"(1) [OF lt(2) 1(1) [symmetric] refl False 1(2)] 1 lt show ?thesis
          by (subst (1 2 3) read_loop.simps) simp
      qed
    next
      case (2 r')
      with "1.IH"(2) [OF lt(2) 2(1) [symmetric] refl 2(2) "1.prems"(2)] lt show ?thesis
        by (subst (1 2 3) read_loop.simps) simp
    qed
  qed
qed

lemma read_full_clean:
  assumes "clean r" "read_full r n = (r', x)"
  shows "clean r'" "bytes_of r' = drop n (bytes_of r)"
    "x = (if n \<le> length (bytes_of r) then Inr (take n (bytes_of r)) else Inl (Parse ''unexpected end of pcap stream''))"
  using read_loop_clean [OF assms(1), of "[]" n "\<lambda>acc. Inl (Parse ''unexpected end of pcap stream'')" id]
    assms(2) [unfolded read_full_def]
  by (auto simp: read_spec_def split: if_splits)

lemma read_full_opt_clean:
  assumes "clean r" "read_full_opt r n = (r', x)"
  shows "clean r'" "bytes_of r' = drop n (bytes_of r)"
    "x = (if n \<le> length (bytes_of r) then Inr (Some (take n (bytes_of r)))
          else if bytes_of r = [] then Inr None else Inl (Parse ''truncated pcap record header''))"
  using read_loop_clean [OF assms(1), of "[]" n
      "\<lambda>acc. if acc = [] then Inr None else Inl (Parse ''truncated pcap record header'')" Some]
    assms(2) [unfolded read_full_opt_def]
  by (auto simp: read_spec_def split: if_splits)

section \<open>The abstract reader\<close>

text \<open>The body of a capture as a list of bytes, decoded record by record: the packets of interest,
  and the error that ends the stream if one does.\<close>

record pcap_format =
  pf_little :: bool
  pf_nanos :: bool
  pf_linktype :: u32
  pf_iface :: u32

definition incl_len :: "pcap_format \<Rightarrow> bytes \<Rightarrow> nat" where
  "incl_len pf h = unat (read_u32 (subslice 8 12 h) (pf_little pf))"

definition header_ts :: "pcap_format \<Rightarrow> bytes \<Rightarrow> u64" where
  "header_ts pf h = record_ts (pf_nanos pf) (ucast (read_u32 (subslice 0 4 h) (pf_little pf)))
     (ucast (read_u32 (subslice 4 8 h) (pf_little pf)))"

definition spec_record :: "pcap_format \<Rightarrow> bytes \<Rightarrow> bytes \<times> (u64 \<times> bytes) option result" where
  "spec_record pf bs =
     (if bs = [] then ([], Inr None)
      else if length bs < 16 then ([], Inl (Parse ''truncated pcap record header''))
      else
        let h = take 16 bs; body = drop 16 bs; n = incl_len pf h in
        if n > 262144 then (body, Inl (Parse (''implausible record length '' @ show_nat n)))
        else if length body < n then ([], Inl (Parse ''unexpected end of pcap stream''))
        else (drop n body, Inr (Some (header_ts pf h, take n body))))"

lemma spec_record_shorter: "spec_record pf bs = (bs', Inr (Some x)) \<Longrightarrow> length bs' < length bs"
  by (auto simp: spec_record_def Let_def split: if_splits)

function decode :: "pcap_format \<Rightarrow> bytes \<Rightarrow> packet_meta list \<times> error option" where
  "decode pf bs = (case spec_record pf bs of
      (_, Inl e) \<Rightarrow> ([], Some e)
    | (_, Inr None) \<Rightarrow> ([], None)
    | (bs', Inr (Some (ts, frame))) \<Rightarrow>
        (let (ps, e) = decode pf bs'
         in (case parse_frame (pf_linktype pf) frame ts (pf_iface pf) of Some p \<Rightarrow> p # ps | None \<Rightarrow> ps, e)))"
  by pat_completeness auto

termination
  by (relation "measure (\<lambda>(pf, bs). length bs)") (auto dest: spec_record_shorter [OF sym])

declare decode.simps [simp del]

definition format_of :: "pcap_stream \<Rightarrow> pcap_format" where
  "format_of s = \<lparr>pf_little = ps_little s, pf_nanos = ps_nanos s, pf_linktype = ps_linktype s, pf_iface = ps_iface s\<rparr>"

lemma format_of_inner [simp]: "format_of (s\<lparr>ps_inner := r\<rparr>) = format_of s"
  by (simp add: format_of_def)

lemma format_of_fields [simp]:
  "pf_linktype (format_of s) = ps_linktype s" "pf_iface (format_of s) = ps_iface s"
  by (simp_all add: format_of_def)

lemma read_record_clean:
  assumes "clean (ps_inner s)"
  shows "clean (ps_inner (fst (read_record s)))" "format_of (fst (read_record s)) = format_of s"
    "(bytes_of (ps_inner (fst (read_record s))), snd (read_record s)) = spec_record (format_of s) (bytes_of (ps_inner s))"
proof -
  let ?bs = "bytes_of (ps_inner s)"
  obtain r x where o: "read_full_opt (ps_inner s) 16 = (r, x)" by (cases "read_full_opt (ps_inner s) 16")
  note oc = read_full_opt_clean [OF assms o]
  let ?h = "take 16 ?bs"
  define n where "n = incl_len (format_of s) ?h"
  obtain r' y where f: "read_full r n = (r', y)" by (cases "read_full r n")
  note fc = read_full_clean [OF oc(1) f]
  have n: "unat (read_u32 (subslice 8 12 ?h) (ps_little s)) = n" by (simp add: n_def incl_len_def format_of_def)
  have ts: "record_ts (ps_nanos s) (ucast (read_u32 (subslice 0 4 ?h) (ps_little s)))
      (ucast (read_u32 (subslice 4 8 ?h) (ps_little s))) = header_ts (format_of s) ?h"
    by (simp add: header_ts_def format_of_def)
  consider "?bs = []" | "?bs \<noteq> []" "length ?bs < 16" | "16 \<le> length ?bs" "n > 262144"
    | "16 \<le> length ?bs" "\<not> n > 262144" by force
  then have "clean (ps_inner (fst (read_record s))) \<and> format_of (fst (read_record s)) = format_of s \<and>
    (bytes_of (ps_inner (fst (read_record s))), snd (read_record s)) = spec_record (format_of s) ?bs"
    using oc fc by cases (auto simp: read_record_def o spec_record_def n ts f Let_def simp flip: n_def)
  then show "clean (ps_inner (fst (read_record s)))" "format_of (fst (read_record s)) = format_of s"
    "(bytes_of (ps_inner (fst (read_record s))), snd (read_record s)) = spec_record (format_of s) ?bs" by simp_all
qed

section \<open>Draining a stream\<close>

lemma pcap_next_progress:
  "pcap_next s = (s', Inr (Some p)) \<Longrightarrow> reader_size (ps_inner s') < reader_size (ps_inner s)"
proof (induction s arbitrary: s' rule: pcap_next.induct)
  case (1 s)
  obtain s1 x where r: "read_record s = (s1, x)" by (cases "read_record s")
  with "1.prems" obtain ts buf where x: "x = Inr (Some (ts, buf))"
    by (subst (asm) pcap_next.simps) (auto split: sum.splits option.splits)
  have lt: "reader_size (ps_inner s1) < reader_size (ps_inner s)" using r x by (intro read_record_progress) simp
  show ?case
  proof (cases "parse_frame (ps_linktype s) buf ts (ps_iface s)")
    case None
    with "1.prems" r x have "pcap_next s1 = (s', Inr (Some p))" by (subst (asm) pcap_next.simps) simp
    from "1.IH" [OF r [symmetric] x refl refl None this] lt show ?thesis by simp
  next
    case (Some q)
    with "1.prems" r x lt show ?thesis by (subst (asm) pcap_next.simps) simp
  qed
qed

function drain :: "pcap_stream \<Rightarrow> packet_meta list \<times> error option" where
  "drain s = (case pcap_next s of
      (_, Inl e) \<Rightarrow> ([], Some e)
    | (_, Inr None) \<Rightarrow> ([], None)
    | (s', Inr (Some p)) \<Rightarrow> (let (ps, e) = drain s' in (p # ps, e)))"
  by pat_completeness auto

termination
  by (relation "measure (\<lambda>s. reader_size (ps_inner s))") (auto dest: pcap_next_progress [OF sym])

declare drain.simps [simp del]

lemma drain_record:
  "drain s = (case read_record s of
      (_, Inl e) \<Rightarrow> ([], Some e)
    | (_, Inr None) \<Rightarrow> ([], None)
    | (s', Inr (Some (ts, frame))) \<Rightarrow>
        (let (ps, e) = drain s'
         in (case parse_frame (ps_linktype s) frame ts (ps_iface s) of Some p \<Rightarrow> p # ps | None \<Rightarrow> ps, e)))"
proof -
  obtain s1 x where r: "read_record s = (s1, x)" by (cases "read_record s")
  have skip: "drain s = drain s1" if "pcap_next s = pcap_next s1"
    using that by (subst (1 2) drain.simps) simp
  consider e where "x = Inl e" | "x = Inr None" | ts frame where "x = Inr (Some (ts, frame))"
    by (cases x) (metis option.exhaust surj_pair)+
  then show ?thesis
  proof cases
    case (3 ts frame)
    show ?thesis
    proof (cases "parse_frame (ps_linktype s) frame ts (ps_iface s)")
      case None
      with r 3 have "pcap_next s = pcap_next s1" by (subst pcap_next.simps) simp
      with r 3 None skip show ?thesis by simp
    next
      case (Some p)
      with r 3 have "pcap_next s = (s1, Inr (Some p))" by (subst pcap_next.simps) simp
      with r 3 Some show ?thesis by (subst drain.simps) simp
    qed
  qed (use r in \<open>subst drain.simps, subst pcap_next.simps, simp\<close>)+
qed

lemma drain_decode:
  "clean (ps_inner s) \<Longrightarrow> drain s = decode (format_of s) (bytes_of (ps_inner s))"
proof (induction "length (bytes_of (ps_inner s))" arbitrary: s rule: less_induct)
  case less
  let ?bs = "bytes_of (ps_inner s)"
  obtain s1 x where r: "read_record s = (s1, x)" by (cases "read_record s")
  note rc = read_record_clean [OF less.prems]
  have sp: "spec_record (format_of s) ?bs = (bytes_of (ps_inner s1), x)" using rc(3) by (simp add: r)
  have IH: "drain s1 = decode (format_of s) (bytes_of (ps_inner s1))" if "x = Inr (Some y)" for y
    using less.hyps [of s1] rc(1,2) spec_record_shorter [OF sp [unfolded that]] by (simp add: r)
  show ?case
    by (subst drain_record, subst decode.simps)
      (auto simp: r sp IH split: sum.split option.split)
qed

section \<open>Writing captures\<close>

definition to_u32 :: "bool \<Rightarrow> u32 \<Rightarrow> bytes" where
  "to_u32 little w = (if little then rev (to_be32 w) else to_be32 w)"

lemma length_to_u32 [simp]: "length (to_u32 l w) = 4"
  by (simp add: to_u32_def)

lemma list4: "length a = 4 \<Longrightarrow> [a ! 0, a ! 1, a ! 2, a ! 3] = a"
  by (simp add: list_eq_iff_nth_eq nth_Cons' less_Suc_eq numeral_eq_Suc)

lemma read_u32_to_u32 [simp]: "read_u32 (to_u32 l w) l = w"
proof -
  have "read_u32 (to_u32 l w) l = (if l then from_le (to_u32 l w) else from_be (to_u32 l w))"
    by (simp only: read_u32_def Let_def list4 length_to_u32)
  then show ?thesis by (simp add: to_u32_def from_le_def)
qed

record pcap_rec =
  rec_sec :: u32
  rec_frac :: u32
  rec_orig :: u32
  rec_frame :: bytes

definition rec_bytes :: "pcap_format \<Rightarrow> pcap_rec \<Rightarrow> bytes" where
  "rec_bytes pf r = to_u32 (pf_little pf) (rec_sec r) @ to_u32 (pf_little pf) (rec_frac r) @
     to_u32 (pf_little pf) (of_nat (length (rec_frame r))) @ to_u32 (pf_little pf) (rec_orig r) @ rec_frame r"

definition rec_ts :: "pcap_format \<Rightarrow> pcap_rec \<Rightarrow> u64" where
  "rec_ts pf r = record_ts (pf_nanos pf) (ucast (rec_sec r)) (ucast (rec_frac r))"

definition rec_packet :: "pcap_format \<Rightarrow> pcap_rec \<Rightarrow> packet_meta option" where
  "rec_packet pf r = parse_frame (pf_linktype pf) (rec_frame r) (rec_ts pf r) (pf_iface pf)"

lemma spec_record_split:
  assumes "length h = 16" "incl_len pf h = length frame" "length frame \<le> 262144"
  shows "spec_record pf (h @ frame @ rest) = (rest, Inr (Some (header_ts pf h, frame)))"
proof -
  from assms(1) have "h \<noteq> []" by auto
  with assms show ?thesis by (simp add: spec_record_def Let_def)
qed

lemma spec_record_bytes:
  assumes "length (rec_frame r) \<le> 262144"
  shows "spec_record pf (rec_bytes pf r @ rest) = (rest, Inr (Some (rec_ts pf r, rec_frame r)))"
proof -
  let ?l = "pf_little pf" and ?n = "length (rec_frame r)"
  let ?h = "to_u32 ?l (rec_sec r) @ to_u32 ?l (rec_frac r) @ to_u32 ?l (of_nat ?n) @ to_u32 ?l (rec_orig r)"
  have "subslice 0 4 ?h = to_u32 ?l (rec_sec r)" "subslice 4 8 ?h = to_u32 ?l (rec_frac r)"
    "subslice 8 12 ?h = to_u32 ?l (of_nat ?n)" by (simp_all add: subslice_def)
  moreover have "unat (of_nat ?n :: u32) = ?n" using assms by (simp add: unsigned_of_nat take_bit_nat_eq_self)
  ultimately have h: "incl_len pf ?h = ?n" "header_ts pf ?h = rec_ts pf r"
    by (simp_all add: incl_len_def header_ts_def rec_ts_def)
  have "rec_bytes pf r @ rest = ?h @ rec_frame r @ rest" by (simp add: rec_bytes_def)
  moreover have "length ?h = 16" by simp
  ultimately show ?thesis using spec_record_split [OF _ h(1) assms, of rest] h(2) by simp
qed

lemma decode_records:
  "list_all (\<lambda>r. length (rec_frame r) \<le> 262144) rs \<Longrightarrow>
   decode pf (concat (map (rec_bytes pf) rs)) = (List.map_filter (rec_packet pf) rs, None)"
proof (induction rs)
  case Nil
  then show ?case by (subst decode.simps) (simp add: spec_record_def map_filter_simps)
next
  case (Cons r rs)
  then show ?case
    by (subst decode.simps)
      (simp add: spec_record_bytes map_filter_simps rec_packet_def [symmetric] split: option.split)
qed

definition global_header :: "pcap_format \<Rightarrow> bytes \<Rightarrow> bytes" where
  "global_header pf misc =
     to_u32 (pf_little pf) (if pf_nanos pf then MAGIC_NS_LE else MAGIC_US_LE) @ misc @
     to_u32 (pf_little pf) (pf_linktype pf)"

lemma from_le_word: "from_le (to_u32 True w) = w"
  by (simp add: from_le_def to_u32_def)

lemma from_le_magic:
  "from_le (to_u32 False MAGIC_US_LE) = MAGIC_US_BE" "from_le (to_u32 False MAGIC_NS_LE) = MAGIC_NS_BE"
  by (simp_all add: from_le_def to_u32_def to_be32_def ipv4_octets_def from_be_def magic_defs)

lemma header_magic:
  "from_le (to_u32 (pf_little pf) (if pf_nanos pf then MAGIC_NS_LE else MAGIC_US_LE)) =
     (if pf_little pf then if pf_nanos pf then MAGIC_NS_LE else MAGIC_US_LE
      else if pf_nanos pf then MAGIC_NS_BE else MAGIC_US_BE)"
  by (cases "pf_little pf"; cases "pf_nanos pf") (simp_all add: from_le_word from_le_magic)

lemma pcap_new_header:
  assumes "clean r" "bytes_of r = global_header pf misc @ body" "length misc = 16"
  shows "\<exists>s. pcap_new r (pf_iface pf) = Inr s \<and> clean (ps_inner s) \<and> bytes_of (ps_inner s) = body \<and> format_of s = pf"
proof -
  let ?m = "to_u32 (pf_little pf) (if pf_nanos pf then MAGIC_NS_LE else MAGIC_US_LE)"
  let ?h = "global_header pf misc"
  obtain r' x where f: "read_full r 24 = (r', x)" by (cases "read_full r 24")
  have len: "length ?h = 24" using assms(3) by (simp add: global_header_def)
  have fc: "clean r'" "bytes_of r' = body" "x = Inr ?h"
    using read_full_clean [OF assms(1) f] assms(2) len by simp_all
  have "[?h ! 0, ?h ! 1, ?h ! 2, ?h ! 3] = [?m ! 0, ?m ! 1, ?m ! 2, ?m ! 3]"
    by (simp add: global_header_def nth_append)
  also have "\<dots> = ?m" by (rule list4) simp
  finally have mg: "[?h ! 0, ?h ! 1, ?h ! 2, ?h ! 3] = ?m" .
  have lt: "subslice 20 24 ?h = to_u32 (pf_little pf) (pf_linktype pf)"
    using assms(3) by (simp add: global_header_def subslice_def)
  let ?s = "\<lparr>ps_inner = r', ps_little = pf_little pf, ps_nanos = pf_nanos pf, ps_linktype = pf_linktype pf,
    ps_iface = pf_iface pf\<rparr>"
  have "pcap_new r (pf_iface pf) = Inr ?s"
    unfolding pcap_new_def f fc(3) prod.case sum.case Let_def mg header_magic lt
    by (cases "pf_little pf"; cases "pf_nanos pf"; simp add: magic_defs; metis read_u32_to_u32)
  moreover have "format_of ?s = pf" by (simp add: format_of_def)
  ultimately show ?thesis using fc by auto
qed

text \<open>A written capture is read back, in whatever pieces it arrives: the packets of its frames in
  their order, then the clean end.\<close>

lemma pcap_roundtrip:
  assumes "clean r" "length misc = 16" "list_all (\<lambda>x. length (rec_frame x) \<le> 262144) rs"
    "bytes_of r = global_header pf misc @ concat (map (rec_bytes pf) rs)"
  shows "\<exists>s. pcap_new r (pf_iface pf) = Inr s \<and> drain s = (List.map_filter (rec_packet pf) rs, None)"
proof -
  from pcap_new_header [OF assms(1,4,2)] obtain s where
    s: "pcap_new r (pf_iface pf) = Inr s" "clean (ps_inner s)"
      "bytes_of (ps_inner s) = concat (map (rec_bytes pf) rs)" "format_of s = pf" by blast
  with drain_decode [OF s(2)] decode_records [OF assms(3)] show ?thesis by simp
qed

section \<open>Properties\<close>

text \<open>C12: a written capture is read back: in either byte order and either timestamp resolution, and in
  whatever pieces the stream delivers it, the reader yields the packets of its frames in their order
  and then the clean end of the stream.\<close>

theorem written_capture_read_back:
  assumes "clean r" "length misc = 16" "list_all (\<lambda>x. length (rec_frame x) \<le> 262144) rs"
    "bytes_of r = global_header pf misc @ concat (map (rec_bytes pf) rs)"
  shows "\<exists>s. pcap_new r (pf_iface pf) = Inr s \<and> drain s = (List.map_filter (rec_packet pf) rs, None)"
  by (rule pcap_roundtrip [OF assms])

definition example_format :: pcap_format where
  "example_format = \<lparr>pf_little = False, pf_nanos = True, pf_linktype = DLT_RAW, pf_iface = 3\<rparr>"

definition example_capture :: bytes where
  "example_capture = global_header example_format (replicate 16 0) @
     concat (map (rec_bytes example_format) [\<lparr>rec_sec = 5, rec_frac = 7, rec_orig = 3, rec_frame = [1, 2, 3]\<rparr>])"

theorem written_capture_read_back_witness:
  "\<exists>s. pcap_new [Chunk (take 30 example_capture), Interrupted, Chunk (drop 30 example_capture)] 3 = Inr s \<and>
     drain s = (List.map_filter (rec_packet example_format) [\<lparr>rec_sec = 5, rec_frac = 7, rec_orig = 3, rec_frame = [1, 2, 3]\<rparr>], None)"
proof -
  have "length example_capture = 43" by (simp add: example_capture_def global_header_def rec_bytes_def)
  then have c: "clean [Chunk (take 30 example_capture), Interrupted, Chunk (drop 30 example_capture)]" by auto
  have b: "bytes_of [Chunk (take 30 example_capture), Interrupted, Chunk (drop 30 example_capture)] = example_capture"
    by simp
  have "pf_iface example_format = 3" by (simp add: example_format_def)
  with written_capture_read_back [OF c _ _ trans [OF b example_capture_def]] show ?thesis
    by (simp only: length_replicate) simp
qed

text \<open>C13: the reader depends on the bytes alone. Two streams of the same bytes, cut into different pieces
  and interrupted at different points, are opened with the same outcome and give the same packets
  followed by the same end or error, also when the capture is malformed or cut off.\<close>

theorem reader_ignores_chunking:
  assumes "clean r" "clean r'" "bytes_of r = bytes_of r'"
  shows "map_sum id drain (pcap_new r iface) = map_sum id drain (pcap_new r' iface)"
proof -
  obtain q x where f: "read_full r 24 = (q, x)" by (cases "read_full r 24")
  obtain q' x' where f': "read_full r' 24 = (q', x')" by (cases "read_full r' 24")
  have eq: "clean q" "clean q'" "bytes_of q = bytes_of q'" "x = x'"
    using read_full_clean [OF assms(1) f] read_full_clean [OF assms(2) f'] assms(3) by simp_all
  have "drain s = drain s'" if "clean (ps_inner s)" "clean (ps_inner s')" "format_of s = format_of s'"
    "bytes_of (ps_inner s) = bytes_of (ps_inner s')" for s s'
    using that by (simp add: drain_decode)
  with eq show ?thesis
    by (auto simp: pcap_new_def f f' format_of_def Let_def split: sum.split)
qed

theorem reader_ignores_chunking_witness:
  "map_sum id drain (pcap_new [Chunk (take 30 example_capture), Interrupted, Chunk (drop 30 example_capture)] 3) =
   map_sum id drain (pcap_new [Chunk example_capture] 3)"
proof -
  have "length example_capture = 43" by (simp add: example_capture_def global_header_def rec_bytes_def)
  then show ?thesis by (intro reader_ignores_chunking) auto
qed

end
