(* ===== verification/Capture.thy ===== *)
theory Capture
  imports Pcap_Spec Core_Config
begin

unbundle bit_operations_syntax

text \<open>
  \<^verbatim>\<open>l4scope-capture\<close>: the sources behind the trait \<open>CaptureSource\<close> (\<^verbatim>\<open>synthetic.rs\<close>, the pcap
  replay and live sources of \<^verbatim>\<open>lib.rs\<close> and \<^verbatim>\<open>live.rs\<close>, the ring-buffer source of \<^verbatim>\<open>ebpf.rs\<close>), and the
  dispatch \<open>open\<close>. What the operating system and the BPF loader answer is a parameter.
\<close>

section \<open>The synthetic source\<close>

definition MS :: u64 where "MS = 1000000"
definition SEC :: u64 where "SEC = 1000000000"

definition v4 :: "u8 \<Rightarrow> u8 \<Rightarrow> u8 \<Rightarrow> u8 \<Rightarrow> ip_addr" where
  "v4 a b c d = V4 (ipv4_new a b c d)"

definition pkt :: "u64 \<Rightarrow> ip_addr \<Rightarrow> u16 \<Rightarrow> ip_addr \<Rightarrow> u16 \<Rightarrow> protocol \<Rightarrow> u8 \<Rightarrow> u32 \<Rightarrow> u32 \<Rightarrow> u32 \<Rightarrow> u32 \<Rightarrow> packet_meta" where
  "pkt ts src_ip sport dst_ip dport proto flags sq ak window plen =
     (let src = \<lparr>ep_ip = src_ip, ep_port = sport\<rparr>; dst = \<lparr>ep_ip = dst_ip, ep_port = dport\<rparr>;
          (key, dir) = canonical src dst proto
      in \<lparr>ts_nanos = ts, pkt_key = key, pkt_dir = dir, pkt_proto = proto, pkt_flags = TcpFlags flags,
          pkt_seq = sq, pkt_ack = ak, pkt_window = window, payload_len = plen, pkt_ttl = 64,
          pkt_iface = 0\<rparr>)"

definition build_script :: "packet_meta list" where
  "build_script =
     (let t0 = 1700000000 * SEC; client = v4 10 0 0 5; server = v4 10 0 0 9;
          cp = 40001; dp = 40002; base = t0 + 400 * MS; zp = 40003; zt = t0 + 2 * SEC;
          rt = t0 + 3 * SEC; st = t0 + 5 * SEC
      in [pkt t0 client cp server 443 Tcp SYN 1000 0 64240 0,
          pkt (t0 + 300 * MS) server 443 client cp Tcp (SYN OR ACK) 5000 1001 65160 0,
          pkt (t0 + 305 * MS) client cp server 443 Tcp ACK 1001 5001 64240 0,
          pkt base client dp server 80 Tcp SYN 2000 0 64240 0,
          pkt (base + MS) server 80 client dp Tcp (SYN OR ACK) 9000 2001 65160 0,
          pkt (base + 2 * MS) client dp server 80 Tcp ACK 2001 9001 64240 0] @
         map (\<lambda>i. pkt (base + (10 + of_nat i * 200) * MS) client dp server 80 Tcp (ACK OR PSH) 2001 9001 64240 200)
           [0..<4] @
         map (\<lambda>i. pkt (base + (900 + of_nat i * 5) * MS) server 80 client dp Tcp ACK 9001 2201 65160 0) [0..<4] @
         [pkt zt client zp server 5432 Tcp SYN 3000 0 64240 0,
          pkt (zt + MS) server 5432 client zp Tcp (SYN OR ACK) 7000 3001 65160 0,
          pkt (zt + 2 * MS) client zp server 5432 Tcp ACK 3001 7001 64240 0,
          pkt (zt + 50 * MS) client zp server 5432 Tcp ACK 3001 7001 0 0] @
         concat (map (\<lambda>i.
           let cli = v4 10 0 1 (of_nat (i mod 250) + 1); sp = 50000 + of_nat i in
           [pkt (rt + of_nat i * 10 * MS) cli sp server 8080 Tcp SYN (4000 + of_nat i) 0 64240 0,
            pkt (rt + of_nat i * 10 * MS + MS) server 8080 cli sp Tcp (RST OR ACK) 0 (4001 + of_nat i) 0 0])
           [0..<40]) @
         map (\<lambda>i.
           let cli = v4 10 0 2 (of_nat (i mod 250) + 1); sp = 60000 + of_nat i in
           pkt (st + of_nat i * MS) cli sp server 3306 Tcp SYN (6000 + of_nat i) 0 64240 0) [0..<80] @
         [pkt (st + 10 * SEC) client 40009 server 22 Tcp SYN 7000 0 64240 0])"

record synthetic_source =
  syn_packets :: "packet_meta list"
  syn_idx :: nat

definition synthetic_new :: synthetic_source where
  "synthetic_new = \<lparr>syn_packets = build_script, syn_idx = 0\<rparr>"

definition synthetic_next :: "synthetic_source \<Rightarrow> synthetic_source \<times> packet_meta option result" where
  "synthetic_next s =
     (if syn_idx s \<ge> length (syn_packets s) then (s, Inr None)
      else (s\<lparr>syn_idx := syn_idx s + 1\<rparr>, Inr (Some (syn_packets s ! syn_idx s))))"

section \<open>The pcap sources\<close>

text \<open>The capture tool of a live source is a child process, named here by its command.\<close>

record pcap_source =
  psrc_name :: string
  psrc_stream :: pcap_stream
  psrc_child :: "string list option"

definition pcap_source_from_reader :: "string \<Rightarrow> reader \<Rightarrow> u32 \<Rightarrow> string list option \<Rightarrow> pcap_source result" where
  "pcap_source_from_reader nm r iface child = (case pcap_new r iface of
      Inl e \<Rightarrow> Inl e | Inr st \<Rightarrow> Inr \<lparr>psrc_name = nm, psrc_stream = st, psrc_child = child\<rparr>)"

definition pcap_source_next :: "pcap_source \<Rightarrow> pcap_source \<times> packet_meta option result" where
  "pcap_source_next s = (case pcap_next (psrc_stream s) of (st, x) \<Rightarrow> (s\<lparr>psrc_stream := st\<rparr>, x))"

section \<open>The ring-buffer source\<close>

record bpf_l4_event =
  be_ts :: u64
  be_saddr :: bytes
  be_daddr :: bytes
  be_sport :: u16
  be_dport :: u16
  be_seq :: u32
  be_ack :: u32
  be_window :: u32
  be_payload_len :: u32
  be_family :: u8
  be_proto :: u8
  be_flags :: u8
  be_ttl :: u8
  be_iface :: u32

text \<open>The \<open>repr(C)\<close> layout: 68 bytes of fields, padded to the alignment of the first.\<close>

definition BPF_EVENT_SIZE :: nat where "BPF_EVENT_SIZE = 72"

definition native :: "bool \<Rightarrow> bytes \<Rightarrow> 'a::len word" where
  "native little bs = (if little then from_le bs else from_be bs)"

definition read_bpf_event :: "bool \<Rightarrow> bytes \<Rightarrow> bpf_l4_event" where
  "read_bpf_event little b =
     \<lparr>be_ts = native little (subslice 0 8 b), be_saddr = subslice 8 24 b, be_daddr = subslice 24 40 b,
      be_sport = native little (subslice 40 42 b), be_dport = native little (subslice 42 44 b),
      be_seq = native little (subslice 44 48 b), be_ack = native little (subslice 48 52 b),
      be_window = native little (subslice 52 56 b), be_payload_len = native little (subslice 56 60 b),
      be_family = b ! 60, be_proto = b ! 61, be_flags = b ! 62, be_ttl = b ! 63,
      be_iface = native little (subslice 64 68 b)\<rparr>"

definition ebpf_decode :: "u64 \<Rightarrow> bpf_l4_event \<Rightarrow> packet_meta option" where
  "ebpf_decode wall_offset_ns ev =
     (case (if be_proto ev = 6 then Some Tcp else if be_proto ev = 17 then Some Udp else None) of
        None \<Rightarrow> None
      | Some proto \<Rightarrow>
          (case (if be_family ev = 4 then
                   Some (V4 (ipv4_new (be_saddr ev ! 0) (be_saddr ev ! 1) (be_saddr ev ! 2) (be_saddr ev ! 3)),
                         V4 (ipv4_new (be_daddr ev ! 0) (be_daddr ev ! 1) (be_daddr ev ! 2) (be_daddr ev ! 3)))
                 else if be_family ev = 6 then Some (V6 (from_be (be_saddr ev)), V6 (from_be (be_daddr ev)))
                 else None) of
             None \<Rightarrow> None
           | Some (src_ip, dst_ip) \<Rightarrow>
               (let src = \<lparr>ep_ip = src_ip, ep_port = be_sport ev\<rparr>; dst = \<lparr>ep_ip = dst_ip, ep_port = be_dport ev\<rparr>;
                    (key, dir) = canonical src dst proto
                in Some \<lparr>ts_nanos = wall_offset_ns + be_ts ev, pkt_key = key, pkt_dir = dir, pkt_proto = proto,
                     pkt_flags = TcpFlags (be_flags ev), pkt_seq = be_seq ev, pkt_ack = be_ack ev,
                     pkt_window = be_window ev, payload_len = be_payload_len ev, pkt_ttl = be_ttl ev,
                     pkt_iface = be_iface ev\<rparr>)))"

text \<open>What the ring and \<open>poll\<close> answer, in order. A source whose list is exhausted waits: no value.\<close>

datatype ring_item = RingRecord bytes | PollReady | PollFailed string

record ebpf_source =
  eb_name :: string
  eb_ring :: "ring_item list"
  eb_wall_offset :: u64
  eb_little :: bool

fun ebpf_loop :: "u64 \<Rightarrow> bool \<Rightarrow> ring_item list \<Rightarrow> (ring_item list \<times> packet_meta option result) option" where
  "ebpf_loop off little [] = None"
| "ebpf_loop off little (RingRecord b # rs) =
     (if length b \<ge> BPF_EVENT_SIZE then
        (case ebpf_decode off (read_bpf_event little b) of
           Some p \<Rightarrow> Some (rs, Inr (Some p)) | None \<Rightarrow> ebpf_loop off little rs)
      else ebpf_loop off little rs)"
| "ebpf_loop off little (PollReady # rs) = ebpf_loop off little rs"
| "ebpf_loop off little (PollFailed e # rs) = Some (rs, Inl (Io e))"

definition ebpf_next :: "ebpf_source \<Rightarrow> (ebpf_source \<times> packet_meta option result) option" where
  "ebpf_next s = map_option (\<lambda>(rs, x). (s\<lparr>eb_ring := rs\<rparr>, x)) (ebpf_loop (eb_wall_offset s) (eb_little s) (eb_ring s))"

definition wall_offset_ns :: "u64 \<Rightarrow> u64 \<Rightarrow> u64 \<Rightarrow> u64 \<Rightarrow> u64" where
  "wall_offset_ns mono_sec mono_nsec real_sec real_nsec =
     (let mono_ns = mono_sec * 1000000000 + mono_nsec; real_ns = real_sec * 1000000000 + real_nsec
      in real_ns - mono_ns)"

section \<open>Opening a source\<close>

datatype source = SynthSource synthetic_source | PcapSource pcap_source | EbpfSource ebpf_source

fun source_name :: "source \<Rightarrow> string" where
  "source_name (SynthSource s) = ''synthetic''"
| "source_name (PcapSource s) = psrc_name s"
| "source_name (EbpfSource s) = eb_name s"

fun next_packet :: "source \<Rightarrow> (source \<times> packet_meta option result) option" where
  "next_packet (SynthSource s) = Some (map_prod SynthSource id (synthetic_next s))"
| "next_packet (PcapSource s) = Some (map_prod PcapSource id (pcap_source_next s))"
| "next_packet (EbpfSource s) = map_option (map_prod EbpfSource id) (ebpf_next s)"

text \<open>Dropping a source: the child processes that are killed and waited for.\<close>

fun drop_source :: "source \<Rightarrow> string list list" where
  "drop_source (PcapSource s) = (case psrc_child s of None \<Rightarrow> [] | Some child \<Rightarrow> [child])"
| "drop_source _ = []"

text \<open>The answers of the file system, of process creation, and of the steps of the BPF loader.\<close>

record ebpf_env =
  bpf_load :: "string option"
  bpf_program :: "string option"
  bpf_not_classifier :: "string option"
  bpf_program_load :: "string option"
  bpf_attach_ingress :: "string option"
  bpf_attach_egress :: "string option"
  bpf_events_map :: bool
  bpf_ring_open :: "string option"
  bpf_ring :: "ring_item list"
  bpf_clock :: "u64 \<times> u64 \<times> u64 \<times> u64"
  bpf_little :: bool

record capture_env =
  env_windows :: bool
  env_open_file :: "string \<Rightarrow> string + reader"
  env_spawn :: "string list \<Rightarrow> string + reader option"
  env_ebpf :: "(string \<Rightarrow> ebpf_env) option"
  env_etw :: bool

definition default_command :: "bool \<Rightarrow> string \<Rightarrow> string \<Rightarrow> string list" where
  "default_command windows iface0 flt =
     (let iface = (if iface0 = [] then ''any'' else iface0) in
      if windows then
        [''tshark'', ''-i'', iface, ''-w'', ''-'', ''-F'', ''pcap'', ''-s'', ''256''] @
        (if flt = [] then [] else [''-f'', flt])
      else
        [''tcpdump'', ''-i'', iface, ''-w'', ''-'', ''-U'', ''-n'', ''-s'', ''256''] @
        (if flt = [] then [] else split_whitespace flt))"

definition open_live :: "capture_env \<Rightarrow> capture_config \<Rightarrow> source result" where
  "open_live env cfg =
     (let argv = (if trim (cc_live_command cfg) = []
                  then default_command (env_windows env) (cc_interface cfg) (cc_filter cfg)
                  else split_whitespace (cc_live_command cfg)) in
      if argv = [] then Inl (Config_err ''empty live_command'')
      else case env_spawn env argv of
        Inl e \<Rightarrow> Inl (UnsupportedBackend (''failed to spawn '' @ [CHR 0x27] @ hd argv @ [CHR 0x27] @
          '' (is it installed / do you have capture privileges?): '' @ e))
      | Inr None \<Rightarrow> Inl (Io ''no stdout from capture tool'')
      | Inr (Some rd) \<Rightarrow> map_sum id PcapSource (pcap_source_from_reader (''live:'' @ hd argv) rd 0 (Some argv)))"

definition ebpf_open :: "(string \<Rightarrow> ebpf_env) \<Rightarrow> capture_config \<Rightarrow> source result" where
  "ebpf_open bpf cfg =
     (let iface = (if trim (cc_interface cfg) = [] then ''eth0'' else cc_interface cfg);
          b = bpf iface;
          fail = (\<lambda>msg e. Inl (UnsupportedBackend (msg @ e)))
      in case bpf_load b of Some e \<Rightarrow> fail ''failed to load BPF object: '' e
       | None \<Rightarrow> (case bpf_program b of Some e \<Rightarrow> fail ''program l4scope_tc not found'' ''''
       | None \<Rightarrow> (case bpf_not_classifier b of Some e \<Rightarrow> fail ''not a SchedClassifier: '' e
       | None \<Rightarrow> (case bpf_program_load b of Some e \<Rightarrow> fail ''program load failed: '' e
       | None \<Rightarrow> (case bpf_attach_ingress b of Some e \<Rightarrow> fail (''attach ingress on '' @ iface @ '': '') e
       | None \<Rightarrow> (case bpf_attach_egress b of Some e \<Rightarrow> fail (''attach egress on '' @ iface @ '': '') e
       | None \<Rightarrow>
           if \<not> bpf_events_map b then
             Inl (UnsupportedBackend (''ring buffer map '' @ [CHR 0x27] @ ''events'' @ [CHR 0x27] @ '' not found''))
           else (case bpf_ring_open b of Some e \<Rightarrow> fail ''ring buffer open failed: '' e
       | None \<Rightarrow>
           (let (ms, mn, rs, rn) = bpf_clock b in
            Inr (EbpfSource \<lparr>eb_name = ''ebpf:'' @ iface, eb_ring = bpf_ring b,
              eb_wall_offset = wall_offset_ns ms mn rs rn, eb_little = bpf_little b\<rparr>)))))))))"

definition etw_open :: "capture_config \<Rightarrow> source result" where
  "etw_open cfg = Inl (UnsupportedBackend
     (''etw backend requires a realtime ETW consumer (Microsoft-Windows-TCPIP) or pktmon session; use the '' @
      [CHR 0x60] @ ''live'' @ [CHR 0x60] @ '' backend with tshark/pktmon until wired in.''))"

definition open_ebpf :: "capture_env \<Rightarrow> capture_config \<Rightarrow> source result" where
  "open_ebpf env cfg = (case env_ebpf env of
      Some bpf \<Rightarrow> ebpf_open bpf cfg
    | None \<Rightarrow> Inl (UnsupportedBackend
        (''ebpf backend not built in; rebuild on Linux with '' @ [CHR 0x60] @ ''--features l4scope-agent/ebpf'' @
         [CHR 0x60] @ '' (see docs/BUILD_NATIVE.md)'')))"

definition open_etw :: "capture_env \<Rightarrow> capture_config \<Rightarrow> source result" where
  "open_etw env cfg =
     (if env_etw env then etw_open cfg
      else Inl (UnsupportedBackend
        (''etw backend not built in; rebuild on Windows with '' @ [CHR 0x60] @ ''--features l4scope-agent/etw'' @
         [CHR 0x60] @ '' (see docs/BUILD_NATIVE.md)'')))"

definition open_source :: "capture_env \<Rightarrow> capture_config \<Rightarrow> source result" where
  "open_source env cfg = (case cc_backend cfg of
      Synthetic \<Rightarrow> Inr (SynthSource synthetic_new)
    | PcapFile \<Rightarrow>
        (if trim (cc_pcap_path cfg) = [] then Inl (Config_err ''pcap_file backend needs capture.pcap_path'')
         else case env_open_file env (cc_pcap_path cfg) of
           Inl e \<Rightarrow> Inl (Config_err (''cannot open '' @ cc_pcap_path cfg @ '': '' @ e))
         | Inr rd \<Rightarrow> map_sum id PcapSource (pcap_source_from_reader (''pcap_file:'' @ cc_pcap_path cfg) rd 0 None))
    | Live \<Rightarrow> open_live env cfg
    | Ebpf \<Rightarrow> open_ebpf env cfg
    | Etw \<Rightarrow> open_etw env cfg)"

end
