(* ===== verification/Capture_Laws.thy ===== *)
theory Capture_Laws
  imports Capture
begin

text \<open>
  The contract of \<open>CaptureSource\<close>: pulling packets from a finite source ends, with the packets in
  order. The contract is a locale; the synthetic and the pcap sources are its instances.
\<close>

section \<open>The contract\<close>

fun pull :: "('s \<Rightarrow> 's \<times> packet_meta option result) \<Rightarrow> nat \<Rightarrow> 's \<Rightarrow> (packet_meta list \<times> error option) option" where
  "pull nxt 0 s = None"
| "pull nxt (Suc n) s = (case nxt s of
      (_, Inl e) \<Rightarrow> Some ([], Some e)
    | (_, Inr None) \<Rightarrow> Some ([], None)
    | (s', Inr (Some p)) \<Rightarrow> map_option (\<lambda>(ps, e). (p # ps, e)) (pull nxt n s'))"

locale capture_source =
  fixes nxt :: "'s \<Rightarrow> 's \<times> packet_meta option result"
    and left :: "'s \<Rightarrow> nat"
  assumes progress: "nxt s = (s', Inr (Some p)) \<Longrightarrow> left s' < left s"
begin

lemma pull_ends: "left s < n \<Longrightarrow> pull nxt n s \<noteq> None"
proof (induction n arbitrary: s)
  case (Suc n)
  have "pull nxt n s' \<noteq> None" if "nxt s = (s', Inr (Some p))" for s' p
    using Suc progress [OF that] by simp
  then show ?case by (auto split: prod.split sum.split option.split)
qed simp

lemma pull_more: "pull nxt n s = Some r \<Longrightarrow> n \<le> m \<Longrightarrow> pull nxt m s = Some r"
proof (induction n arbitrary: s m r)
  case (Suc n)
  from Suc.prems(2) obtain m' where m: "m = Suc m'" "n \<le> m'" by (cases m) auto
  obtain s' x where nx: "nxt s = (s', x)" by (cases "nxt s")
  consider e where "x = Inl e" | "x = Inr None" | p where "x = Inr (Some p)"
    by (cases x; cases "projr x") auto
  then show ?case
  proof cases
    case (3 p)
    with nx Suc.prems(1) obtain r' where r': "pull nxt n s' = Some r'" "r = (p # fst r', snd r')"
      by (auto simp: case_prod_beta)
    from Suc.IH [OF r'(1) m(2)] nx 3 r'(2) m(1) show ?thesis by (simp add: case_prod_beta)
  qed (use nx Suc.prems(1) m(1) in simp_all)
qed simp

lemma pull_fuel: "left s < n \<Longrightarrow> left s < m \<Longrightarrow> pull nxt n s = pull nxt m s"
proof -
  assume n: "left s < n" and m: "left s < m"
  from pull_ends [OF n] obtain r where r: "pull nxt n s = Some r" by auto
  from pull_ends [OF m] obtain r' where r': "pull nxt m s = Some r'" by auto
  show ?thesis
    using pull_more [OF r, of m] pull_more [OF r', of n] r r' by (cases "n \<le> m") auto
qed

end

section \<open>The synthetic source\<close>

definition syn_left :: "synthetic_source \<Rightarrow> nat" where
  "syn_left s = length (syn_packets s) - syn_idx s"

interpretation ss: capture_source synthetic_next syn_left
proof
  fix s s' p assume "synthetic_next s = (s', Inr (Some p))"
  then show "syn_left s' < syn_left s" by (auto simp: synthetic_next_def syn_left_def split: if_splits)
qed

lemma pull_synthetic:
  "syn_left s < n \<Longrightarrow> pull synthetic_next n s = Some (drop (syn_idx s) (syn_packets s), None)"
proof (induction n arbitrary: s)
  case (Suc n)
  show ?case
  proof (cases "syn_idx s \<ge> length (syn_packets s)")
    case True
    then show ?thesis by (simp add: synthetic_next_def)
  next
    case False
    let ?s = "s\<lparr>syn_idx := syn_idx s + 1\<rparr>"
    have "syn_left ?s < n" using Suc.prems False by (simp add: syn_left_def)
    from Suc.IH [OF this] False show ?thesis
      by (simp add: synthetic_next_def Cons_nth_drop_Suc)
  qed
qed simp

lemma length_build_script: "length build_script = 179"
proof -
  have "length (concat (map (\<lambda>i. [f i, g i]) [0..<40])) = 80" for f g :: "nat \<Rightarrow> packet_meta"
    by (simp add: length_concat comp_def sum_list_triv)
  then show ?thesis by (simp add: build_script_def Let_def)
qed

section \<open>The pcap sources\<close>

definition psrc_left :: "pcap_source \<Rightarrow> nat" where
  "psrc_left s = reader_size (ps_inner (psrc_stream s))"

interpretation sp: capture_source pcap_source_next psrc_left
proof
  fix s s' p assume "pcap_source_next s = (s', Inr (Some p))"
  then show "psrc_left s' < psrc_left s"
    by (auto simp: pcap_source_next_def psrc_left_def dest!: pcap_next_progress split: prod.splits)
qed

lemma pull_pcap: "psrc_left s < n \<Longrightarrow> pull pcap_source_next n s = Some (drain (psrc_stream s))"
proof (induction n arbitrary: s)
  case (Suc n)
  obtain st x where nx: "pcap_next (psrc_stream s) = (st, x)" by (cases "pcap_next (psrc_stream s)")
  have IH: "pull pcap_source_next n (s\<lparr>psrc_stream := st\<rparr>) = Some (drain st)" if "x = Inr (Some p)" for p
    using Suc nx that pcap_next_progress [of "psrc_stream s" st p] by (simp add: psrc_left_def)
  show ?case
    by (subst drain.simps) (auto simp: pcap_source_next_def nx IH split: sum.split option.split prod.split)
qed simp

section \<open>Skipped records\<close>

lemma ebpf_skips:
  "list_all (\<lambda>x. x = PollReady \<or> (\<exists>b. x = RingRecord b \<and> length b < BPF_EVENT_SIZE)) xs \<Longrightarrow>
   ebpf_loop off little (xs @ rs) = ebpf_loop off little rs"
proof (induction xs)
  case (Cons x xs)
  then show ?case by (cases x) auto
qed simp

section \<open>Timestamps and clocks\<close>

lemma record_ts_exact:
  "unat (record_ts nanos (ucast (sec :: u32)) (ucast (fr :: u32)))
     = unat sec * 1000000000 + unat fr * (if nanos then 1 else 1000)"
proof -
  have s: "unat sec < 2 ^ 32" "unat fr < 2 ^ 32" using unsigned_less [of sec] unsigned_less [of fr] by simp_all
  have u: "unat (ucast sec :: u64) = unat sec" "unat (ucast fr :: u64) = unat fr"
    using s by (simp_all add: unsigned_ucast_eq take_bit_nat_eq_self)
  have m: "unat (ucast fr * 1000 :: u64) = unat fr * 1000"
    using s u by (simp add: unat_word_ariths)
  show ?thesis using s by (simp add: record_ts_def sat_simps u m)
qed

end
