(* ===== verification/Rolling_Rate.thy ===== *)
theory Rolling_Rate
  imports F64
begin

text \<open>
  \<^verbatim>\<open>l4scope-detect/src/window.rs\<close>: the fixed-memory rolling event counter, a ring of per-second
  buckets. The main result is a refinement: on a capture whose timestamps do not go back, the
  ring counts exactly the events of the last \<open>window_secs\<close> seconds, although it keeps no
  event.
\<close>

section \<open>The ring\<close>

record rolling_rate =
  window_secs :: u64
  buckets :: "u64 list"
  epoch :: "u64 list"

definition rolling_rate_new :: "u64 \<Rightarrow> rolling_rate" where
  "rolling_rate_new w0 =
     (let w = max w0 1 in
      \<lparr>window_secs = w, buckets = replicate (unat w) 0, epoch = replicate (unat w) (- 1)\<rparr>)"

definition rr_record :: "u64 \<Rightarrow> rolling_rate \<Rightarrow> rolling_rate" where
  "rr_record now_ns r =
     (let sec = now_ns div NS_PER_SEC;
          i = unat (sec mod window_secs r);
          r1 = (if epoch r ! i \<noteq> sec
                then r\<lparr>epoch := (epoch r)[i := sec], buckets := (buckets r)[i := 0]\<rparr> else r)
      in r1\<lparr>buckets := (buckets r1)[i := buckets r1 ! i + 1]\<rparr>)"

definition count_window :: "rolling_rate \<Rightarrow> u64 \<Rightarrow> u64" where
  "count_window r now_ns =
     (let sec = now_ns div NS_PER_SEC;
          lo = saturating_sub sec (window_secs r - 1)
      in sum_list (map (\<lambda>i. let e = epoch r ! i in
           if e \<noteq> - 1 \<and> lo \<le> e \<and> e \<le> sec then buckets r ! i else 0)
         [0..<length (buckets r)]))"

definition per_sec :: "rolling_rate \<Rightarrow> u64 \<Rightarrow> f64" where
  "per_sec r now_ns =
     f64_div (f64_of_nat (unat (count_window r now_ns))) (f64_of_nat (unat (window_secs r)))"

section \<open>Well-formed rings\<close>

definition rr_wf :: "rolling_rate \<Rightarrow> bool" where
  "rr_wf r \<longleftrightarrow> 0 < window_secs r \<and> length (buckets r) = unat (window_secs r)
     \<and> length (epoch r) = unat (window_secs r)"

lemma window_secs_record [simp]: "window_secs (rr_record t r) = window_secs r"
  by (simp add: rr_record_def Let_def)

lemma rr_wf_new: "rr_wf (rolling_rate_new w)"
  by (auto simp: rr_wf_def rolling_rate_new_def Let_def max_def word_less_nat_alt word_le_nat_alt)

lemma rr_wf_record: "rr_wf r \<Longrightarrow> rr_wf (rr_record t r)"
  by (simp add: rr_wf_def rr_record_def Let_def)

lemma rr_wf_fold: "rr_wf r \<Longrightarrow> rr_wf (fold rr_record ts r)"
  by (induction ts arbitrary: r) (auto simp: rr_wf_record)

lemma window_secs_fold [simp]: "window_secs (fold rr_record ts r) = window_secs r"
  by (induction ts arbitrary: r) auto

section \<open>What the ring remembers of a history\<close>

definition sec_of :: "u64 \<Rightarrow> nat" where
  "sec_of t = unat t div 1000000000"

lemma unat_sec: "unat (t div NS_PER_SEC) = sec_of t"
  by (simp add: sec_of_def NS_PER_SEC_def unat_div)

lemma sec_of_bound: "sec_of t < 2 ^ 35"
proof -
  have "unat t < 2 ^ 64" using unsigned_less [of t] by simp
  then show ?thesis by (simp add: sec_of_def div_less_iff_less_mult)
qed

lemma sec_mono: "t \<le> u \<Longrightarrow> sec_of t \<le> sec_of u"
  by (simp add: sec_of_def div_le_mono word_le_nat_alt)

lemma sec_not_max: "t div NS_PER_SEC \<noteq> - 1"
proof
  assume "t div NS_PER_SEC = - 1"
  then have "sec_of t = 2 ^ 64 - 1" by (simp add: unat_minus_one_word_eq flip: unat_sec)
  with sec_of_bound [of t] show False by simp
qed

lemma sec_eq_iff: "t div NS_PER_SEC = u div NS_PER_SEC \<longleftrightarrow> sec_of t = sec_of u"
  by (simp add: word_unat_eq_iff unat_sec)

definition in_class :: "rolling_rate \<Rightarrow> nat \<Rightarrow> u64 \<Rightarrow> bool" where
  "in_class r i t \<longleftrightarrow> sec_of t mod unat (window_secs r) = i"

text \<open>Bucket \<open>i\<close> holds the events of the latest second of its residue class: it is unused
  when no such event occurred.\<close>

definition bucket_ok :: "rolling_rate \<Rightarrow> u64 list \<Rightarrow> nat \<Rightarrow> bool" where
  "bucket_ok r ts i \<longleftrightarrow>
     (if \<exists>t \<in> set ts. in_class r i t then
        \<exists>s \<in> set ts. in_class r i s \<and> (\<forall>t \<in> set ts. in_class r i t \<longrightarrow> sec_of t \<le> sec_of s) \<and>
          epoch r ! i = s div NS_PER_SEC \<and>
          buckets r ! i = of_nat (length (filter (\<lambda>t. sec_of t = sec_of s) ts))
      else epoch r ! i = - 1 \<and> buckets r ! i = 0)"

definition ring_ok :: "rolling_rate \<Rightarrow> u64 list \<Rightarrow> bool" where
  "ring_ok r ts \<longleftrightarrow> rr_wf r \<and> (\<forall>i < unat (window_secs r). bucket_ok r ts i)"

lemma ring_ok_new: "ring_ok (rolling_rate_new w) []"
  by (simp add: ring_ok_def rr_wf_new bucket_ok_def) (simp add: rolling_rate_new_def Let_def)

lemma record_fields:
  assumes "rr_wf r" "i = sec_of t mod unat (window_secs r)"
  shows "i < unat (window_secs r)"
    "epoch (rr_record t r) = (epoch r)[i := t div NS_PER_SEC]"
    "buckets (rr_record t r) =
       (buckets r)[i := (if epoch r ! i = t div NS_PER_SEC then buckets r ! i + 1 else 1)]"
proof -
  from assms(1) have w: "0 < unat (window_secs r)"
    and len: "length (buckets r) = unat (window_secs r)" "length (epoch r) = unat (window_secs r)"
    by (auto simp: rr_wf_def word_less_nat_alt)
  show i: "i < unat (window_secs r)" using w assms(2) by simp
  have ui: "unat (t div NS_PER_SEC mod window_secs r) = i"
    by (simp add: assms(2) unat_mod unat_sec)
  show "epoch (rr_record t r) = (epoch r)[i := t div NS_PER_SEC]"
    using i len by (auto simp: rr_record_def ui Let_def) (metis list_update_id)
  show "buckets (rr_record t r) =
      (buckets r)[i := (if epoch r ! i = t div NS_PER_SEC then buckets r ! i + 1 else 1)]"
    using i len by (simp add: rr_record_def ui Let_def)
qed

lemma in_class_record [simp]: "in_class (rr_record t r) j u \<longleftrightarrow> in_class r j u"
  by (simp add: in_class_def)

text \<open>A record leaves the buckets of the other residue classes alone.\<close>

lemma bucket_ok_other:
  assumes "rr_wf r" "bucket_ok r ts j" "j \<noteq> sec_of t mod unat (window_secs r)"
  shows "bucket_ok (rr_record t r) (ts @ [t]) j"
proof -
  have same: "epoch (rr_record t r) ! j = epoch r ! j" "buckets (rr_record t r) ! j = buckets r ! j"
    using assms(3) by (simp_all add: record_fields [OF assms(1) refl])
  have tj: "\<not> in_class r j t" using assms(3) by (simp add: in_class_def)
  then have neq: "sec_of t \<noteq> sec_of s" if "in_class r j s" for s
    using that by (auto simp: in_class_def)
  show ?thesis
  proof (cases "\<exists>u \<in> set ts. in_class r j u")
    case True
    with assms(2) obtain s where "s \<in> set ts" "in_class r j s"
      "\<forall>u \<in> set ts. in_class r j u \<longrightarrow> sec_of u \<le> sec_of s" "epoch r ! j = s div NS_PER_SEC"
      "buckets r ! j = of_nat (length (filter (\<lambda>u. sec_of u = sec_of s) ts))"
      by (auto simp: bucket_ok_def)
    with same tj neq True show ?thesis by (auto simp: bucket_ok_def intro!: bexI [of _ s])
  next
    case False
    with assms(2) same tj show ?thesis by (auto simp: bucket_ok_def)
  qed
qed

text \<open>A bucket that carries another second than the latest has seen no event of the latest.\<close>

lemma bucket_stale:
  assumes "bucket_ok r ts (sec_of t mod unat (window_secs r))" "\<forall>u \<in> set ts. sec_of u \<le> sec_of t"
    "epoch r ! (sec_of t mod unat (window_secs r)) \<noteq> t div NS_PER_SEC"
  shows "filter (\<lambda>u. sec_of u = sec_of t) ts = []"
proof -
  have "sec_of u \<noteq> sec_of t" if u: "u \<in> set ts" for u
  proof
    assume e: "sec_of u = sec_of t"
    then have "in_class r (sec_of t mod unat (window_secs r)) u" by (simp add: in_class_def)
    with u assms(1) obtain s where s: "s \<in> set ts" "sec_of u \<le> sec_of s"
      "epoch r ! (sec_of t mod unat (window_secs r)) = s div NS_PER_SEC"
      by (auto simp: bucket_ok_def split: if_splits)
    with assms(2) e have "sec_of s = sec_of t" by fastforce
    with s assms(3) show False by (simp add: sec_eq_iff)
  qed
  then show ?thesis by (simp add: filter_empty_conv)
qed

text \<open>The bucket of the recorded event then holds the events of its second.\<close>

lemma bucket_ok_hit:
  assumes "rr_wf r" "bucket_ok r ts i" "i = sec_of t mod unat (window_secs r)" "\<forall>u \<in> set ts. sec_of u \<le> sec_of t"
  shows "bucket_ok (rr_record t r) (ts @ [t]) i"
proof -
  note rf = record_fields [OF assms(1,3)]
  have len: "i < length (buckets r)" "i < length (epoch r)"
    using assms(1) rf(1) by (simp_all add: rr_wf_def)
  have "buckets (rr_record t r) ! i = of_nat (length (filter (\<lambda>u. sec_of u = sec_of t) (ts @ [t])))"
  proof (cases "epoch r ! i = t div NS_PER_SEC")
    case True
    with assms(2) sec_not_max [of t] obtain s where "epoch r ! i = s div NS_PER_SEC"
      "buckets r ! i = of_nat (length (filter (\<lambda>t. sec_of t = sec_of s) ts))"
      by (auto simp: bucket_ok_def split: if_splits)
    with True len show ?thesis by (simp add: rf sec_eq_iff)
  next
    case False
    with bucket_stale [of r ts t] assms len show ?thesis by (simp add: rf)
  qed
  moreover have "epoch (rr_record t r) ! i = t div NS_PER_SEC" using len by (simp add: rf)
  moreover have "in_class r i t" by (simp add: in_class_def assms(3))
  ultimately show ?thesis
    using assms(4) by (auto simp: bucket_ok_def intro!: bexI [of _ t])
qed

lemma ring_ok_record:
  assumes "ring_ok r ts" "\<forall>u \<in> set ts. sec_of u \<le> sec_of t"
  shows "ring_ok (rr_record t r) (ts @ [t])"
  using assms bucket_ok_other bucket_ok_hit by (fastforce simp: ring_ok_def rr_wf_record)

lemma ring_ok_fold: "sorted ts \<Longrightarrow> ring_ok (fold rr_record ts (rolling_rate_new w)) ts"
proof (induction ts rule: rev_induct)
  case Nil
  then show ?case by (simp add: ring_ok_new)
next
  case (snoc t ts)
  then show ?case by (auto simp: sorted_append sec_mono intro!: ring_ok_record)
qed

section \<open>Counting\<close>

text \<open>The abstract counter: the events of a history whose second lies in the window.\<close>

definition events_in_window :: "nat \<Rightarrow> u64 list \<Rightarrow> u64 \<Rightarrow> nat" where
  "events_in_window w ts now = length (filter (\<lambda>t. sec_of now < sec_of t + w) ts)"

lemma length_filter_partition:
  assumes "\<forall>t \<in> set ts. f t < (n::nat)"
  shows "length (filter P ts) = sum_list (map (\<lambda>i. length (filter (\<lambda>t. P t \<and> f t = i) ts)) [0..<n])"
  using assms
proof (induction ts)
  case Nil
  then show ?case by (simp add: sum_list_triv)
next
  case (Cons t ts)
  have "sum_list (map (\<lambda>i. (if P t \<and> f t = i then 1 else 0) + g i) [0..<n])
      = (if P t then 1 else 0) + sum_list (map g [0..<n])" for g :: "nat \<Rightarrow> nat"
    using Cons.prems
    by (cases "P t") (simp_all add: interv_sum_list_conv_sum_set_nat sum.distrib)
  moreover have "length (filter (\<lambda>u. P u \<and> f u = i) (t # ts)) =
      (if P t \<and> f t = i then 1 else 0) + length (filter (\<lambda>u. P u \<and> f u = i) ts)" for i
    by simp
  ultimately show ?case using Cons by simp
qed

lemma mod_window_unique:
  assumes "(a::nat) mod w = b mod w" "a \<le> s" "b \<le> s" "s < a + w" "s < b + w"
  shows "a = b"
proof (rule ccontr)
  assume "a \<noteq> b"
  have "w dvd (if a < b then b - a else a - b)"
    using assms(1) by (metis mod_eq_dvd_iff_nat nat_le_linear not_less order_less_imp_le)
  with \<open>a \<noteq> b\<close> have "w \<le> (if a < b then b - a else a - b)"
    by (intro dvd_imp_le) auto
  with assms show False by (auto split: if_splits)
qed

lemma bucket_count:
  assumes ok: "bucket_ok r ts i" and w: "w = unat (window_secs r)" "0 < w"
    and now: "\<forall>t \<in> set ts. sec_of t \<le> sec_of now"
  shows "(if epoch r ! i \<noteq> - 1 \<and>
             saturating_sub (now div NS_PER_SEC) (window_secs r - 1) \<le> epoch r ! i \<and>
             epoch r ! i \<le> now div NS_PER_SEC
          then buckets r ! i else 0)
       = of_nat (length (filter (\<lambda>t. sec_of now < sec_of t + w \<and> sec_of t mod w = i) ts))"
proof (cases "\<exists>t \<in> set ts. in_class r i t")
  case False
  then have "filter (\<lambda>t. sec_of now < sec_of t + w \<and> sec_of t mod w = i) ts = []"
    by (auto simp: filter_empty_conv in_class_def w)
  with False ok show ?thesis by (simp add: bucket_ok_def)
next
  case True
  with ok obtain s where s: "s \<in> set ts" "in_class r i s"
      "\<And>t. t \<in> set ts \<Longrightarrow> in_class r i t \<Longrightarrow> sec_of t \<le> sec_of s"
      "epoch r ! i = s div NS_PER_SEC"
      "buckets r ! i = of_nat (length (filter (\<lambda>t. sec_of t = sec_of s) ts))"
    by (auto simp: bucket_ok_def)
  have w1: "unat (window_secs r - 1) = w - 1"
    using w by (simp add: unat_sub word_le_nat_alt Suc_le_eq)
  have guard: "(epoch r ! i \<noteq> - 1 \<and>
             saturating_sub (now div NS_PER_SEC) (window_secs r - 1) \<le> epoch r ! i \<and>
             epoch r ! i \<le> now div NS_PER_SEC) \<longleftrightarrow> sec_of now < sec_of s + w"
    using s(1,4) now w(2) sec_not_max [of s]
    by (auto simp: word_le_nat_alt sat_simps unat_sec w1)
  show ?thesis
  proof (cases "sec_of now < sec_of s + w")
    case True
    have "(sec_of now < sec_of t + w \<and> sec_of t mod w = i) = (sec_of t = sec_of s)" if "t \<in> set ts" for t
      using that s now True mod_window_unique [of "sec_of t" w "sec_of s" "sec_of now"]
      by (auto simp: in_class_def w)
    then have "filter (\<lambda>t. sec_of now < sec_of t + w \<and> sec_of t mod w = i) ts
        = filter (\<lambda>t. sec_of t = sec_of s) ts" by (auto intro: filter_cong)
    with True s(5) show ?thesis unfolding guard by simp
  next
    case False
    then have "filter (\<lambda>t. sec_of now < sec_of t + w \<and> sec_of t mod w = i) ts = []"
      using s(3) by (fastforce simp: filter_empty_conv in_class_def w)
    with False show ?thesis unfolding guard by simp
  qed
qed

lemma sum_list_of_nat: "sum_list (map (\<lambda>i. of_nat (f i)) xs) = (of_nat (sum_list (map f xs)) :: 'a::semiring_1)"
  by (induction xs) auto

lemma ring_ok_count:
  assumes ok: "ring_ok r ts" and now: "\<forall>t \<in> set ts. sec_of t \<le> sec_of now"
  shows "count_window r now = of_nat (events_in_window (unat (window_secs r)) ts now)"
proof -
  define w where "w = unat (window_secs r)"
  from ok have w: "0 < w" and len: "length (buckets r) = w"
    by (auto simp: ring_ok_def rr_wf_def w_def word_less_nat_alt)
  have "count_window r now =
      sum_list (map (\<lambda>i. of_nat (length (filter (\<lambda>t. sec_of now < sec_of t + w \<and> sec_of t mod w = i) ts))) [0..<w])"
    unfolding count_window_def Let_def len
    by (rule arg_cong [where f = sum_list], rule map_cong [OF refl], rule bucket_count)
      (use ok w now in \<open>auto simp: ring_ok_def w_def\<close>)
  also have "\<dots> = of_nat (length (filter (\<lambda>t. sec_of now < sec_of t + w) ts))"
    using w length_filter_partition [of ts "\<lambda>t. sec_of t mod w" w "\<lambda>t. sec_of now < sec_of t + w"]
    by (simp add: sum_list_of_nat)
  finally show ?thesis by (simp add: events_in_window_def w_def)
qed

section \<open>Properties\<close>

text \<open>C6: the ring of per-second buckets is a faithful sliding window: after any history of events with
  timestamps that do not go back, the count at a later instant is the number of events of the last
  window, whatever buckets were reused on the way.\<close>

theorem rolling_rate_counts_window:
  assumes "sorted (ts @ [now])"
  shows "count_window (fold rr_record ts (rolling_rate_new w)) now =
    of_nat (length (filter (\<lambda>t. unat now div 1000000000 < unat t div 1000000000 + unat (max w 1)) ts))"
proof -
  let ?r = "fold rr_record ts (rolling_rate_new w)"
  have "window_secs ?r = max w 1" by (simp add: rolling_rate_new_def Let_def)
  moreover have "\<forall>t \<in> set ts. sec_of t \<le> sec_of now" using assms by (auto simp: sorted_append sec_mono)
  moreover have "ring_ok ?r ts" using assms by (intro ring_ok_fold) (simp add: sorted_append)
  ultimately show ?thesis using ring_ok_count [of ?r ts now] by (simp add: events_in_window_def sec_of_def)
qed

theorem rolling_rate_counts_window_witness:
  "count_window (fold rr_record [1500000000, 4200000000, 4900000000] (rolling_rate_new 3)) 5100000000 = 2"
  by (subst rolling_rate_counts_window) (simp_all add: max_def word_le_nat_alt)

end
