(* ===== verification/Flow_Table.thy ===== *)
theory Flow_Table
  imports Core_Config Rolling_Rate
begin

text \<open>
  \<^verbatim>\<open>l4scope-detect/src/flow.rs\<close>: the flow table, the per-flow TCP state machine, the host-wide
  counters, and the packet delta that the detectors read. One definition per block of
  \<open>EngineState::update\<close>; a block maps the triple of flow, globals and delta it mutates.
\<close>

section \<open>State\<close>

datatype tcp_state = New | SynSent | SynAckSeen | Established | Closing | Reset

record flow_state =
  fs_proto :: protocol
  fs_state :: tcp_state
  first_seen_ns :: u64
  last_seen_ns :: u64
  syn_time_ns :: "u64 option"
  synack_time_ns :: "u64 option"
  rtt_ns :: "u64 option"
  fs_established :: bool
  handshake_timeout_flagged :: bool
  half_open_counted :: bool
  fs_service :: endpoint
  next_seq :: "u32 option list"
  last_ack :: "u32 option list"
  fs_dup_ack_count :: "u32 list"
  zero_window :: "bool list"
  retransmits :: u64
  data_segments :: u64

definition flow_state_new :: "protocol \<Rightarrow> u64 \<Rightarrow> endpoint \<Rightarrow> flow_state" where
  "flow_state_new p now service =
     \<lparr>fs_proto = p, fs_state = New, first_seen_ns = now, last_seen_ns = now, syn_time_ns = None,
      synack_time_ns = None, rtt_ns = None, fs_established = False,
      handshake_timeout_flagged = False, half_open_counted = False, fs_service = service,
      next_seq = [None, None], last_ack = [None, None], fs_dup_ack_count = [0, 0],
      zero_window = [False, False], retransmits = 0, data_segments = 0\<rparr>"

definition retransmit_ratio :: "flow_state \<Rightarrow> f64" where
  "retransmit_ratio f =
     (if data_segments f = 0 then F64 0
      else f64_div (f64_of_nat (unat (retransmits f))) (f64_of_nat (unat (data_segments f))))"

record packet_delta =
  new_flow :: bool
  is_retransmit :: bool
  is_out_of_order :: bool
  is_dup_ack :: bool
  dup_ack_count :: u32
  zero_window_edge :: bool
  rtt_sample_ns :: "u64 option"
  handshake_refused :: bool
  established_now :: bool
  delta_rst :: bool
  delta_service :: "endpoint option"

definition packet_delta_default :: packet_delta where
  "packet_delta_default =
     \<lparr>new_flow = False, is_retransmit = False, is_out_of_order = False, is_dup_ack = False,
      dup_ack_count = 0, zero_window_edge = False, rtt_sample_ns = None,
      handshake_refused = False, established_now = False, delta_rst = False,
      delta_service = None\<rparr>"

record globals =
  rst_rate :: rolling_rate
  new_flow_rate :: rolling_rate
  half_open :: "(endpoint, u32) hash_map"

definition globals_new :: globals where
  "globals_new =
     \<lparr>rst_rate = rolling_rate_new 1, new_flow_rate = rolling_rate_new 1, half_open = []\<rparr>"

definition half_open_for :: "globals \<Rightarrow> endpoint \<Rightarrow> u32" where
  "half_open_for g ep = (case map_of (half_open g) ep of None \<Rightarrow> 0 | Some c \<Rightarrow> c)"

definition half_open_max :: "globals \<Rightarrow> u32" where
  "half_open_max g = fold max (map snd (half_open g)) 0"

record engine_state =
  es_cfg :: detect_config
  flows :: "(flow_key, flow_state) hash_map"
  es_globals :: globals

definition engine_state_new :: "detect_config \<Rightarrow> engine_state" where
  "engine_state_new c = \<lparr>es_cfg = c, flows = [], es_globals = globals_new\<rparr>"

section \<open>Reading a packet\<close>

definition endpoints :: "packet_meta \<Rightarrow> endpoint \<times> endpoint" where
  "endpoints pkt = (case pkt_dir pkt of
      Forward \<Rightarrow> (low (pkt_key pkt), high (pkt_key pkt))
    | Reverse \<Rightarrow> (high (pkt_key pkt), low (pkt_key pkt)))"

definition guess_service :: "packet_meta \<Rightarrow> endpoint" where
  "guess_service pkt =
     (let (src, dst) = endpoints pkt in
      if pkt_proto pkt = Tcp \<and> is_syn_only (pkt_flags pkt) then dst
      else if ep_port dst \<le> ep_port src then dst else src)"

definition seq_diff :: "u32 \<Rightarrow> u32 \<Rightarrow> int" where
  "seq_diff a expected = sint (a - expected)"

definition ns_to_secs_f64 :: "u64 \<Rightarrow> f64" where
  "ns_to_secs_f64 ns = f64_div (f64_of_nat (unat ns)) (f64_of_nat (unat NS_PER_SEC))"

section \<open>The blocks of update\<close>

type_synonym step_state = "flow_state \<times> globals \<times> packet_delta"

definition half_open_incr :: "endpoint \<Rightarrow> globals \<Rightarrow> globals" where
  "half_open_incr ep g = g\<lparr>half_open := AList.update ep (half_open_for g ep + 1) (half_open g)\<rparr>"

definition half_open_decr :: "endpoint \<Rightarrow> globals \<Rightarrow> globals" where
  "half_open_decr ep g = (case map_of (half_open g) ep of
      None \<Rightarrow> g
    | Some c \<Rightarrow> g\<lparr>half_open := AList.update ep (saturating_sub c 1) (half_open g)\<rparr>)"

definition clear_half_open :: "flow_state \<Rightarrow> globals \<Rightarrow> flow_state \<times> globals" where
  "clear_half_open f g =
     (if half_open_counted f
      then (f\<lparr>half_open_counted := False\<rparr>, half_open_decr (fs_service f) g) else (f, g))"

definition syn_only_step :: "packet_meta \<Rightarrow> step_state \<Rightarrow> step_state" where
  "syn_only_step pkt s =
     (let (f, g, d) = s; di = dir_index (pkt_dir pkt);
          (f1, g1) =
            (if syn_time_ns f = None then
               let f' = f\<lparr>syn_time_ns := Some (ts_nanos pkt), fs_state := SynSent\<rparr> in
               if \<not> half_open_counted f'
               then (f'\<lparr>half_open_counted := True\<rparr>, half_open_incr (fs_service f') g)
               else (f', g)
             else (f, g))
      in (f1\<lparr>next_seq := (next_seq f1)[di := Some (pkt_seq pkt + 1)]\<rparr>, g1, d))"

definition syn_ack_step :: "packet_meta \<Rightarrow> step_state \<Rightarrow> step_state" where
  "syn_ack_step pkt s =
     (let (f, g, d) = s; now = ts_nanos pkt; di = dir_index (pkt_dir pkt);
          f1 = f\<lparr>synack_time_ns := Some now, fs_state := SynAckSeen\<rparr>;
          (f2, d2) = (case syn_time_ns f1 of
              Some t \<Rightarrow> let rtt = saturating_sub now t in
                (f1\<lparr>rtt_ns := Some rtt\<rparr>, d\<lparr>rtt_sample_ns := Some rtt\<rparr>)
            | None \<Rightarrow> (f1, d))
      in (f2\<lparr>next_seq := (next_seq f2)[di := Some (pkt_seq pkt + 1)]\<rparr>, g, d2))"

definition rst_step :: "packet_meta \<Rightarrow> step_state \<Rightarrow> step_state" where
  "rst_step pkt s =
     (let (f, g, d) = s;
          d1 = d\<lparr>delta_rst := True\<rparr>;
          g1 = g\<lparr>rst_rate := rr_record (ts_nanos pkt) (rst_rate g)\<rparr>;
          d2 = (if fs_state f \<in> {SynSent, SynAckSeen} then d1\<lparr>handshake_refused := True\<rparr> else d1);
          (f2, g2) = clear_half_open (f\<lparr>fs_state := Reset\<rparr>) g1
      in (f2, g2, d2))"

definition establish_step :: "packet_meta \<Rightarrow> step_state \<Rightarrow> step_state" where
  "establish_step pkt s =
     (let (f, g, d) = s in
      if fs_state f = SynAckSeen \<and> ack (pkt_flags pkt) then
        let (f1, g1) = clear_half_open (f\<lparr>fs_state := Established, fs_established := True\<rparr>) g
        in (f1, g1, d\<lparr>established_now := True\<rparr>)
      else s)"

definition fin_step :: "packet_meta \<Rightarrow> step_state \<Rightarrow> step_state" where
  "fin_step pkt s =
     (let (f, g, d) = s in
      if fin (pkt_flags pkt) then
        let (f1, g1) = clear_half_open (f\<lparr>fs_state := Closing\<rparr>) g in (f1, g1, d)
      else s)"

definition zero_window_step :: "packet_meta \<Rightarrow> step_state \<Rightarrow> step_state" where
  "zero_window_step pkt s =
     (let (f, g, d) = s; di = dir_index (pkt_dir pkt) in
      if fs_established f \<or> fs_state f = Closing then
        let was_zero = zero_window f ! di;
            now_zero = (pkt_window pkt = 0);
            d1 = (if now_zero \<and> \<not> was_zero then d\<lparr>zero_window_edge := True\<rparr> else d)
        in (f\<lparr>zero_window := (zero_window f)[di := now_zero]\<rparr>, g, d1)
      else s)"

definition data_step :: "packet_meta \<Rightarrow> step_state \<Rightarrow> step_state" where
  "data_step pkt s =
     (let (f, g, d) = s; di = dir_index (pkt_dir pkt) in
      if payload_len pkt > 0 then
        let f1 = f\<lparr>data_segments := data_segments f + 1\<rparr>;
            seg_end = pkt_seq pkt + payload_len pkt
        in (case next_seq f1 ! di of
              Some nxt \<Rightarrow>
                let diff = seq_diff (pkt_seq pkt) nxt;
                    (f2, d2) =
                      (if diff < 0 then (f1\<lparr>retransmits := retransmits f1 + 1\<rparr>, d\<lparr>is_retransmit := True\<rparr>)
                       else if diff > 0 then (f1, d\<lparr>is_out_of_order := True\<rparr>)
                       else (f1, d));
                    f3 = (if seq_diff seg_end nxt > 0
                          then f2\<lparr>next_seq := (next_seq f2)[di := Some seg_end]\<rparr> else f2)
                in (f3, g, d2)
            | None \<Rightarrow> (f1\<lparr>next_seq := (next_seq f1)[di := Some seg_end]\<rparr>, g, d))
      else s)"

definition dup_ack_step :: "packet_meta \<Rightarrow> step_state \<Rightarrow> step_state" where
  "dup_ack_step pkt s =
     (let (f, g, d) = s; di = dir_index (pkt_dir pkt); fl = pkt_flags pkt in
      if ack fl \<and> payload_len pkt = 0 \<and> \<not> syn fl \<and> \<not> fin fl then
        (if last_ack f ! di = Some (pkt_ack pkt) then
           let n = fs_dup_ack_count f ! di + 1 in
           (f\<lparr>fs_dup_ack_count := (fs_dup_ack_count f)[di := n]\<rparr>, g,
            d\<lparr>is_dup_ack := True, dup_ack_count := n\<rparr>)
         else
           (f\<lparr>last_ack := (last_ack f)[di := Some (pkt_ack pkt)],
              fs_dup_ack_count := (fs_dup_ack_count f)[di := 0]\<rparr>, g, d))
      else s)"

definition other_step :: "packet_meta \<Rightarrow> step_state \<Rightarrow> step_state" where
  "other_step pkt s =
     dup_ack_step pkt (data_step pkt (zero_window_step pkt (fin_step pkt (establish_step pkt s))))"

definition tcp_step :: "packet_meta \<Rightarrow> step_state \<Rightarrow> step_state" where
  "tcp_step pkt s =
     (let fl = pkt_flags pkt in
      if is_syn_only fl then syn_only_step pkt s
      else if is_syn_ack fl then syn_ack_step pkt s
      else if rst fl then rst_step pkt s
      else other_step pkt s)"

section \<open>Update\<close>

text \<open>The flow a packet starts from: the stored one, or a fresh one, which also records the
  new-flow rate.\<close>

definition lookup_or_insert :: "engine_state \<Rightarrow> packet_meta \<Rightarrow> step_state" where
  "lookup_or_insert es pkt = (case map_of (flows es) (pkt_key pkt) of
      Some f \<Rightarrow> (f, es_globals es, packet_delta_default)
    | None \<Rightarrow>
        (flow_state_new (pkt_proto pkt) (ts_nanos pkt) (guess_service pkt),
         (es_globals es)\<lparr>new_flow_rate := rr_record (ts_nanos pkt) (new_flow_rate (es_globals es))\<rparr>,
         packet_delta_default\<lparr>new_flow := True\<rparr>))"

definition update :: "engine_state \<Rightarrow> packet_meta \<Rightarrow> engine_state \<times> flow_key \<times> packet_delta" where
  "update es pkt =
     (let (f0, g0, d0) = lookup_or_insert es pkt;
          f1 = f0\<lparr>last_seen_ns := ts_nanos pkt\<rparr>;
          (f, g, d) = (if pkt_proto pkt = Tcp then tcp_step pkt (f1, g0, d0) else (f1, g0, d0))
      in (es\<lparr>flows := AList.update (pkt_key pkt) f (flows es), es_globals := g\<rparr>,
          pkt_key pkt, d\<lparr>delta_service := Some (fs_service f)\<rparr>))"

lemmas step_defs = syn_only_step_def syn_ack_step_def rst_step_def establish_step_def fin_step_def
  zero_window_step_def data_step_def dup_ack_step_def

section \<open>Half-open accounting of one flow\<close>

text \<open>
  The counter of a service is read as \<open>others ep\<close>, what the rest of the table contributes, plus
  the contribution of the flow at hand. Every block keeps that reading.
\<close>

definition contrib :: "flow_state \<Rightarrow> endpoint \<Rightarrow> nat" where
  "contrib f ep = (if half_open_counted f \<and> fs_service f = ep then 1 else 0)"

definition acct :: "(endpoint \<Rightarrow> nat) \<Rightarrow> flow_state \<Rightarrow> globals \<Rightarrow> bool" where
  "acct others f g \<longleftrightarrow> (\<forall>ep. unat (half_open_for g ep) = others ep + contrib f ep)"

definition below_cap :: "(endpoint \<Rightarrow> nat) \<Rightarrow> bool" where
  "below_cap others \<longleftrightarrow> (\<forall>ep. Suc (others ep) < 2 ^ 32)"

lemma below_capI:
  assumes "\<And>ep. others ep \<le> n" "n < 2 ^ 32 - 1"
  shows "below_cap others"
  unfolding below_cap_def
proof
  fix ep
  from assms(1) [of ep] assms(2) show "Suc (others ep) < 2 ^ 32" by simp
qed

lemma half_open_for_update:
  "half_open_for (g\<lparr>half_open := AList.update s c (half_open g)\<rparr>) ep
     = (if ep = s then c else half_open_for g ep)"
  by (simp add: half_open_for_def map_of_update)

lemma half_open_for_cong [simp]:
  "half_open_for (g\<lparr>rst_rate := r\<rparr>) ep = half_open_for g ep"
  "half_open_for (g\<lparr>new_flow_rate := r\<rparr>) ep = half_open_for g ep"
  by (simp_all add: half_open_for_def)

lemma half_open_for_incr:
  "half_open_for (half_open_incr s g) ep = half_open_for g ep + (if ep = s then 1 else 0)"
  by (simp add: half_open_incr_def half_open_for_update)

lemma half_open_for_decr:
  "half_open_for (half_open_decr s g) ep
     = (if ep = s then saturating_sub (half_open_for g ep) 1 else half_open_for g ep)"
  by (auto simp: half_open_decr_def half_open_for_update split: option.splits)
    (simp_all add: half_open_for_def saturating_sub_def)

lemma unat_half_open_decr:
  "unat (half_open_for (half_open_decr s g) ep)
     = unat (half_open_for g ep) - (if ep = s then 1 else 0)"
  by (simp add: half_open_for_decr sat_simps)

lemma acct_cong:
  "acct others f g \<Longrightarrow> half_open_counted f' = half_open_counted f \<Longrightarrow> fs_service f' = fs_service f \<Longrightarrow>
   half_open g' = half_open g \<Longrightarrow> acct others f' g'"
  by (simp add: acct_def contrib_def half_open_for_def)

lemma acct_incr:
  assumes "acct others f g" "below_cap others" "\<not> half_open_counted f" "half_open_counted f'"
    "fs_service f' = fs_service f"
  shows "acct others f' (half_open_incr (fs_service f) g)"
proof -
  have "unat (half_open_for g ep) = others ep" for ep
    using assms(1,3) by (simp add: acct_def contrib_def)
  moreover have "Suc (others ep) < 2 ^ 32" for ep
    using assms(2) by (simp add: below_cap_def)
  ultimately have "unat (half_open_for g ep + 1) = Suc (others ep)" for ep
    using unat_Suc_word [of "half_open_for g ep"] by simp
  with assms(4,5) \<open>\<And>ep. unat (half_open_for g ep) = others ep\<close> show ?thesis
    by (auto simp: acct_def contrib_def half_open_for_incr)
qed

lemma clear_half_open_eq:
  "clear_half_open f g =
     (f\<lparr>half_open_counted := False\<rparr>, if half_open_counted f then half_open_decr (fs_service f) g else g)"
  by (cases f) (simp add: clear_half_open_def)

lemma half_open_decr_frame [simp]:
  "rst_rate (half_open_decr s g) = rst_rate g" "new_flow_rate (half_open_decr s g) = new_flow_rate g"
  "keys_distinct (half_open (half_open_decr s g)) = keys_distinct (half_open g)"
  by (simp_all add: half_open_decr_def split: option.splits)

lemma half_open_incr_frame [simp]:
  "rst_rate (half_open_incr s g) = rst_rate g" "new_flow_rate (half_open_incr s g) = new_flow_rate g"
  "keys_distinct (half_open (half_open_incr s g)) = keys_distinct (half_open g)"
  by (simp_all add: half_open_incr_def)

lemma acct_clear:
  assumes "acct others f g"
  shows "acct others (f\<lparr>half_open_counted := False\<rparr>)
    (if half_open_counted f then half_open_decr (fs_service f) g else g)"
proof (cases "half_open_counted f")
  case True
  have "unat (half_open_for g ep) = others ep + (if ep = fs_service f then 1 else 0)" for ep
    using assms True by (auto simp: acct_def contrib_def)
  with True show ?thesis by (simp add: acct_def contrib_def unat_half_open_decr)
next
  case False
  with assms show ?thesis by (simp add: acct_def contrib_def)
qed

section \<open>The invariant of a flow\<close>

definition flow_wf :: "flow_state \<Rightarrow> bool" where
  "flow_wf f \<longleftrightarrow> length (next_seq f) = 2 \<and> length (last_ack f) = 2 \<and>
     length (fs_dup_ack_count f) = 2 \<and> length (zero_window f) = 2"

text \<open>What the handshake fields say of each other.\<close>

definition handshake_ok :: "flow_state \<Rightarrow> bool" where
  "handshake_ok f \<longleftrightarrow>
     (half_open_counted f \<longrightarrow> fs_state f \<in> {SynSent, SynAckSeen} \<and> syn_time_ns f \<noteq> None) \<and>
     (fs_state f = SynSent \<longrightarrow> syn_time_ns f \<noteq> None \<and> (half_open_counted f \<or> handshake_timeout_flagged f)) \<and>
     (fs_state f = Established \<longrightarrow> fs_established f) \<and>
     (fs_state f = New \<longrightarrow> syn_time_ns f = None)"

definition flow_inv :: "flow_state \<Rightarrow> bool" where
  "flow_inv f \<longleftrightarrow> flow_wf f \<and> handshake_ok f"

definition globals_wf :: "globals \<Rightarrow> bool" where
  "globals_wf g \<longleftrightarrow> rr_wf (rst_rate g) \<and> rr_wf (new_flow_rate g) \<and> keys_distinct (half_open g)"

lemma flow_inv_new: "flow_inv (flow_state_new p now s)"
  by (simp add: flow_inv_def flow_wf_def handshake_ok_def flow_state_new_def)

text \<open>A block keeps the flow invariant, the service, the ring shapes and the accounting.\<close>

definition step_keeps :: "(step_state \<Rightarrow> step_state) \<Rightarrow> bool" where
  "step_keeps h \<longleftrightarrow> (\<forall>f g d f' g' d' others. h (f, g, d) = (f', g', d') \<longrightarrow> flow_inv f \<longrightarrow> globals_wf g \<longrightarrow>
     flow_inv f' \<and> globals_wf g' \<and> fs_service f' = fs_service f \<and> last_seen_ns f' = last_seen_ns f \<and>
     (below_cap others \<longrightarrow> acct others f g \<longrightarrow> acct others f' g'))"

lemma step_keepsI:
  assumes "\<And>f g d f' g' d'. h (f, g, d) = (f', g', d') \<Longrightarrow> flow_inv f \<Longrightarrow> globals_wf g \<Longrightarrow>
      flow_inv f' \<and> globals_wf g' \<and> fs_service f' = fs_service f \<and> last_seen_ns f' = last_seen_ns f"
    and "\<And>f g d f' g' d' others. h (f, g, d) = (f', g', d') \<Longrightarrow> flow_inv f \<Longrightarrow> globals_wf g \<Longrightarrow>
      below_cap others \<Longrightarrow> acct others f g \<Longrightarrow> acct others f' g'"
  shows "step_keeps h"
  using assms unfolding step_keeps_def by blast

lemma step_keepsD:
  assumes "step_keeps h" "h (f, g, d) = (f', g', d')" "flow_inv f" "globals_wf g"
  shows "flow_inv f'" "globals_wf g'" "fs_service f' = fs_service f" "last_seen_ns f' = last_seen_ns f"
    "below_cap others \<Longrightarrow> acct others f g \<Longrightarrow> acct others f' g'"
  using assms unfolding step_keeps_def by blast+

lemma step_keeps_comp:
  assumes h: "step_keeps h" and k: "step_keeps k"
  shows "step_keeps (\<lambda>s. k (h s))"
proof (rule step_keepsI, goal_cases)
  case (1 f g d f' g' d')
  obtain f1 g1 d1 where s1: "h (f, g, d) = (f1, g1, d1)" by (cases "h (f, g, d)")
  from 1(1) have s2: "k (f1, g1, d1) = (f', g', d')" by (simp add: s1)
  note D = step_keepsD [OF h s1 1(2,3)]
  from D step_keepsD [OF k s2 D(1,2)] show ?case by simp
next
  case (2 f g d f' g' d' others)
  obtain f1 g1 d1 where s1: "h (f, g, d) = (f1, g1, d1)" by (cases "h (f, g, d)")
  from 2(1) have s2: "k (f1, g1, d1) = (f', g', d')" by (simp add: s1)
  note D = step_keepsD [OF h s1 2(2,3)]
  from step_keepsD(5) [OF k s2 D(1,2) 2(4)] D(5) [OF 2(4,5)] show ?case by simp
qed

lemmas inv_defs = flow_inv_def flow_wf_def handshake_ok_def globals_wf_def

lemma syn_only_keeps: "step_keeps (syn_only_step pkt)"
proof (rule step_keepsI, goal_cases)
  case (1 f g d f' g' d')
  show ?case
  proof (cases "syn_time_ns f = None")
    case True
    with 1(2) have "\<not> half_open_counted f" by (auto simp: inv_defs)
    with True 1(1) have "f' = f\<lparr>syn_time_ns := Some (ts_nanos pkt), fs_state := SynSent,
        half_open_counted := True,
        next_seq := (next_seq f)[dir_index (pkt_dir pkt) := Some (pkt_seq pkt + 1)]\<rparr>"
      "rst_rate g' = rst_rate g" "new_flow_rate g' = new_flow_rate g"
      "keys_distinct (half_open g') = keys_distinct (half_open g)"
      by (auto simp: syn_only_step_def)
    with 1(2,3) show ?thesis by (simp add: inv_defs)
  next
    case False
    with 1(1) have "f' = f\<lparr>next_seq := (next_seq f)[dir_index (pkt_dir pkt) := Some (pkt_seq pkt + 1)]\<rparr>"
      "g' = g" by (auto simp: syn_only_step_def)
    with 1(2,3) show ?thesis by (simp add: inv_defs)
  qed
next
  case (2 f g d f' g' d' others)
  then show ?case
    using acct_incr [of others f g f'] acct_cong [of others f g f' g']
    by (cases "syn_time_ns f = None"; cases "half_open_counted f") (auto simp: syn_only_step_def)
qed

lemma syn_ack_keeps: "step_keeps (syn_ack_step pkt)"
proof (rule step_keepsI, goal_cases)
  case (1 f g d f' g' d')
  then show ?case
    by (cases "syn_time_ns f") (clarsimp simp: syn_ack_step_def inv_defs Let_def)+
next
  case (2 f g d f' g' d' others)
  then show ?case
    using acct_cong [of others f g f' g']
    by (cases "syn_time_ns f") (auto simp: syn_ack_step_def Let_def)
qed

lemma rst_keeps: "step_keeps (rst_step pkt)"
proof (rule step_keepsI, goal_cases)
  case (1 f g d f' g' d')
  then have "f' = f\<lparr>fs_state := Reset, half_open_counted := False\<rparr>"
    "rst_rate g' = rr_record (ts_nanos pkt) (rst_rate g)" "new_flow_rate g' = new_flow_rate g"
      "keys_distinct (half_open g') = keys_distinct (half_open g)"
    by (auto simp: rst_step_def Let_def clear_half_open_eq split: if_splits)
  with 1(2,3) show ?case by (simp add: inv_defs rr_wf_record)
next
  case (2 f g d f' g' d' others)
  let ?f = "f\<lparr>fs_state := Reset\<rparr>" and ?g = "g\<lparr>rst_rate := rr_record (ts_nanos pkt) (rst_rate g)\<rparr>"
  have "acct others ?f ?g" by (rule acct_cong [OF 2(5)]) simp_all
  from acct_clear [OF this] 2(1) show ?case by (auto simp: rst_step_def Let_def clear_half_open_eq)
qed

lemma establish_keeps: "step_keeps (establish_step pkt)"
proof (rule step_keepsI, goal_cases)
  case (1 f g d f' g' d')
  show ?case
  proof (cases "fs_state f = SynAckSeen \<and> ack (pkt_flags pkt)")
    case True
    with 1(1) have "f' = f\<lparr>fs_state := Established, fs_established := True, half_open_counted := False\<rparr>"
      "rst_rate g' = rst_rate g" "new_flow_rate g' = new_flow_rate g"
      "keys_distinct (half_open g') = keys_distinct (half_open g)"
      by (auto simp: establish_step_def Let_def clear_half_open_eq split: if_splits)
    with 1(2,3) show ?thesis by (simp add: inv_defs)
  next
    case False
    with 1 show ?thesis by (auto simp: establish_step_def)
  qed
next
  case (2 f g d f' g' d' others)
  have "acct others (f\<lparr>fs_state := Established, fs_established := True\<rparr>) g"
    by (rule acct_cong [OF 2(5)]) simp_all
  from acct_clear [OF this] 2 show ?case
    by (cases "fs_state f = SynAckSeen \<and> ack (pkt_flags pkt)")
      (auto simp: establish_step_def Let_def clear_half_open_eq)
qed

lemma fin_keeps: "step_keeps (fin_step pkt)"
proof (rule step_keepsI, goal_cases)
  case (1 f g d f' g' d')
  show ?case
  proof (cases "fin (pkt_flags pkt)")
    case True
    with 1(1) have "f' = f\<lparr>fs_state := Closing, half_open_counted := False\<rparr>"
      "rst_rate g' = rst_rate g" "new_flow_rate g' = new_flow_rate g"
      "keys_distinct (half_open g') = keys_distinct (half_open g)"
      by (auto simp: fin_step_def Let_def clear_half_open_eq split: if_splits)
    with 1(2,3) show ?thesis by (simp add: inv_defs)
  next
    case False
    with 1 show ?thesis by (auto simp: fin_step_def)
  qed
next
  case (2 f g d f' g' d' others)
  have "acct others (f\<lparr>fs_state := Closing\<rparr>) g" by (rule acct_cong [OF 2(5)]) simp_all
  from acct_clear [OF this] 2 show ?case
    by (cases "fin (pkt_flags pkt)") (auto simp: fin_step_def Let_def clear_half_open_eq)
qed

text \<open>The three blocks after the handshake leave the handshake fields and the globals alone.\<close>

lemma step_keeps_frame:
  assumes "\<And>f g d f' g' d'. h (f, g, d) = (f', g', d') \<Longrightarrow>
      g' = g \<and> half_open_counted f' = half_open_counted f \<and> fs_service f' = fs_service f \<and>
      fs_state f' = fs_state f \<and> syn_time_ns f' = syn_time_ns f \<and> fs_established f' = fs_established f \<and>
      handshake_timeout_flagged f' = handshake_timeout_flagged f \<and> last_seen_ns f' = last_seen_ns f \<and>
      (flow_wf f \<longrightarrow> flow_wf f')"
  shows "step_keeps h"
proof (rule step_keepsI, goal_cases)
  case (1 f g d f' g' d')
  with assms [OF 1(1)] show ?case by (simp add: flow_inv_def handshake_ok_def)
next
  case (2 f g d f' g' d' others)
  from assms [OF 2(1)] show ?case by (intro acct_cong [OF 2(5)]) simp_all
qed

lemma zero_window_keeps: "step_keeps (zero_window_step pkt)"
  by (rule step_keeps_frame) (auto simp: zero_window_step_def flow_wf_def Let_def split: if_splits)

lemma data_keeps: "step_keeps (data_step pkt)"
  by (rule step_keeps_frame)
    (auto simp: data_step_def flow_wf_def Let_def split: if_splits option.splits)

lemma dup_ack_keeps: "step_keeps (dup_ack_step pkt)"
  by (rule step_keeps_frame) (auto simp: dup_ack_step_def flow_wf_def Let_def split: if_splits)

lemma other_keeps: "step_keeps (other_step pkt)"
proof -
  have "other_step pkt = (\<lambda>s. dup_ack_step pkt (data_step pkt (zero_window_step pkt (fin_step pkt
      (establish_step pkt s)))))"
    by (rule ext) (simp add: other_step_def)
  moreover note step_keeps_comp [OF establish_keeps step_keeps_comp [OF fin_keeps step_keeps_comp
      [OF zero_window_keeps step_keeps_comp [OF data_keeps dup_ack_keeps]]], of pkt]
  ultimately show ?thesis by simp
qed

lemma tcp_keeps: "step_keeps (tcp_step pkt)"
proof -
  have "tcp_step pkt = (if is_syn_only (pkt_flags pkt) then syn_only_step pkt
      else if is_syn_ack (pkt_flags pkt) then syn_ack_step pkt
      else if rst (pkt_flags pkt) then rst_step pkt else other_step pkt)"
    by (rule ext) (simp add: tcp_step_def)
  then show ?thesis by (simp add: syn_only_keeps syn_ack_keeps rst_keeps other_keeps)
qed

section \<open>The invariant of the flow table\<close>

text \<open>
  Keys are distinct, every flow is well-formed, the rings have their shape, and the counter of
  every service is the number of flows of the table that are counted as half-open for it.
\<close>

definition half_open_flows :: "(flow_key, flow_state) hash_map \<Rightarrow> endpoint \<Rightarrow> nat" where
  "half_open_flows m ep = count_entries (\<lambda>f. half_open_counted f \<and> fs_service f = ep) m"

definition es_inv :: "engine_state \<Rightarrow> bool" where
  "es_inv es \<longleftrightarrow> keys_distinct (flows es) \<and> (\<forall>k f. map_of (flows es) k = Some f \<longrightarrow> flow_inv f) \<and>
     globals_wf (es_globals es) \<and>
     (\<forall>ep. unat (half_open_for (es_globals es) ep) = half_open_flows (flows es) ep)"

lemma es_inv_new: "es_inv (engine_state_new c)"
  by (simp add: es_inv_def engine_state_new_def globals_new_def globals_wf_def rr_wf_new
      half_open_for_def half_open_flows_def)

lemma contrib_count: "(if half_open_counted f \<and> fs_service f = ep then 1 else 0) = contrib f ep"
  by (simp add: contrib_def)

lemma lookup_or_insert_acct:
  assumes inv: "es_inv es" and l: "lookup_or_insert es pkt = (f0, g0, d0)"
    and cap: "length (flows es) < 2 ^ 32 - 1"
  obtains others where "flow_inv f0" "globals_wf g0" "below_cap others" "acct others f0 g0"
    "\<And>f ep. half_open_flows (AList.update (pkt_key pkt) f (flows es)) ep = others ep + contrib f ep"
proof (cases "map_of (flows es) (pkt_key pkt)")
  case None
  define others where "others = half_open_flows (flows es)"
  have bound: "others ep \<le> length (flows es)" for ep
    by (simp add: others_def half_open_flows_def count_entries_le)
  have l': "f0 = flow_state_new (pkt_proto pkt) (ts_nanos pkt) (guess_service pkt)"
    "g0 = (es_globals es)\<lparr>new_flow_rate := rr_record (ts_nanos pkt) (new_flow_rate (es_globals es))\<rparr>"
    using l None by (simp_all add: lookup_or_insert_def)
  show thesis
  proof
    show "flow_inv f0" by (simp add: l' flow_inv_new)
    show "globals_wf g0" using inv by (simp add: l' es_inv_def globals_wf_def rr_wf_record)
    show "below_cap others" by (rule below_capI [OF bound cap])
    show "acct others f0 g0"
      using inv by (simp add: acct_def l' es_inv_def others_def contrib_def flow_state_new_def)
    show "half_open_flows (AList.update (pkt_key pkt) f (flows es)) ep = others ep + contrib f ep" for f ep
      using None by (simp add: half_open_flows_def others_def count_entries_update_new contrib_count)
  qed
next
  case (Some fl)
  define others where "others ep = half_open_flows (flows es) ep - contrib fl ep" for ep
  have kd: "keys_distinct (flows es)" using inv by (simp add: es_inv_def)
  have ge: "contrib fl ep \<le> half_open_flows (flows es) ep" for ep
    using count_entries_pos [OF Some, of "\<lambda>f. half_open_counted f \<and> fs_service f = ep"]
    by (auto simp: contrib_def half_open_flows_def Suc_le_eq)
  have bound: "others ep \<le> length (flows es)" for ep
    using count_entries_le [of _ "flows es"] unfolding others_def half_open_flows_def
    by (meson diff_le_self le_trans)
  have l': "f0 = fl" "g0 = es_globals es" using l Some by (simp_all add: lookup_or_insert_def)
  show thesis
  proof
    show "flow_inv f0" "globals_wf g0" using inv Some by (auto simp: l' es_inv_def)
    show "below_cap others" by (rule below_capI [OF bound cap])
    show "acct others f0 g0" using inv ge by (simp add: acct_def l' es_inv_def others_def)
    show "half_open_flows (AList.update (pkt_key pkt) f (flows es)) ep = others ep + contrib f ep" for f ep
      using count_entries_update_old [OF kd Some, of "\<lambda>f. half_open_counted f \<and> fs_service f = ep" f] ge [of ep]
      by (simp add: half_open_flows_def others_def contrib_count)
  qed
qed

lemma update_inv:
  assumes inv: "es_inv es" and cap: "length (flows es) < 2 ^ 32 - 1"
    and u: "update es pkt = (es', k, d)"
  shows "es_inv es'"
proof -
  obtain f0 g0 d0 where l: "lookup_or_insert es pkt = (f0, g0, d0)"
    by (cases "lookup_or_insert es pkt")
  obtain others where o: "flow_inv f0" "globals_wf g0" "below_cap others" "acct others f0 g0"
    "\<And>f ep. half_open_flows (AList.update (pkt_key pkt) f (flows es)) ep = others ep + contrib f ep"
    using lookup_or_insert_acct [OF inv l cap] by metis
  let ?f1 = "f0\<lparr>last_seen_ns := ts_nanos pkt\<rparr>"
  have f1: "flow_inv ?f1" "acct others ?f1 g0"
    using o(1) by (simp add: inv_defs, intro acct_cong [OF o(4)]) simp_all
  obtain f g dd where s: "(if pkt_proto pkt = Tcp then tcp_step pkt (?f1, g0, d0) else (?f1, g0, d0)) = (f, g, dd)"
    by (cases "if pkt_proto pkt = Tcp then tcp_step pkt (?f1, g0, d0) else (?f1, g0, d0)")
  have res: "flow_inv f" "globals_wf g" "acct others f g"
    using s f1 o(2,3) step_keepsD [OF tcp_keeps _ f1(1) o(2), of pkt d0 f g dd]
    by (auto split: if_splits)
  from u l s have es': "es' = es\<lparr>flows := AList.update (pkt_key pkt) f (flows es), es_globals := g\<rparr>"
    by (auto simp: update_def)
  show ?thesis using inv res o(5)
    by (auto simp: es_inv_def es' map_of_update acct_def split: if_splits)
qed

section \<open>What each block does to the fields it owns\<close>

named_theorems step_frame \<open>fields a block leaves alone\<close>

lemma establish_frame [step_frame]:
  "next_seq (fst (establish_step p s)) = next_seq (fst s)"
  "retransmits (fst (establish_step p s)) = retransmits (fst s)"
  "data_segments (fst (establish_step p s)) = data_segments (fst s)"
  "last_ack (fst (establish_step p s)) = last_ack (fst s)"
  "fs_dup_ack_count (fst (establish_step p s)) = fs_dup_ack_count (fst s)"
  "zero_window (fst (establish_step p s)) = zero_window (fst s)"
  "syn_time_ns (fst (establish_step p s)) = syn_time_ns (fst s)"
  "new_flow (snd (snd (establish_step p s))) = new_flow (snd (snd s))"
  "is_retransmit (snd (snd (establish_step p s))) = is_retransmit (snd (snd s))"
  "is_out_of_order (snd (snd (establish_step p s))) = is_out_of_order (snd (snd s))"
  "is_dup_ack (snd (snd (establish_step p s))) = is_dup_ack (snd (snd s))"
  "dup_ack_count (snd (snd (establish_step p s))) = dup_ack_count (snd (snd s))"
  "zero_window_edge (snd (snd (establish_step p s))) = zero_window_edge (snd (snd s))"
  "rtt_sample_ns (snd (snd (establish_step p s))) = rtt_sample_ns (snd (snd s))"
  "handshake_refused (snd (snd (establish_step p s))) = handshake_refused (snd (snd s))"
  "delta_rst (snd (snd (establish_step p s))) = delta_rst (snd (snd s))"
  by (cases s; simp add: establish_step_def Let_def clear_half_open_eq split: option.split prod.split)+

lemma fin_frame [step_frame]:
  "next_seq (fst (fin_step p s)) = next_seq (fst s)"
  "retransmits (fst (fin_step p s)) = retransmits (fst s)"
  "data_segments (fst (fin_step p s)) = data_segments (fst s)"
  "last_ack (fst (fin_step p s)) = last_ack (fst s)"
  "fs_dup_ack_count (fst (fin_step p s)) = fs_dup_ack_count (fst s)"
  "zero_window (fst (fin_step p s)) = zero_window (fst s)"
  "syn_time_ns (fst (fin_step p s)) = syn_time_ns (fst s)"
  "fs_established (fst (fin_step p s)) = fs_established (fst s)"
  "new_flow (snd (snd (fin_step p s))) = new_flow (snd (snd s))"
  "is_retransmit (snd (snd (fin_step p s))) = is_retransmit (snd (snd s))"
  "is_out_of_order (snd (snd (fin_step p s))) = is_out_of_order (snd (snd s))"
  "is_dup_ack (snd (snd (fin_step p s))) = is_dup_ack (snd (snd s))"
  "dup_ack_count (snd (snd (fin_step p s))) = dup_ack_count (snd (snd s))"
  "zero_window_edge (snd (snd (fin_step p s))) = zero_window_edge (snd (snd s))"
  "rtt_sample_ns (snd (snd (fin_step p s))) = rtt_sample_ns (snd (snd s))"
  "handshake_refused (snd (snd (fin_step p s))) = handshake_refused (snd (snd s))"
  "established_now (snd (snd (fin_step p s))) = established_now (snd (snd s))"
  "delta_rst (snd (snd (fin_step p s))) = delta_rst (snd (snd s))"
  by (cases s; simp add: fin_step_def Let_def clear_half_open_eq split: option.split prod.split)+

lemma zero_window_frame [step_frame]:
  "next_seq (fst (zero_window_step p s)) = next_seq (fst s)"
  "retransmits (fst (zero_window_step p s)) = retransmits (fst s)"
  "data_segments (fst (zero_window_step p s)) = data_segments (fst s)"
  "last_ack (fst (zero_window_step p s)) = last_ack (fst s)"
  "fs_dup_ack_count (fst (zero_window_step p s)) = fs_dup_ack_count (fst s)"
  "syn_time_ns (fst (zero_window_step p s)) = syn_time_ns (fst s)"
  "fs_state (fst (zero_window_step p s)) = fs_state (fst s)"
  "fs_established (fst (zero_window_step p s)) = fs_established (fst s)"
  "new_flow (snd (snd (zero_window_step p s))) = new_flow (snd (snd s))"
  "is_retransmit (snd (snd (zero_window_step p s))) = is_retransmit (snd (snd s))"
  "is_out_of_order (snd (snd (zero_window_step p s))) = is_out_of_order (snd (snd s))"
  "is_dup_ack (snd (snd (zero_window_step p s))) = is_dup_ack (snd (snd s))"
  "dup_ack_count (snd (snd (zero_window_step p s))) = dup_ack_count (snd (snd s))"
  "rtt_sample_ns (snd (snd (zero_window_step p s))) = rtt_sample_ns (snd (snd s))"
  "handshake_refused (snd (snd (zero_window_step p s))) = handshake_refused (snd (snd s))"
  "established_now (snd (snd (zero_window_step p s))) = established_now (snd (snd s))"
  "delta_rst (snd (snd (zero_window_step p s))) = delta_rst (snd (snd s))"
  by (cases s; simp add: zero_window_step_def Let_def clear_half_open_eq split: option.split prod.split)+

lemma data_frame [step_frame]:
  "last_ack (fst (data_step p s)) = last_ack (fst s)"
  "fs_dup_ack_count (fst (data_step p s)) = fs_dup_ack_count (fst s)"
  "zero_window (fst (data_step p s)) = zero_window (fst s)"
  "syn_time_ns (fst (data_step p s)) = syn_time_ns (fst s)"
  "fs_state (fst (data_step p s)) = fs_state (fst s)"
  "fs_established (fst (data_step p s)) = fs_established (fst s)"
  "new_flow (snd (snd (data_step p s))) = new_flow (snd (snd s))"
  "is_dup_ack (snd (snd (data_step p s))) = is_dup_ack (snd (snd s))"
  "dup_ack_count (snd (snd (data_step p s))) = dup_ack_count (snd (snd s))"
  "zero_window_edge (snd (snd (data_step p s))) = zero_window_edge (snd (snd s))"
  "rtt_sample_ns (snd (snd (data_step p s))) = rtt_sample_ns (snd (snd s))"
  "handshake_refused (snd (snd (data_step p s))) = handshake_refused (snd (snd s))"
  "established_now (snd (snd (data_step p s))) = established_now (snd (snd s))"
  "delta_rst (snd (snd (data_step p s))) = delta_rst (snd (snd s))"
  by (cases s; simp add: data_step_def Let_def clear_half_open_eq split: option.split prod.split)+

lemma dup_ack_frame [step_frame]:
  "next_seq (fst (dup_ack_step p s)) = next_seq (fst s)"
  "retransmits (fst (dup_ack_step p s)) = retransmits (fst s)"
  "data_segments (fst (dup_ack_step p s)) = data_segments (fst s)"
  "zero_window (fst (dup_ack_step p s)) = zero_window (fst s)"
  "syn_time_ns (fst (dup_ack_step p s)) = syn_time_ns (fst s)"
  "fs_state (fst (dup_ack_step p s)) = fs_state (fst s)"
  "fs_established (fst (dup_ack_step p s)) = fs_established (fst s)"
  "new_flow (snd (snd (dup_ack_step p s))) = new_flow (snd (snd s))"
  "is_retransmit (snd (snd (dup_ack_step p s))) = is_retransmit (snd (snd s))"
  "is_out_of_order (snd (snd (dup_ack_step p s))) = is_out_of_order (snd (snd s))"
  "zero_window_edge (snd (snd (dup_ack_step p s))) = zero_window_edge (snd (snd s))"
  "rtt_sample_ns (snd (snd (dup_ack_step p s))) = rtt_sample_ns (snd (snd s))"
  "handshake_refused (snd (snd (dup_ack_step p s))) = handshake_refused (snd (snd s))"
  "established_now (snd (snd (dup_ack_step p s))) = established_now (snd (snd s))"
  "delta_rst (snd (snd (dup_ack_step p s))) = delta_rst (snd (snd s))"
  by (cases s; simp add: dup_ack_step_def Let_def clear_half_open_eq split: option.split prod.split)+

end
