(* ===== verification/Flow_Behaviour.thy ===== *)
theory Flow_Behaviour
  imports Flow_Table
begin

text \<open>
  What \<^const>\<open>update\<close> reports: each field of the packet delta as a function of the packet and of
  the flow it met, and the behaviour over whole runs of packets (in-order streams, duplicate
  acknowledgements, handshakes). The TCP state machine is stated as an inductive step relation
  that the code refines.
\<close>

section \<open>The flow before and after a packet\<close>

definition pre_flow :: "engine_state \<Rightarrow> packet_meta \<Rightarrow> flow_state" where
  "pre_flow es pkt = (case map_of (flows es) (pkt_key pkt) of
      Some f \<Rightarrow> f | None \<Rightarrow> flow_state_new (pkt_proto pkt) (ts_nanos pkt) (guess_service pkt))"

definition delta_of :: "engine_state \<Rightarrow> packet_meta \<Rightarrow> packet_delta" where
  "delta_of es pkt = snd (snd (update es pkt))"

definition next_state :: "engine_state \<Rightarrow> packet_meta \<Rightarrow> engine_state" where
  "next_state es pkt = fst (update es pkt)"

definition start_delta :: "engine_state \<Rightarrow> packet_meta \<Rightarrow> packet_delta" where
  "start_delta es pkt = packet_delta_default\<lparr>new_flow := (map_of (flows es) (pkt_key pkt) = None)\<rparr>"

definition start_globals :: "engine_state \<Rightarrow> packet_meta \<Rightarrow> globals" where
  "start_globals es pkt = (if map_of (flows es) (pkt_key pkt) = None
     then (es_globals es)\<lparr>new_flow_rate := rr_record (ts_nanos pkt) (new_flow_rate (es_globals es))\<rparr>
     else es_globals es)"

definition tcp_result :: "engine_state \<Rightarrow> packet_meta \<Rightarrow> step_state" where
  "tcp_result es pkt =
     (let s = ((pre_flow es pkt)\<lparr>last_seen_ns := ts_nanos pkt\<rparr>, start_globals es pkt, start_delta es pkt)
      in if pkt_proto pkt = Tcp then tcp_step pkt s else s)"

lemma lookup_or_insert_eq:
  "lookup_or_insert es pkt = (pre_flow es pkt, start_globals es pkt, start_delta es pkt)"
  by (simp add: lookup_or_insert_def pre_flow_def start_globals_def start_delta_def
      packet_delta_default_def split: option.split)

lemma update_eq:
  "update es pkt =
     (es\<lparr>flows := AList.update (pkt_key pkt) (fst (tcp_result es pkt)) (flows es),
         es_globals := fst (snd (tcp_result es pkt))\<rparr>,
      pkt_key pkt, (snd (snd (tcp_result es pkt)))\<lparr>delta_service := Some (fs_service (fst (tcp_result es pkt)))\<rparr>)"
  by (simp add: update_def lookup_or_insert_eq tcp_result_def Let_def split: prod.split)

lemma map_of_next_state:
  "map_of (flows (next_state es pkt)) k =
     (if k = pkt_key pkt then Some (fst (tcp_result es pkt)) else map_of (flows es) k)"
  by (simp add: next_state_def update_eq map_of_update)

lemma delta_of_eq:
  "delta_of es pkt = (snd (snd (tcp_result es pkt)))
     \<lparr>delta_service := Some (fs_service (fst (tcp_result es pkt)))\<rparr>"
  by (simp add: delta_of_def update_eq)

text \<open>A segment of the main branch of the code: TCP, neither SYN nor RST.\<close>

definition plain_seg :: "packet_meta \<Rightarrow> bool" where
  "plain_seg pkt \<longleftrightarrow> pkt_proto pkt = Tcp \<and> \<not> syn (pkt_flags pkt) \<and> \<not> rst (pkt_flags pkt)"

lemma tcp_result_plain:
  "plain_seg pkt \<Longrightarrow> tcp_result es pkt = other_step pkt
     ((pre_flow es pkt)\<lparr>last_seen_ns := ts_nanos pkt\<rparr>, start_globals es pkt, start_delta es pkt)"
  by (simp add: tcp_result_def plain_seg_def tcp_step_def is_syn_only_def is_syn_ack_def)

text \<open>Off that branch the four data flags stay clear.\<close>

lemma handshake_branch_frame:
  assumes "\<not> plain_seg pkt"
  shows "is_retransmit (snd (snd (tcp_result es pkt))) = False"
    "is_out_of_order (snd (snd (tcp_result es pkt))) = False"
    "is_dup_ack (snd (snd (tcp_result es pkt))) = False"
    "zero_window_edge (snd (snd (tcp_result es pkt))) = False"
    "established_now (snd (snd (tcp_result es pkt))) = False"
  using assms
  by (auto simp: tcp_result_def plain_seg_def tcp_step_def start_delta_def packet_delta_default_def
      syn_only_step_def syn_ack_step_def rst_step_def is_syn_only_def is_syn_ack_def Let_def
      split: option.split prod.split)

section \<open>Sequence numbers\<close>

lemma seq_diff_range: "- (2 ^ 31) \<le> seq_diff a b" "seq_diff a b < 2 ^ 31"
  using sint_ge [of "a - b"] sint_lt [of "a - b"] by (simp_all add: seq_diff_def)

lemma seq_diff_0_iff [simp]: "seq_diff a b = 0 \<longleftrightarrow> a = b"
  by (simp add: seq_diff_def signed_eq_0_iff)

lemma seq_diff_self [simp]: "seq_diff a a = 0"
  by simp

lemma sint_of_nat_small: "n < 2 ^ 31 \<Longrightarrow> sint (of_nat n :: u32) = int n"
  by (simp add: signed_of_nat signed_take_bit_int_eq_self)

lemma seq_diff_ahead: "n < 2 ^ 31 \<Longrightarrow> seq_diff (b + of_nat n) b = int n"
  by (simp add: seq_diff_def sint_of_nat_small)

lemma seq_diff_behind: "0 < n \<Longrightarrow> n \<le> 2 ^ 31 \<Longrightarrow> seq_diff (b - of_nat n) b = - int n"
proof -
  assume n: "0 < n" "n \<le> 2 ^ 31"
  have "seq_diff (b - of_nat n) b = sint (word_of_int (- int n) :: u32)"
    by (simp add: seq_diff_def)
  also have "\<dots> = - int n"
    using n by (subst sint_sbintrunc', subst signed_take_bit_int_eq_self) auto
  finally show ?thesis .
qed

lemma seq_diff_word_ahead:
  "unat len < 2 ^ 31 \<Longrightarrow> seq_diff (b + len) b = int (unat len)"
  using seq_diff_ahead [of "unat len" b] by simp

section \<open>Data segments\<close>

abbreviation expected :: "flow_state \<Rightarrow> packet_meta \<Rightarrow> u32 option" where
  "expected f pkt \<equiv> next_seq f ! dir_index (pkt_dir pkt)"

lemma data_retransmit:
  "is_retransmit (snd (snd (data_step p s))) \<longleftrightarrow> is_retransmit (snd (snd s)) \<or>
     0 < payload_len p \<and> (\<exists>nxt. expected (fst s) p = Some nxt \<and> seq_diff (pkt_seq p) nxt < 0)"
  by (cases s) (auto simp: data_step_def Let_def split: option.split)

lemma data_out_of_order:
  "is_out_of_order (snd (snd (data_step p s))) \<longleftrightarrow> is_out_of_order (snd (snd s)) \<or>
     0 < payload_len p \<and> (\<exists>nxt. expected (fst s) p = Some nxt \<and> 0 < seq_diff (pkt_seq p) nxt)"
  by (cases s) (auto simp: data_step_def Let_def split: option.split)

lemma data_counts:
  "data_segments (fst (data_step p s)) = data_segments (fst s) + (if 0 < payload_len p then 1 else 0)"
  "retransmits (fst (data_step p s)) = retransmits (fst s) +
     (if 0 < payload_len p \<and> (\<exists>nxt. expected (fst s) p = Some nxt \<and> seq_diff (pkt_seq p) nxt < 0) then 1 else 0)"
  by (cases s; auto simp: data_step_def Let_def split: option.split)+

definition advance :: "u32 option \<Rightarrow> packet_meta \<Rightarrow> u32 option" where
  "advance e p =
     (let seg_end = pkt_seq p + payload_len p in
      if payload_len p = 0 then e
      else case e of None \<Rightarrow> Some seg_end
           | Some nxt \<Rightarrow> Some (if 0 < seq_diff seg_end nxt then seg_end else nxt))"

lemma list_update_noop: "xs ! i = x \<Longrightarrow> xs[i := x] = xs"
  by auto

lemma data_next_seq:
  "length (next_seq (fst s)) = 2 \<Longrightarrow>
   next_seq (fst (data_step p s)) = (next_seq (fst s))[dir_index (pkt_dir p) := advance (expected (fst s) p) p]"
  by (cases s; cases "pkt_dir p")
    (auto simp: data_step_def advance_def Let_def list_update_noop word_gt_0 split: option.split)

lemma other_data:
  "is_retransmit (snd (snd (other_step p s))) = is_retransmit (snd (snd (data_step p s)))"
  "is_out_of_order (snd (snd (other_step p s))) = is_out_of_order (snd (snd (data_step p s)))"
  "data_segments (fst (other_step p s)) = data_segments (fst (data_step p s))"
  "retransmits (fst (other_step p s)) = retransmits (fst (data_step p s))"
  by (simp_all add: other_step_def step_frame data_retransmit data_out_of_order data_counts)

lemma other_next_seq:
  "length (next_seq (fst s)) = 2 \<Longrightarrow>
   next_seq (fst (other_step p s)) = (next_seq (fst s))[dir_index (pkt_dir p) := advance (expected (fst s) p) p]"
  by (simp add: other_step_def step_frame data_next_seq)

lemma retransmit_char:
  "is_retransmit (delta_of es pkt) \<longleftrightarrow> plain_seg pkt \<and> 0 < payload_len pkt \<and>
     (\<exists>nxt. expected (pre_flow es pkt) pkt = Some nxt \<and> seq_diff (pkt_seq pkt) nxt < 0)"
  by (cases "plain_seg pkt")
    (auto simp: delta_of_eq tcp_result_plain handshake_branch_frame other_data data_retransmit
      start_delta_def packet_delta_default_def)

lemma out_of_order_char:
  "is_out_of_order (delta_of es pkt) \<longleftrightarrow> plain_seg pkt \<and> 0 < payload_len pkt \<and>
     (\<exists>nxt. expected (pre_flow es pkt) pkt = Some nxt \<and> 0 < seq_diff (pkt_seq pkt) nxt)"
  by (cases "plain_seg pkt")
    (auto simp: delta_of_eq tcp_result_plain handshake_branch_frame other_data data_out_of_order
      start_delta_def packet_delta_default_def)

section \<open>Streams of data segments\<close>

fun run_updates :: "engine_state \<Rightarrow> packet_meta list \<Rightarrow> engine_state \<times> packet_delta list" where
  "run_updates es [] = (es, [])"
| "run_updates es (p # ps) =
     (let (es', ds) = run_updates (next_state es p) ps in (es', delta_of es p # ds))"

text \<open>A data stream on one side of one flow: every segment starts where the previous one ended,
  modulo \<open>2 ^ 32\<close>.\<close>

definition data_seg :: "flow_key \<Rightarrow> direction \<Rightarrow> packet_meta \<Rightarrow> bool" where
  "data_seg k dr p \<longleftrightarrow> pkt_key p = k \<and> pkt_dir p = dr \<and> plain_seg p \<and>
     0 < payload_len p \<and> unat (payload_len p) < 2 ^ 31"

fun contiguous :: "u32 \<Rightarrow> packet_meta list \<Rightarrow> bool" where
  "contiguous s [] = True"
| "contiguous s (p # ps) = (pkt_seq p = s \<and> contiguous (s + payload_len p) ps)"

definition tracked :: "engine_state \<Rightarrow> flow_key \<Rightarrow> direction \<Rightarrow> u32 \<Rightarrow> bool" where
  "tracked es k dr s \<longleftrightarrow>
     (\<exists>f. map_of (flows es) k = Some f \<and> length (next_seq f) = 2 \<and> next_seq f ! dir_index dr = Some s)"

lemma pre_flow_present: "map_of (flows es) (pkt_key p) = Some f \<Longrightarrow> pre_flow es p = f"
  by (simp add: pre_flow_def)

lemma dir_index_less [simp]: "dir_index dr < 2"
  by (cases dr) auto

lemma plain_next_seq:
  "plain_seg p \<Longrightarrow> length (next_seq (pre_flow es p)) = 2 \<Longrightarrow>
   next_seq (fst (tcp_result es p)) =
     (next_seq (pre_flow es p))[dir_index (pkt_dir p) := advance (expected (pre_flow es p) p) p]"
  by (simp add: tcp_result_plain other_next_seq)

lemma tracked_step:
  assumes tr: "tracked es k dr s" and p: "data_seg k dr p" "pkt_seq p = s"
  shows "tracked (next_state es p) k dr (s + payload_len p)"
    and "\<not> is_retransmit (delta_of es p)" "\<not> is_out_of_order (delta_of es p)"
proof -
  from tr obtain f where f: "map_of (flows es) k = Some f" "length (next_seq f) = 2"
    "next_seq f ! dir_index dr = Some s" by (auto simp: tracked_def)
  from p have k: "pkt_key p = k" "pkt_dir p = dr" "plain_seg p" "0 < payload_len p"
    "unat (payload_len p) < 2 ^ 31" by (simp_all add: data_seg_def)
  have pre: "pre_flow es p = f" using f k by (simp add: pre_flow_present)
  have pos: "0 < seq_diff (s + payload_len p) s"
    using k(4,5) by (simp add: seq_diff_word_ahead word_less_def)
  then have "advance (Some s) p = Some (s + payload_len p)"
    using k(4) p(2) by (simp add: advance_def word_gt_0)
  then show "tracked (next_state es p) k dr (s + payload_len p)"
    using f k pre by (simp add: tracked_def map_of_next_state plain_next_seq)
  show "\<not> is_retransmit (delta_of es p)" "\<not> is_out_of_order (delta_of es p)"
    using f k p pre by (simp_all add: retransmit_char out_of_order_char)
qed

lemma in_order_run:
  assumes "tracked es k dr s" "list_all (data_seg k dr) ps" "contiguous s ps"
    "run_updates es ps = (es', ds)"
  shows "list_all (\<lambda>d. \<not> is_retransmit d \<and> \<not> is_out_of_order d) ds"
    and "tracked es' k dr (s + sum_list (map payload_len ps))"
  using assms
proof (induction ps arbitrary: es s ds)
  case Nil
  { case 1 then show ?case by simp next case 2 then show ?case by simp }
next
  case (Cons p ps)
  { case 1
    then obtain ds' where r: "run_updates (next_state es p) ps = (es', ds')" "ds = delta_of es p # ds'"
      by (auto split: prod.splits)
    from 1 tracked_step [of es k dr s p] Cons.IH(1) [OF _ _ _ r(1)] show ?case
      by (simp add: r(2)) }
  { case 2
    then obtain ds' where r: "run_updates (next_state es p) ps = (es', ds')" "ds = delta_of es p # ds'"
      by (auto split: prod.splits)
    from 2 tracked_step [of es k dr s p] Cons.IH(2) [OF _ _ _ r(1), of "s + payload_len p"]
    have "tracked es' k dr (s + payload_len p + sum_list (map payload_len ps))" by simp
    then show ?case by (simp add: add.assoc) }
qed

text \<open>The expected sequence number only moves forward in the circular order.\<close>

lemma advance_forward: "advance (Some a) p = Some b \<Longrightarrow> 0 \<le> seq_diff b a"
  by (auto simp: advance_def Let_def split: if_splits)

section \<open>Duplicate acknowledgements\<close>

definition bare_ack :: "packet_meta \<Rightarrow> bool" where
  "bare_ack p \<longleftrightarrow> plain_seg p \<and> ack (pkt_flags p) \<and> \<not> fin (pkt_flags p) \<and> payload_len p = 0"

abbreviation acked :: "flow_state \<Rightarrow> packet_meta \<Rightarrow> u32 option" where
  "acked f p \<equiv> last_ack f ! dir_index (pkt_dir p)"

abbreviation dup_run :: "flow_state \<Rightarrow> packet_meta \<Rightarrow> u32" where
  "dup_run f p \<equiv> fs_dup_ack_count f ! dir_index (pkt_dir p)"

lemma dup_ack_block:
  assumes "plain_seg p"
  shows "is_dup_ack (snd (snd (dup_ack_step p s))) \<longleftrightarrow>
      is_dup_ack (snd (snd s)) \<or> bare_ack p \<and> acked (fst s) p = Some (pkt_ack p)"
    "dup_ack_count (snd (snd (dup_ack_step p s))) =
      (if bare_ack p \<and> acked (fst s) p = Some (pkt_ack p) then dup_run (fst s) p + 1
       else dup_ack_count (snd (snd s)))"
    "last_ack (fst (dup_ack_step p s)) =
      (if bare_ack p then (last_ack (fst s))[dir_index (pkt_dir p) := Some (pkt_ack p)] else last_ack (fst s))"
    "fs_dup_ack_count (fst (dup_ack_step p s)) =
      (if bare_ack p then (fs_dup_ack_count (fst s))[dir_index (pkt_dir p) :=
         (if acked (fst s) p = Some (pkt_ack p) then dup_run (fst s) p + 1 else 0)]
       else fs_dup_ack_count (fst s))"
  using assms
  by (cases s; auto simp: dup_ack_step_def bare_ack_def plain_seg_def Let_def list_update_noop)+

lemma other_dup_ack:
  "is_dup_ack (snd (snd (other_step p s))) = is_dup_ack (snd (snd (dup_ack_step p s)))"
  "dup_ack_count (snd (snd (other_step p s))) = dup_ack_count (snd (snd (dup_ack_step p s)))"
  "last_ack (fst (other_step p s)) = last_ack (fst (dup_ack_step p s))"
  "fs_dup_ack_count (fst (other_step p s)) = fs_dup_ack_count (fst (dup_ack_step p s))"
  if "plain_seg p"
  using that by (simp_all add: other_step_def step_frame dup_ack_block)

lemma dup_ack_char:
  "is_dup_ack (delta_of es p) \<longleftrightarrow> bare_ack p \<and> acked (pre_flow es p) p = Some (pkt_ack p)"
  by (cases "plain_seg p")
    (auto simp: delta_of_eq tcp_result_plain handshake_branch_frame other_dup_ack dup_ack_block
      bare_ack_def start_delta_def packet_delta_default_def)

lemma dup_ack_count_char:
  "is_dup_ack (delta_of es p) \<Longrightarrow> dup_ack_count (delta_of es p) = dup_run (pre_flow es p) p + 1"
  by (cases "plain_seg p")
    (auto simp: delta_of_eq tcp_result_plain handshake_branch_frame other_dup_ack dup_ack_block
      start_delta_def packet_delta_default_def)

lemma bare_ack_flow:
  assumes "bare_ack p"
  shows "last_ack (fst (tcp_result es p)) = (last_ack (pre_flow es p))[dir_index (pkt_dir p) := Some (pkt_ack p)]"
    "fs_dup_ack_count (fst (tcp_result es p)) = (fs_dup_ack_count (pre_flow es p))[dir_index (pkt_dir p) :=
       (if acked (pre_flow es p) p = Some (pkt_ack p) then dup_run (pre_flow es p) p + 1 else 0)]"
  using assms by (simp_all add: bare_ack_def tcp_result_plain other_dup_ack dup_ack_block)

text \<open>A run of acknowledgements of one value on one side of one flow: the first sets the
  baseline, and the \<open>i\<close>-th after it is reported as the \<open>i\<close>-th duplicate.\<close>

definition ack_of :: "flow_key \<Rightarrow> direction \<Rightarrow> u32 \<Rightarrow> packet_meta \<Rightarrow> bool" where
  "ack_of k dr a p \<longleftrightarrow> pkt_key p = k \<and> pkt_dir p = dr \<and> bare_ack p \<and> pkt_ack p = a"

definition ack_state :: "engine_state \<Rightarrow> flow_key \<Rightarrow> direction \<Rightarrow> u32 \<Rightarrow> nat \<Rightarrow> bool" where
  "ack_state es k dr a n \<longleftrightarrow> (\<exists>f. map_of (flows es) k = Some f \<and> length (last_ack f) = 2 \<and>
     length (fs_dup_ack_count f) = 2 \<and> last_ack f ! dir_index dr = Some a \<and>
     fs_dup_ack_count f ! dir_index dr = of_nat n)"

lemma ack_state_step:
  assumes "ack_state es k dr a n" "ack_of k dr a p"
  shows "ack_state (next_state es p) k dr a (Suc n)"
    and "is_dup_ack (delta_of es p)" "dup_ack_count (delta_of es p) = of_nat (Suc n)"
proof -
  from assms obtain f where f: "map_of (flows es) k = Some f" "length (last_ack f) = 2"
    "length (fs_dup_ack_count f) = 2" "last_ack f ! dir_index dr = Some a"
    "fs_dup_ack_count f ! dir_index dr = of_nat n" and p: "pkt_key p = k" "pkt_dir p = dr" "bare_ack p" "pkt_ack p = a"
    by (auto simp: ack_state_def ack_of_def)
  have pre: "pre_flow es p = f" using f p by (simp add: pre_flow_present)
  show "ack_state (next_state es p) k dr a (Suc n)"
    using f p pre by (simp add: ack_state_def map_of_next_state bare_ack_flow add.commute)
  show d: "is_dup_ack (delta_of es p)" using f p pre by (simp add: dup_ack_char)
  show "dup_ack_count (delta_of es p) = of_nat (Suc n)"
    using f p pre by (simp add: dup_ack_count_char [OF d] add.commute)
qed

lemma ack_run:
  assumes "ack_state es k dr a n" "list_all (ack_of k dr a) ps" "run_updates es ps = (es', ds)"
    "i < length ps"
  shows "is_dup_ack (ds ! i) \<and> dup_ack_count (ds ! i) = of_nat (Suc (n + i))"
  using assms
proof (induction ps arbitrary: es n i ds)
  case Nil
  then show ?case by simp
next
  case (Cons p ps)
  then obtain ds' where r: "run_updates (next_state es p) ps = (es', ds')" "ds = delta_of es p # ds'"
    by (auto split: prod.splits)
  from Cons.prems ack_state_step [of es k dr a n p]
  have st: "ack_state (next_state es p) k dr a (Suc n)" "is_dup_ack (delta_of es p)"
    "dup_ack_count (delta_of es p) = of_nat (Suc n)" by simp_all
  show ?case
  proof (cases i)
    case 0
    with st r show ?thesis by simp
  next
    case (Suc j)
    with Cons.IH [OF st(1) _ r(1), of j] Cons.prems r show ?thesis by simp
  qed
qed

lemma ack_baseline:
  assumes "ack_of k dr a p" "acked (pre_flow es p) p \<noteq> Some a"
    "length (last_ack (pre_flow es p)) = 2" "length (fs_dup_ack_count (pre_flow es p)) = 2"
  shows "ack_state (next_state es p) k dr a 0" "\<not> is_dup_ack (delta_of es p)"
  using assms by (auto simp: ack_of_def ack_state_def map_of_next_state bare_ack_flow dup_ack_char)

section \<open>Zero windows\<close>

abbreviation stalled :: "flow_state \<Rightarrow> packet_meta \<Rightarrow> bool" where
  "stalled f p \<equiv> zero_window f ! dir_index (pkt_dir p)"

text \<open>After the handshake blocks a connection is active when it was established before, is
  established by this very segment, or is closing.\<close>

definition active_after :: "flow_state \<Rightarrow> packet_meta \<Rightarrow> bool" where
  "active_after f p \<longleftrightarrow> fs_established f \<or> fs_state f = Closing \<or> fin (pkt_flags p) \<or>
     fs_state f = SynAckSeen \<and> ack (pkt_flags p)"

lemma zero_window_block:
  "zero_window_edge (snd (snd (zero_window_step p s))) \<longleftrightarrow> zero_window_edge (snd (snd s)) \<or>
     (fs_established (fst s) \<or> fs_state (fst s) = Closing) \<and> pkt_window p = 0 \<and> \<not> stalled (fst s) p"
  "zero_window (fst (zero_window_step p s)) =
     (if fs_established (fst s) \<or> fs_state (fst s) = Closing
      then (zero_window (fst s))[dir_index (pkt_dir p) := (pkt_window p = 0)] else zero_window (fst s))"
  by (cases s; auto simp: zero_window_step_def Let_def)+

lemma handshake_blocks_state:
  "fs_established (fst (establish_step p s)) \<longleftrightarrow>
     fs_established (fst s) \<or> fs_state (fst s) = SynAckSeen \<and> ack (pkt_flags p)"
  "fs_state (fst (fin_step p (establish_step p s))) =
     (if fin (pkt_flags p) then Closing
      else if fs_state (fst s) = SynAckSeen \<and> ack (pkt_flags p) then Established else fs_state (fst s))"
  by (cases s; auto simp: fin_step_def establish_step_def Let_def clear_half_open_eq)+

lemma zero_window_char:
  "zero_window_edge (delta_of es p) \<longleftrightarrow> plain_seg p \<and> active_after (pre_flow es p) p \<and>
     pkt_window p = 0 \<and> \<not> stalled (pre_flow es p) p"
  by (cases "plain_seg p")
    (auto simp: delta_of_eq tcp_result_plain handshake_branch_frame other_step_def step_frame
      zero_window_block handshake_blocks_state active_after_def start_delta_def packet_delta_default_def)

section \<open>The connection state machine\<close>

text \<open>
  The abstract machine keeps the TCP state and whether a SYN has been seen. A SYN counts only
  once, a SYN-ACK always moves to \<^const>\<open>SynAckSeen\<close>, a reset always to \<^const>\<open>Reset\<close>, and
  \<^const>\<open>Established\<close> is entered by an acknowledgement after a SYN-ACK and in no other way.
\<close>

type_synonym conn = "tcp_state \<times> bool"

inductive conn_step :: "tcp_flags \<Rightarrow> conn \<Rightarrow> conn \<Rightarrow> bool" where
  first_syn: "is_syn_only fl \<Longrightarrow> conn_step fl (st, False) (SynSent, True)"
| repeat_syn: "is_syn_only fl \<Longrightarrow> conn_step fl (st, True) (st, True)"
| syn_ack: "is_syn_ack fl \<Longrightarrow> conn_step fl (st, b) (SynAckSeen, b)"
| reset: "\<not> syn fl \<Longrightarrow> rst fl \<Longrightarrow> conn_step fl (st, b) (Reset, b)"
| close: "\<not> syn fl \<Longrightarrow> \<not> rst fl \<Longrightarrow> fin fl \<Longrightarrow> conn_step fl (st, b) (Closing, b)"
| establish: "\<not> syn fl \<Longrightarrow> \<not> rst fl \<Longrightarrow> \<not> fin fl \<Longrightarrow> ack fl \<Longrightarrow>
    conn_step fl (SynAckSeen, b) (Established, b)"
| stay: "\<not> syn fl \<Longrightarrow> \<not> rst fl \<Longrightarrow> \<not> fin fl \<Longrightarrow> \<not> (st = SynAckSeen \<and> ack fl) \<Longrightarrow>
    conn_step fl (st, b) (st, b)"

inductive_cases conn_stepE: "conn_step fl c c'"
inductive_simps conn_step_Established: "conn_step fl c (Established, b)"

definition conn_of :: "flow_state \<Rightarrow> conn" where
  "conn_of f = (fs_state f, syn_time_ns f \<noteq> None)"

lemma conn_step_deterministic: "conn_step fl c c1 \<Longrightarrow> conn_step fl c c2 \<Longrightarrow> c1 = c2"
  by (erule conn_stepE; erule conn_stepE) (auto simp: is_syn_only_def is_syn_ack_def)

lemma conn_step_total: "\<exists>c'. conn_step fl c c'"
proof -
  obtain st b where c: "c = (st, b)" by (cases c)
  consider "is_syn_only fl" "b" | "is_syn_only fl" "\<not> b" | "is_syn_ack fl" | "\<not> syn fl" "rst fl"
    | "\<not> syn fl" "\<not> rst fl" "fin fl" | "\<not> syn fl" "\<not> rst fl" "\<not> fin fl" "st = SynAckSeen \<and> ack fl"
    | "\<not> syn fl" "\<not> rst fl" "\<not> fin fl" "\<not> (st = SynAckSeen \<and> ack fl)"
    by (auto simp: is_syn_only_def is_syn_ack_def)
  then show ?thesis
  proof cases
    case 1 then show ?thesis using repeat_syn [of fl st] c by auto
  next
    case 2 then show ?thesis using first_syn [of fl st] c by auto
  next
    case 3 then show ?thesis using syn_ack [of fl st b] c by auto
  next
    case 4 then show ?thesis using reset [of fl st b] c by auto
  next
    case 5 then show ?thesis using close [of fl st b] c by auto
  next
    case 6 then show ?thesis using establish [of fl b] c by auto
  next
    case 7 then show ?thesis using stay [of fl st b] c by auto
  qed
qed

lemma other_step_conn:
  "conn_of (fst (other_step p s)) =
     ((if fin (pkt_flags p) then Closing
       else if fs_state (fst s) = SynAckSeen \<and> ack (pkt_flags p) then Established else fs_state (fst s)),
      syn_time_ns (fst s) \<noteq> None)"
  by (simp add: conn_of_def other_step_def step_frame handshake_blocks_state)

lemma tcp_step_conn: "conn_step (pkt_flags p) (conn_of (fst s)) (conn_of (fst (tcp_step p s)))"
proof -
  obtain f g d where s: "s = (f, g, d)" by (cases s)
  consider "is_syn_only (pkt_flags p)" | "is_syn_ack (pkt_flags p)" "\<not> is_syn_only (pkt_flags p)"
    | "\<not> syn (pkt_flags p)" "rst (pkt_flags p)" | "\<not> syn (pkt_flags p)" "\<not> rst (pkt_flags p)"
    by (auto simp: is_syn_only_def is_syn_ack_def)
  then show ?thesis
  proof cases
    case 1
    then show ?thesis
      by (cases "syn_time_ns f")
        (auto simp: s tcp_step_def syn_only_step_def conn_of_def Let_def intro: first_syn repeat_syn)
  next
    case 2
    then show ?thesis
      by (cases "syn_time_ns f") (auto simp: s tcp_step_def syn_ack_step_def conn_of_def Let_def intro: syn_ack)
  next
    case 3
    then show ?thesis
      by (auto simp: s tcp_step_def rst_step_def conn_of_def clear_half_open_eq Let_def is_syn_only_def
          is_syn_ack_def intro: reset)
  next
    case 4
    then have "tcp_step p s = other_step p s"
      by (simp add: tcp_step_def is_syn_only_def is_syn_ack_def)
    with 4 show ?thesis
      unfolding other_step_conn [of p s, folded \<open>tcp_step p s = other_step p s\<close>]
      by (auto simp: conn_of_def intro: close establish stay)
  qed
qed

lemma update_conn:
  "pkt_proto p = Tcp \<Longrightarrow>
   conn_step (pkt_flags p) (conn_of (pre_flow es p)) (conn_of (fst (tcp_result es p)))"
  using tcp_step_conn [of p "((pre_flow es p)\<lparr>last_seen_ns := ts_nanos p\<rparr>, start_globals es p, start_delta es p)"]
  by (simp add: tcp_result_def conn_of_def)

section \<open>Properties\<close>

text \<open>Segments of one example connection, for the witnesses.\<close>

definition example_key :: flow_key where
  "example_key = \<lparr>low = \<lparr>ep_ip = V4 0x0A000001, ep_port = 5000\<rparr>, high = \<lparr>ep_ip = V4 0x0A000002, ep_port = 80\<rparr>,
     key_proto = Tcp\<rparr>"

definition example_packet :: "u64 \<Rightarrow> direction \<Rightarrow> u8 \<Rightarrow> u32 \<Rightarrow> u32 \<Rightarrow> u32 \<Rightarrow> packet_meta" where
  "example_packet ts dr flags sq ak plen =
     \<lparr>ts_nanos = ts, pkt_key = example_key, pkt_dir = dr, pkt_proto = Tcp, pkt_flags = TcpFlags flags, pkt_seq = sq,
      pkt_ack = ak, pkt_window = 64240, payload_len = plen, pkt_ttl = 64, pkt_iface = 0\<rparr>"

lemma example_packet_fields [simp]:
  "ts_nanos (example_packet ts dr fl sq ak pl) = ts" "pkt_key (example_packet ts dr fl sq ak pl) = example_key"
  "pkt_dir (example_packet ts dr fl sq ak pl) = dr" "pkt_proto (example_packet ts dr fl sq ak pl) = Tcp"
  "pkt_flags (example_packet ts dr fl sq ak pl) = TcpFlags fl" "pkt_seq (example_packet ts dr fl sq ak pl) = sq"
  "pkt_ack (example_packet ts dr fl sq ak pl) = ak" "payload_len (example_packet ts dr fl sq ak pl) = pl"
  by (simp_all add: example_packet_def)

lemma flows_new [simp]: "flows (engine_state_new cfg) = []"
  by (simp add: engine_state_new_def)

text \<open>C4: how a segment is classified. It is reported as a retransmission exactly when it carries data, is
  neither a SYN nor a reset, and starts before the next sequence number expected in its direction, in
  the 32-bit circular order of TCP; and as out of order exactly when it starts beyond that number.\<close>

theorem data_segment_classified:
  "(is_retransmit (snd (snd (update es pkt))) \<longleftrightarrow>
     pkt_proto pkt = Tcp \<and> \<not> syn (pkt_flags pkt) \<and> \<not> rst (pkt_flags pkt) \<and> 0 < payload_len pkt \<and>
     (\<exists>nxt. next_seq (pre_flow es pkt) ! dir_index (pkt_dir pkt) = Some nxt \<and> sint (pkt_seq pkt - nxt) < 0)) \<and>
   (is_out_of_order (snd (snd (update es pkt))) \<longleftrightarrow>
     pkt_proto pkt = Tcp \<and> \<not> syn (pkt_flags pkt) \<and> \<not> rst (pkt_flags pkt) \<and> 0 < payload_len pkt \<and>
     (\<exists>nxt. next_seq (pre_flow es pkt) ! dir_index (pkt_dir pkt) = Some nxt \<and> 0 < sint (pkt_seq pkt - nxt)))"
  using retransmit_char [of es pkt] out_of_order_char [of es pkt]
  unfolding delta_of_def plain_seg_def seq_diff_def by blast

text \<open>C5: a stream of segments in order, each starting where the one before ended, is never reported as
  retransmitted or out of order, across the wrap-around of sequence numbers, and the expected number
  ends where the stream does.\<close>

theorem contiguous_stream_clean:
  assumes "tracked es k dr s" "list_all (data_seg k dr) ps" "contiguous s ps"
  shows "list_all (\<lambda>d. \<not> is_retransmit d \<and> \<not> is_out_of_order d) (snd (run_updates es ps)) \<and>
    tracked (fst (run_updates es ps)) k dr (s + sum_list (map payload_len ps))"
  using in_order_run [OF assms, of "fst (run_updates es ps)" "snd (run_updates es ps)"] by simp

theorem contiguous_stream_clean_witness:
  "list_all (\<lambda>d. \<not> is_retransmit d \<and> \<not> is_out_of_order d) (snd (run_updates
     (next_state (engine_state_new default_detect) (example_packet 1 Forward ACK 0xFFFFFFF0 7 8))
     [example_packet 2 Forward ACK 0xFFFFFFF8 7 16, example_packet 3 Forward ACK 8 7 100]))"
proof -
  let ?p = "example_packet 1 Forward ACK 0xFFFFFFF0 7 8"
  let ?ps = "[example_packet 2 Forward ACK 0xFFFFFFF8 7 16, example_packet 3 Forward ACK 8 7 100]"
  have seg: "plain_seg (example_packet t dr ACK sq ak n)" for t dr sq ak n
    by (simp add: plain_seg_def flag_defs)
  have "tracked (next_state (engine_state_new default_detect) ?p) example_key Forward 0xFFFFFFF8"
    using plain_next_seq [OF seg, of "engine_state_new default_detect" 1 Forward "0xFFFFFFF0" 7 8]
    by (simp add: tracked_def map_of_next_state pre_flow_def flow_state_new_def advance_def)
  moreover have "list_all (data_seg example_key Forward) ?ps" by (simp add: data_seg_def seg)
  moreover have "contiguous 0xFFFFFFF8 ?ps" by simp
  ultimately show ?thesis using contiguous_stream_clean by blast
qed

text \<open>C19: after a first acknowledgement of a value, the bare acknowledgements of the same value on the
  same side count up from one: the i-th of them is the i-th duplicate.\<close>

theorem duplicate_acks_counted:
  assumes "ack_of k dr a p" "last_ack (pre_flow es p) ! dir_index dr \<noteq> Some a" "flow_wf (pre_flow es p)"
    "list_all (ack_of k dr a) ps" "i < length ps"
  shows "\<not> is_dup_ack (snd (snd (update es p))) \<and>
    is_dup_ack (snd (run_updates (fst (update es p)) ps) ! i) \<and>
    dup_ack_count (snd (run_updates (fst (update es p)) ps) ! i) = of_nat (Suc i)"
proof -
  have "pkt_dir p = dr" using assms(1) by (simp add: ack_of_def)
  then have b: "ack_state (next_state es p) k dr a 0" "\<not> is_dup_ack (delta_of es p)"
    using assms(2,3) by (intro ack_baseline [OF assms(1)]; simp add: flow_wf_def)+
  from ack_run [OF b(1) assms(4) _ assms(5), of "fst (run_updates (next_state es p) ps)"] b(2) show ?thesis
    by (simp add: next_state_def delta_of_def)
qed

theorem duplicate_acks_counted_witness:
  "dup_ack_count (snd (run_updates (fst (update (engine_state_new default_detect) (example_packet 1 Reverse ACK 9 200 0)))
     [example_packet 2 Reverse ACK 9 200 0, example_packet 3 Reverse ACK 9 200 0, example_packet 4 Reverse ACK 9 200 0]) ! 2) = 3"
proof -
  have a: "ack_of example_key Reverse 200 (example_packet t Reverse ACK 9 200 0)" for t
    by (simp add: ack_of_def bare_ack_def plain_seg_def flag_defs)
  show ?thesis
    using duplicate_acks_counted [OF a, of "engine_state_new default_detect" 1
        "[example_packet 2 Reverse ACK 9 200 0, example_packet 3 Reverse ACK 9 200 0, example_packet 4 Reverse ACK 9 200 0]" 2]
    by (simp add: a pre_flow_def flow_state_new_def flow_wf_def)
qed

text \<open>C20: a stall is reported exactly on the packet that closes the window of its side: on a connection
  that is or becomes established or closing, an advertised window of zero that was not zero before.\<close>

theorem zero_window_edge_iff:
  "zero_window_edge (snd (snd (update es p))) \<longleftrightarrow> plain_seg p \<and> active_after (pre_flow es p) p \<and>
     pkt_window p = 0 \<and> \<not> zero_window (pre_flow es p) ! dir_index (pkt_dir p)"
  using zero_window_char [of es p] unfolding delta_of_def by blast

text \<open>C14: the tracking of a connection refines the state machine of TCP as seen by an observer: the
  transition of the machine on the flags of the packet is the step the flow takes, and the only one.\<close>

theorem connection_state_refines:
  assumes "pkt_proto p = Tcp"
  shows "conn_step (pkt_flags p) (conn_of (pre_flow es p)) c \<longleftrightarrow>
    map_option conn_of (map_of (flows (fst (update es p))) (pkt_key p)) = Some c"
proof -
  have "map_option conn_of (map_of (flows (fst (update es p))) (pkt_key p)) = Some (conn_of (fst (tcp_result es p)))"
    using map_of_next_state [of es p "pkt_key p"] by (simp add: next_state_def)
  moreover have "conn_step (pkt_flags p) (conn_of (pre_flow es p)) c \<longleftrightarrow> c = conn_of (fst (tcp_result es p))"
    using update_conn [OF assms, of es] conn_step_deterministic by metis
  ultimately show ?thesis by auto
qed

theorem connection_state_refines_witness:
  "conn_step (TcpFlags SYN) (New, False) (SynSent, True) \<longleftrightarrow>
   map_option conn_of (map_of (flows (fst (update (engine_state_new default_detect) (example_packet 1 Forward SYN 5 0 0))))
     example_key) = Some (SynSent, True)"
  using connection_state_refines [of "example_packet 1 Forward SYN 5 0 0" "engine_state_new default_detect" "(SynSent, True)"]
  by (simp add: pre_flow_def flow_state_new_def conn_of_def)

end
