(* ===== verification/Detectors.thy ===== *)
theory Detectors
  imports Flow_Behaviour
begin

text \<open>
  \<^verbatim>\<open>l4scope-detect/src/detectors.rs\<close>: the nine rules of the default chain. A detector is a
  constructor with its private state; \<open>inspect\<close> returns the detector with its new state and at
  most one event. The interface \<open>Detector\<close> is the locale \<open>detector_iface\<close>, and what the engine
  does with a chain is proved once inside it.
\<close>

section \<open>Context and debounce\<close>

record detect_ctx =
  ctx_state :: engine_state
  ctx_key :: flow_key
  ctx_delta :: packet_delta
  ctx_now :: u64

definition ctx_flow :: "detect_ctx \<Rightarrow> flow_state option" where
  "ctx_flow c = map_of (flows (ctx_state c)) (ctx_key c)"

definition ctx_cfg :: "detect_ctx \<Rightarrow> detect_config" where
  "ctx_cfg c = es_cfg (ctx_state c)"

definition ctx_globals :: "detect_ctx \<Rightarrow> globals" where
  "ctx_globals c = es_globals (ctx_state c)"

record debounce =
  last_ns :: u64
  gap_ns :: u64

definition debounce_new :: "u64 \<Rightarrow> debounce" where
  "debounce_new gap_secs = \<lparr>last_ns = 0, gap_ns = gap_secs * 1000000000\<rparr>"

definition ready :: "debounce \<Rightarrow> u64 \<Rightarrow> debounce \<times> bool" where
  "ready b now =
     (if saturating_sub now (last_ns b) \<ge> gap_ns b \<or> last_ns b = 0
      then (b\<lparr>last_ns := now\<rparr>, True) else (b, False))"

section \<open>The rules\<close>

definition inspect_retransmission :: "detect_ctx \<Rightarrow> l4_event option" where
  "inspect_retransmission c =
     (if \<not> is_retransmit (ctx_delta c) then None
      else case ctx_flow c of
        None \<Rightarrow> None
      | Some f \<Rightarrow>
          (let ratio = retransmit_ratio f in
           if f64_lt ratio (retransmit_ratio_warn (ctx_cfg c)) then None
           else Some (l4_event_new (ctx_now c) Retransmission Warning (ctx_key c) ratio
             (''TCP retransmissions on '' @ show_flow_key (ctx_key c) @ '': '' @
              show_nat (unat (retransmits f)) @ ''/'' @ show_nat (unat (data_segments f)) @
              '' segments ('' @ fmt_fixed 1 (f64_mul ratio (f64_of_rat 100)) @ ''% loss/retx)''))))"

definition inspect_out_of_order :: "detect_ctx \<Rightarrow> l4_event option" where
  "inspect_out_of_order c =
     (if \<not> is_out_of_order (ctx_delta c) then None
      else Some (l4_event_new (ctx_now c) OutOfOrder Info (ctx_key c) (f64_of_rat 1)
        (''Out-of-order / gap in segment stream on '' @ show_flow_key (ctx_key c))))"

definition inspect_dup_ack :: "detect_ctx \<Rightarrow> l4_event option" where
  "inspect_dup_ack c =
     (let d = ctx_delta c in
      if is_dup_ack d \<and> dup_ack_count d = dup_ack_threshold (ctx_cfg c)
      then Some (l4_event_new (ctx_now c) DuplicateAck Warning (ctx_key c)
        (f64_of_nat (unat (dup_ack_count d)))
        (show_nat (unat (dup_ack_count d)) @ '' duplicate ACKs on '' @ show_flow_key (ctx_key c) @
         '' (fast-retransmit / loss signal)''))
      else None)"

definition inspect_zero_window :: "detect_ctx \<Rightarrow> l4_event option" where
  "inspect_zero_window c =
     (if \<not> zero_window_edge (ctx_delta c) then None
      else Some (l4_event_new (ctx_now c) ZeroWindow Warning (ctx_key c) (f64_of_rat 0)
        (''Zero receive window on '' @ show_flow_key (ctx_key c) @ '' '' @
         [CHR 0xE2, CHR 0x80, CHR 0x94] @ '' receiver stalled / app not draining'')))"

definition inspect_high_rtt :: "detect_ctx \<Rightarrow> l4_event option" where
  "inspect_high_rtt c = (case rtt_sample_ns (ctx_delta c) of
      None \<Rightarrow> None
    | Some rtt \<Rightarrow>
        (let rtt_ms = f64_mul (ns_to_secs_f64 rtt) (f64_of_rat 1000); warn = rtt_warn_ms (ctx_cfg c) in
         if f64_lt rtt_ms warn then None
         else
           let sev = (if f64_ge rtt_ms (f64_mul warn (f64_of_rat 4)) then Warning else Info)
           in Some (l4_event_new (ctx_now c) HighRtt sev (ctx_key c) rtt_ms
                (''High handshake RTT on '' @ show_flow_key (ctx_key c) @ '': '' @ fmt_fixed 0 rtt_ms @ '' ms''))))"

definition inspect_handshake_failure :: "detect_ctx \<Rightarrow> l4_event option" where
  "inspect_handshake_failure c =
     (if \<not> handshake_refused (ctx_delta c) then None
      else Some (l4_event_new (ctx_now c) HandshakeFailure Warning (ctx_key c) (f64_of_rat 1)
        (''Connection refused (RST during handshake) on '' @ show_flow_key (ctx_key c))))"

definition inspect_rst_storm :: "debounce \<Rightarrow> detect_ctx \<Rightarrow> debounce \<times> l4_event option" where
  "inspect_rst_storm b c =
     (if \<not> delta_rst (ctx_delta c) then (b, None)
      else
        let rate = per_sec (rst_rate (ctx_globals c)) (ctx_now c) in
        if f64_lt rate (rst_storm_per_sec (ctx_cfg c)) then (b, None)
        else
          let (b', ok) = ready b (ctx_now c) in
          if \<not> ok then (b', None)
          else (b', Some (l4_event_new (ctx_now c) RstStorm Critical (ctx_key c) rate
                 (''RST storm: '' @ fmt_fixed 0 rate @ '' resets/s host-wide (near '' @
                  show_flow_key (ctx_key c) @ '')''))))"

definition inspect_syn_backlog :: "debounce \<Rightarrow> detect_ctx \<Rightarrow> debounce \<times> l4_event option" where
  "inspect_syn_backlog b c = (case ctx_flow c of
      None \<Rightarrow> (b, None)
    | Some f \<Rightarrow>
        (let count = half_open_for (ctx_globals c) (fs_service f) in
         if count < syn_backlog_threshold (ctx_cfg c) then (b, None)
         else
           let (b', ok) = ready b (ctx_now c) in
           if \<not> ok then (b', None)
           else (b', Some (l4_event_new (ctx_now c) SynBacklog Warning (ctx_key c) (f64_of_nat (unat count))
                  (''SYN backlog to '' @ show_endpoint (fs_service f) @ '': '' @ show_nat (unat count) @
                   '' half-open connections (possible SYN flood / accept-queue exhaustion)'')))))"

definition inspect_churn :: "debounce \<Rightarrow> detect_ctx \<Rightarrow> debounce \<times> l4_event option" where
  "inspect_churn b c =
     (if \<not> new_flow (ctx_delta c) then (b, None)
      else
        let rate = per_sec (new_flow_rate (ctx_globals c)) (ctx_now c) in
        if f64_lt rate (churn_per_sec (ctx_cfg c)) then (b, None)
        else
          let (b', ok) = ready b (ctx_now c) in
          if \<not> ok then (b', None)
          else (b', Some (l4_event_new (ctx_now c) ConnectionChurn Info (ctx_key c) rate
                 (''Connection churn: '' @ fmt_fixed 0 rate @ '' new flows/s host-wide''))))"

section \<open>The chain\<close>

datatype detector =
    RetransmissionDetector | OutOfOrderDetector | DupAckDetector | ZeroWindowDetector
  | HighRttDetector | HandshakeFailureDetector
  | RstStormDetector debounce | SynBacklogDetector debounce | ChurnDetector debounce

fun inspect :: "detector \<Rightarrow> detect_ctx \<Rightarrow> packet_meta \<Rightarrow> detector \<times> l4_event option" where
  "inspect RetransmissionDetector c _ = (RetransmissionDetector, inspect_retransmission c)"
| "inspect OutOfOrderDetector c _ = (OutOfOrderDetector, inspect_out_of_order c)"
| "inspect DupAckDetector c _ = (DupAckDetector, inspect_dup_ack c)"
| "inspect ZeroWindowDetector c _ = (ZeroWindowDetector, inspect_zero_window c)"
| "inspect HighRttDetector c _ = (HighRttDetector, inspect_high_rtt c)"
| "inspect HandshakeFailureDetector c _ = (HandshakeFailureDetector, inspect_handshake_failure c)"
| "inspect (RstStormDetector b) c _ = map_prod RstStormDetector id (inspect_rst_storm b c)"
| "inspect (SynBacklogDetector b) c _ = map_prod SynBacklogDetector id (inspect_syn_backlog b c)"
| "inspect (ChurnDetector b) c _ = map_prod ChurnDetector id (inspect_churn b c)"

fun detector_name :: "detector \<Rightarrow> string" where
  "detector_name RetransmissionDetector = ''retransmission''"
| "detector_name OutOfOrderDetector = ''out_of_order''"
| "detector_name DupAckDetector = ''duplicate_ack''"
| "detector_name ZeroWindowDetector = ''zero_window''"
| "detector_name HighRttDetector = ''high_rtt''"
| "detector_name HandshakeFailureDetector = ''handshake_failure''"
| "detector_name (RstStormDetector _) = ''rst_storm''"
| "detector_name (SynBacklogDetector _) = ''syn_backlog''"
| "detector_name (ChurnDetector _) = ''connection_churn''"

definition default_detectors :: "detect_config \<Rightarrow> detector list" where
  "default_detectors cfg =
     (let gap = alert_debounce_secs cfg in
      [RetransmissionDetector, OutOfOrderDetector, DupAckDetector, ZeroWindowDetector,
       HighRttDetector, HandshakeFailureDetector, RstStormDetector (debounce_new gap),
       SynBacklogDetector (debounce_new gap), ChurnDetector (debounce_new gap)])"

text \<open>The loop of \<open>Engine::process\<close> over the chain, for any implementation of \<open>inspect\<close>.\<close>

fun run_chain ::
  "('d \<Rightarrow> detect_ctx \<Rightarrow> packet_meta \<Rightarrow> 'd \<times> l4_event option) \<Rightarrow> detect_ctx \<Rightarrow> packet_meta \<Rightarrow> 'd list
     \<Rightarrow> 'd list \<times> l4_event list" where
  "run_chain insp c p [] = ([], [])"
| "run_chain insp c p (x # xs) =
     (let (x', r) = insp x c p; (xs', es) = run_chain insp c p xs
      in (x' # xs', (case r of None \<Rightarrow> es | Some e \<Rightarrow> e # es)))"

section \<open>The detector interface\<close>

locale detector_iface =
  fixes insp :: "'d \<Rightarrow> detect_ctx \<Rightarrow> packet_meta \<Rightarrow> 'd \<times> l4_event option"
    and tag :: "'d \<Rightarrow> string"
  assumes tag_stable: "tag (fst (insp d c p)) = tag d"
    and tag_kind: "snd (insp d c p) = Some e \<Longrightarrow> kind_str (ev_kind e) = tag d"
    and stamp: "snd (insp d c p) = Some e \<Longrightarrow> ev_ts e = ctx_now c \<and> ev_key e = ctx_key c"
begin

lemma chain_tags: "map tag (fst (run_chain insp c p ds)) = map tag ds"
proof (induction ds)
  case Nil
  then show ?case by simp
next
  case (Cons d ds)
  with tag_stable [of d c p] show ?case by (auto split: prod.splits)
qed

lemma chain_kinds: "subseq (map (\<lambda>e. kind_str (ev_kind e)) (snd (run_chain insp c p ds))) (map tag ds)"
proof (induction ds)
  case Nil
  then show ?case by simp
next
  case (Cons d ds)
  then show ?case
    using tag_kind [of d c p]
    by (cases "insp d c p"; cases "snd (insp d c p)") (auto simp: split: prod.splits intro: subseq_Cons')
qed

lemma chain_stamp:
  "e \<in> set (snd (run_chain insp c p ds)) \<Longrightarrow> ev_ts e = ctx_now c \<and> ev_key e = ctx_key c"
proof (induction ds)
  case Nil
  then show ?case by simp
next
  case (Cons d ds)
  then show ?case
    using stamp [of d c p]
    by (cases "snd (insp d c p)") (auto split: prod.splits)
qed

lemma chain_length: "length (snd (run_chain insp c p ds)) \<le> length ds"
  using list_emb_length [OF chain_kinds [of c p ds]] by simp

end

lemmas inspect_defs = inspect_retransmission_def inspect_out_of_order_def inspect_dup_ack_def
  inspect_zero_window_def inspect_high_rtt_def inspect_handshake_failure_def inspect_rst_storm_def
  inspect_syn_backlog_def inspect_churn_def

interpretation dc: detector_iface inspect detector_name
proof (unfold_locales, goal_cases)
  case (1 d c p)
  then show ?case by (cases d) (simp_all add: map_prod_def split: prod.split)
next
  case (2 d c p e)
  then show ?case
    by (cases d) (auto simp: inspect_defs l4_event_new_def Let_def split: if_splits option.splits prod.splits)
next
  case (3 d c p e)
  then show ?case
    by (cases d) (auto simp: inspect_defs l4_event_new_def Let_def split: if_splits option.splits prod.splits)
qed

end
