(* ===== verification/Detector_Thresholds.thy ===== *)
theory Detector_Thresholds
  imports Detectors
begin

text \<open>
  The thresholds of the detectors read back as integer conditions, through the rounding of every
  floating-point step; and the debounce of the host-wide alerts: spacing and no starvation.
\<close>

section \<open>Floating-point thresholds of the default configuration\<close>

lemma f64_of_rat_numeral: "(numeral w :: nat) < 2 ^ 53 \<Longrightarrow> f64_of_rat (numeral w) = F64 (numeral w)"
  using f64_of_nat_exact [of "numeral w"] by (simp add: f64_of_nat_def)

subsection \<open>Handshake RTT\<close>

definition rtt_ms :: "u64 \<Rightarrow> f64" where
  "rtt_ms n = f64_mul (ns_to_secs_f64 n) (f64_of_rat 1000)"

definition rtt_ms_rat :: "nat \<Rightarrow> rat" where
  "rtt_ms_rat n = rnd (rnd (rnd (of_nat n) / 1000000000) * 1000)"

lemma unat_u64_less: "unat (n :: u64) < 2 ^ 64"
  using unsigned_less [of n] by simp

lemma rnd_u64_le: "n < 2 ^ 64 \<Longrightarrow> rnd (of_nat n) \<le> 2 ^ 64"
proof (rule rnd_le_pow2)
  assume "n < 2 ^ 64"
  then have "(of_nat n :: rat) \<le> of_nat (2 ^ 64)" unfolding of_nat_le_iff by simp
  then show "(of_nat n :: rat) \<le> 2 ^ 64" by simp
qed simp_all

lemma rtt_nat_eq:
  assumes "n < 2 ^ 64"
  shows "f64_mul (f64_div (f64_of_nat n) (F64 1000000000)) (F64 1000) = F64 (rtt_ms_rat n)"
proof -
  define a where "a = rnd (of_nat n)"
  define b where "b = rnd (a / 1000000000)"
  have a: "0 \<le> a" "a \<le> 2 ^ 64"
    using rnd_u64_le [OF assms] by (simp_all add: a_def rnd_nonneg)
  have small: "x \<le> 2 ^ 1000" if "x \<le> 2 ^ 100" for x :: rat
    using that by (rule order_trans) simp
  have q: "0 \<le> a / 1000000000" "a / 1000000000 \<le> 2 ^ 64" using a by (simp_all add: divide_le_eq)
  then have b: "0 \<le> b" "b \<le> 2 ^ 64"
    using rnd_le_pow2 [OF q] by (simp_all add: b_def rnd_nonneg)
  have "a / 1000000000 \<le> 2 ^ 1000" using q(2) by (intro small) simp
  then have "f64_of_rat (a / 1000000000) = F64 b" unfolding b_def by (rule f64_of_rat_rnd [OF q(1)])
  moreover have "b * 1000 \<le> 2 ^ 1000" using b(2) by (intro small) simp
  then have "f64_of_rat (b * 1000) = F64 (rnd (b * 1000))" using b(1) by (intro f64_of_rat_rnd) simp_all
  ultimately show ?thesis
    unfolding f64_of_nat_rnd [OF assms] rtt_ms_rat_def a_def [symmetric] b_def [symmetric] by simp
qed

lemma rtt_ms_eq: "rtt_ms n = F64 (rtt_ms_rat (unat n))"
proof -
  have "f64_of_nat (unat NS_PER_SEC) = F64 1000000000"
    using f64_of_nat_exact [of 1000000000] by (simp add: NS_PER_SEC_def)
  then show ?thesis
    using rtt_nat_eq [OF unat_u64_less, of n]
    by (simp add: rtt_ms_def ns_to_secs_f64_def f64_of_rat_numeral)
qed

lemma rtt_ms_rat_mono: "m \<le> n \<Longrightarrow> rtt_ms_rat m \<le> rtt_ms_rat n"
  unfolding rtt_ms_rat_def
  by (intro rnd_mono mult_right_mono divide_right_mono mult_nonneg_nonneg divide_nonneg_nonneg rnd_nonneg) simp_all

text \<open>At a millisecond threshold that is a dyadic number of seconds the three roundings are exact,
  and one nanosecond below it they stay below it.\<close>

lemma rtt_ms_rat_at:
  assumes "n < 2 ^ 53" "representable (of_nat n / 1000000000)" "representable (of_nat n / 1000000)"
  shows "rtt_ms_rat n = of_nat n / 1000000"
  using assms by (simp add: rtt_ms_rat_def rnd_nat rnd_exact)

lemma rtt_ms_rat_below:
  assumes "n < 2 ^ 53" "of_nat n / 1000000000 \<le> s" "representable s" "representable (s * 1000)"
  shows "rtt_ms_rat n \<le> s * 1000"
proof -
  have s: "0 \<le> s" using assms(2) by (rule order_trans [rotated]) simp
  have "rnd (of_nat n / 1000000000) \<le> s"
    using rnd_mono [OF _ assms(2)] rnd_exact [OF assms(3) s] by simp
  then have "rnd (rnd (of_nat n / 1000000000) * 1000) \<le> rnd (s * 1000)"
    by (intro rnd_mono mult_nonneg_nonneg rnd_nonneg) simp_all
  with assms(1,4) s show ?thesis by (simp add: rtt_ms_rat_def rnd_nat rnd_exact)
qed

lemma rtt_ms_250: "f64_lt (rtt_ms n) (F64 250) \<longleftrightarrow> n < 250000000"
proof -
  have at: "rtt_ms_rat 250000000 = 250"
    using representable_dyadic [of 1 2] representable_dyadic [of 250 0]
    by (subst rtt_ms_rat_at) simp_all
  have "representable (268435455 / 1073741824)" "representable (268435455000 / 1073741824)"
    using representable_dyadic [of 268435455 30] representable_dyadic [of 268435455000 30] by simp_all
  then have below: "rtt_ms_rat 249999999 \<le> 268435455000 / 1073741824"
    using rtt_ms_rat_below [of 249999999 "268435455 / 1073741824"] by simp
  show ?thesis
  proof (cases "n < 250000000")
    case True
    then have "unat n \<le> 249999999" by (simp add: word_less_nat_alt)
    from rtt_ms_rat_mono [OF this] below have "rtt_ms_rat (unat n) < 250" by simp
    with True show ?thesis by (simp add: rtt_ms_eq)
  next
    case False
    then have "250000000 \<le> unat n" by (simp add: word_less_nat_alt)
    from rtt_ms_rat_mono [OF this] at False show ?thesis by (simp add: rtt_ms_eq)
  qed
qed

lemma rtt_ms_1000: "f64_lt (rtt_ms n) (F64 1000) \<longleftrightarrow> n < 1000000000"
proof -
  have at: "rtt_ms_rat 1000000000 = 1000"
    using representable_dyadic [of 1 0] representable_dyadic [of 1000 0]
    by (subst rtt_ms_rat_at) simp_all
  have "representable (1073741823 / 1073741824)" "representable (1073741823000 / 1073741824)"
    using representable_dyadic [of 1073741823 30] representable_dyadic [of 1073741823000 30] by simp_all
  then have below: "rtt_ms_rat 999999999 \<le> 1073741823000 / 1073741824"
    using rtt_ms_rat_below [of 999999999 "1073741823 / 1073741824"] by simp
  show ?thesis
  proof (cases "n < 1000000000")
    case True
    then have "unat n \<le> 999999999" by (simp add: word_less_nat_alt)
    from rtt_ms_rat_mono [OF this] below have "rtt_ms_rat (unat n) < 1000" by simp
    with True show ?thesis by (simp add: rtt_ms_eq)
  next
    case False
    then have "1000000000 \<le> unat n" by (simp add: word_less_nat_alt)
    from rtt_ms_rat_mono [OF this] at False show ?thesis by (simp add: rtt_ms_eq)
  qed
qed

subsection \<open>Rates over a one-second window\<close>

lemma rate_nat_eq: "c < 2 ^ 64 \<Longrightarrow> f64_div (f64_of_nat c) (F64 1) = F64 (rnd (rnd (of_nat c)))"
proof -
  assume c: "c < 2 ^ 64"
  have "rnd (of_nat c) \<le> 2 ^ 1000"
    by (rule order_trans [OF rnd_u64_le [OF c]]) simp
  then show ?thesis using c by (simp add: f64_of_nat_rnd f64_of_rat_rnd rnd_nonneg)
qed

lemma rate_threshold:
  assumes "c < 2 ^ 64" "k < 2 ^ 53"
  shows "f64_lt (f64_div (f64_of_nat c) (F64 1)) (f64_of_rat (of_nat k)) \<longleftrightarrow> c < k"
proof -
  have m: "rnd (rnd (of_nat k)) \<le> rnd (rnd (of_nat c))" if "k \<le> c"
    using that by (intro rnd_mono rnd_nonneg) simp_all
  have ex: "rnd (rnd (of_nat j)) = of_nat j" if "j \<le> k" for j
    using that assms(2) by (simp add: rnd_nat)
  have "rnd (rnd (of_nat c)) < of_nat k \<longleftrightarrow> c < k"
    using m ex [of k] ex [of c] by (cases "c < k") (simp_all add: not_less)
  moreover have "f64_of_rat (of_nat k) = F64 (of_nat k)"
    using f64_of_nat_exact [OF assms(2)] by (simp add: f64_of_nat_def)
  ultimately show ?thesis by (simp add: rate_nat_eq [OF assms(1)])
qed

lemma per_sec_threshold:
  assumes "window_secs r = 1" "k < 2 ^ 53"
  shows "f64_lt (per_sec r now) (f64_of_rat (of_nat k)) \<longleftrightarrow> unat (count_window r now) < k"
proof -
  have "f64_of_nat (unat (window_secs r)) = F64 1" using assms(1) f64_of_nat_exact [of 1] by simp
  then show ?thesis
    using rate_threshold [OF unat_u64_less assms(2), of "count_window r now"] by (simp add: per_sec_def)
qed

subsection \<open>Retransmission ratio\<close>

lemma ratio_threshold:
  assumes "0 < d" "d \<le> 2 ^ 52" "r < 2 ^ 53"
  shows "f64_lt (f64_div (f64_of_nat r) (f64_of_nat d)) (f64_of_rat (1 / 20)) \<longleftrightarrow> 20 * r < d"
proof -
  have d: "(of_nat d :: rat) \<noteq> 0" "d < 2 ^ 53" using assms by simp_all
  then have "f64_div (f64_of_nat r) (f64_of_nat d) = f64_of_rat (of_nat r / of_nat d)"
    using assms(3) by (simp add: f64_of_nat_exact)
  show ?thesis
  proof (cases "20 * r < d")
    case False
    then have "(of_nat d :: rat) \<le> of_nat (20 * r)" unfolding of_nat_le_iff by simp
    then have "1 / 20 \<le> of_nat r / (of_nat d :: rat)" using assms(1) by (simp add: field_simps)
    with False show ?thesis using \<open>f64_div _ _ = _\<close> f64_of_rat_mono by simp
  next
    case True
    define x where "x = (of_nat r / of_nat d :: rat)"
    have x0: "0 \<le> x" by (simp add: x_def)
    have "(of_nat (20 * r + 1) :: rat) \<le> of_nat d" using True unfolding of_nat_le_iff by simp
    then have "20 * x + 1 / of_nat d \<le> 1" using assms(1) by (simp add: x_def field_simps)
    moreover have "(1::rat) / 2 ^ 52 \<le> 1 / of_nat d"
    proof -
      have "(of_nat d :: rat) \<le> of_nat (2 ^ 52)" using assms(2) unfolding of_nat_le_iff .
      then show ?thesis using assms(1) by (intro divide_left_mono) simp_all
    qed
    ultimately have x1: "x \<le> 1 / 20 - 1 / (20 * 2 ^ 52)" by simp
    have p: "(2::rat) powi (- 58) = 1 / 2 ^ 58" "(2::rat) powi (- 4) = 1 / 16"
      by (simp_all only: power_int_minus power_int_numeral inverse_eq_divide) simp_all
    have x16: "x < 2 powi (- 4)" unfolding p using x1 by simp
    have e1: "rnd x \<le> x + 1 / 2 ^ 58"
    proof (cases "x = 0")
      case False
      with x0 rnd_error [OF _ x16] p(1) have "\<bar>rnd x - x\<bar> \<le> 1 / 2 ^ 58" by simp
      then show ?thesis by linarith
    qed (simp add: rnd_def)
    have "\<bar>rnd (1 / 20) - 1 / 20\<bar> \<le> 1 / 2 ^ 58"
      using rnd_error [of "1 / 20" "- 4"] unfolding p by simp
    then have e2: "1 / 20 - 1 / 2 ^ 58 \<le> rnd (1 / 20)" by linarith
    have "rnd x < rnd (1 / 20)" using e1 e2 x1 by simp
    moreover have "x \<le> 2 ^ 1000" using x1 by (rule order_trans) simp
    then have "f64_of_rat x = F64 (rnd x)" using x0 by (rule f64_of_rat_rnd [rotated])
    moreover have "f64_of_rat (1 / 20) = F64 (rnd (1 / 20))"
      by (rule f64_of_rat_rnd) simp_all
    ultimately show ?thesis using True \<open>f64_div _ _ = _\<close> by (simp add: x_def)
  qed
qed

section \<open>Debounce\<close>

text \<open>The times at which a sequence of \<^const>\<open>ready\<close> calls lets an alert through.\<close>

fun fired :: "debounce \<Rightarrow> u64 list \<Rightarrow> u64 list" where
  "fired b [] = []"
| "fired b (t # ts) = (let (b', ok) = ready b t in if ok then t # fired b' ts else fired b' ts)"

lemma fired_subset: "set (fired b ts) \<subseteq> set ts"
proof (induction ts arbitrary: b)
  case Nil
  then show ?case by simp
next
  case (Cons t ts)
  then show ?case by (auto split: prod.splits)
qed

lemma fired_after:
  "last_ns b \<noteq> 0 \<Longrightarrow> sorted (last_ns b # ts) \<Longrightarrow> u \<in> set (fired b ts) \<Longrightarrow>
   unat (last_ns b) + unat (gap_ns b) \<le> unat u"
proof (induction ts arbitrary: b)
  case Nil
  then show ?case by simp
next
  case (Cons t ts)
  show ?case
  proof (cases "saturating_sub t (last_ns b) \<ge> gap_ns b")
    case True
    moreover have "unat (last_ns b) \<le> unat t" using Cons.prems(2) by (simp add: word_le_nat_alt)
    ultimately have gap: "unat (last_ns b) + unat (gap_ns b) \<le> unat t"
      by (simp add: word_le_nat_alt sat_simps)
    have "t \<noteq> 0" using Cons.prems(1,2) by (auto simp: word_le_0_iff)
    then have "unat t + unat (gap_ns b) \<le> unat u" if "u \<in> set (fired (b\<lparr>last_ns := t\<rparr>) ts)"
      using Cons.IH [of "b\<lparr>last_ns := t\<rparr>"] Cons.prems(2) that by simp
    with gap True Cons.prems(3) show ?thesis by (auto simp: ready_def)
  next
    case False
    with Cons.prems Cons.IH [of b] show ?thesis by (auto simp: ready_def)
  qed
qed

lemma fired_spaced:
  "sorted ts \<Longrightarrow> sorted_wrt (\<lambda>t u. t = 0 \<or> unat t + unat (gap_ns b) \<le> unat u) (fired b ts)"
proof (induction ts arbitrary: b)
  case Nil
  then show ?case by simp
next
  case (Cons t ts)
  show ?case
  proof (cases "snd (ready b t)")
    case True
    then have r: "ready b t = (b\<lparr>last_ns := t\<rparr>, True)" by (simp add: ready_def split: if_splits)
    with Cons.prems fired_after [of "b\<lparr>last_ns := t\<rparr>" ts] Cons.IH [of "b\<lparr>last_ns := t\<rparr>"]
    show ?thesis by auto
  next
    case False
    then have "ready b t = (b, False)" by (simp add: ready_def split: if_splits)
    with Cons show ?thesis by simp
  qed
qed

lemma fired_covers:
  "sorted ts \<Longrightarrow> t \<in> set ts \<Longrightarrow>
   (\<exists>s \<in> set (fired b ts). s \<le> t \<and> (s = t \<or> unat t < unat s + unat (gap_ns b))) \<or>
   (last_ns b \<noteq> 0 \<and> unat t < unat (last_ns b) + unat (gap_ns b))"
proof (induction ts arbitrary: b)
  case Nil
  then show ?case by simp
next
  case (Cons u ts)
  show ?case
  proof (cases "snd (ready b u)")
    case True
    then have r: "ready b u = (b\<lparr>last_ns := u\<rparr>, True)" by (simp add: ready_def split: if_splits)
    show ?thesis
    proof (cases "t = u")
      case True
      then show ?thesis using r by auto
    next
      case False
      with Cons.prems have t: "t \<in> set ts" "sorted ts" "u \<le> t" by auto
      from Cons.IH [OF t(2,1), of "b\<lparr>last_ns := u\<rparr>"] show ?thesis using r t(3) by auto
    qed
  next
    case False
    then have r: "ready b u = (b, False)" and
      u: "last_ns b \<noteq> 0" "\<not> gap_ns b \<le> saturating_sub u (last_ns b)"
      by (auto simp: ready_def split: if_splits)
    show ?thesis
    proof (cases "t = u")
      case True
      from u(2) have "unat u < unat (last_ns b) + unat (gap_ns b)" by (simp add: word_le_nat_alt sat_simps)
      with True u(1) show ?thesis by simp
    next
      case False
      with Cons.prems have "t \<in> set ts" "sorted ts" by auto
      from Cons.IH [OF this(2,1), of b] show ?thesis using r by simp
    qed
  qed
qed

section \<open>Properties\<close>

text \<open>C21: the thresholds of the handshake round-trip alert under the default configuration, exactly, through
  every floating-point rounding of the rule: silent below 250 ms, an information below one second, a
  warning from one second on.\<close>

theorem high_rtt_default:
  assumes "ctx_cfg c = default_detect"
  shows "map_option ev_severity (inspect_high_rtt c) = (case rtt_sample_ns (ctx_delta c) of
      None \<Rightarrow> None
    | Some n \<Rightarrow> if n < 250000000 then None else if n < 1000000000 then Some Info else Some Warning)"
proof -
  have warn: "rtt_warn_ms (ctx_cfg c) = F64 250"
    using f64_of_rat_numeral [of "num.Bit0 (num.Bit1 (num.Bit0 (num.Bit1 (num.Bit1 (num.Bit1 (num.Bit1 num.One))))))"]
    by (simp add: assms default_detect_def)
  have four: "f64_mul (F64 250) (f64_of_rat 4) = F64 1000" by (simp add: f64_of_rat_numeral)
  have "f64_ge (rtt_ms n) (F64 1000) \<longleftrightarrow> \<not> n < 1000000000" for n
    using rtt_ms_1000 [of n] by (simp add: rtt_ms_eq)
  with rtt_ms_250 show ?thesis
    by (simp add: inspect_high_rtt_def warn four Let_def l4_event_new_def flip: rtt_ms_def split: option.split)
qed

definition example_ctx :: "packet_delta \<Rightarrow> flow_state \<Rightarrow> detect_ctx" where
  "example_ctx d f = \<lparr>ctx_state = (engine_state_new default_detect)\<lparr>flows := [(example_key, f)]\<rparr>,
     ctx_key = example_key, ctx_delta = d, ctx_now = 1000\<rparr>"

lemma example_ctx_simps [simp]:
  "ctx_cfg (example_ctx d f) = default_detect" "ctx_flow (example_ctx d f) = Some f" "ctx_delta (example_ctx d f) = d"
  by (simp_all add: example_ctx_def ctx_cfg_def ctx_flow_def engine_state_new_def)

theorem high_rtt_default_witness:
  "map_option ev_severity (inspect_high_rtt (example_ctx (packet_delta_default\<lparr>rtt_sample_ns := Some 249999999\<rparr>) (flow_state_new Tcp 1 (low example_key)))) = None \<and>
   map_option ev_severity (inspect_high_rtt (example_ctx (packet_delta_default\<lparr>rtt_sample_ns := Some 250000000\<rparr>) (flow_state_new Tcp 1 (low example_key)))) = Some Info"
  by (simp add: high_rtt_default)

text \<open>C22: the retransmission alert under the default configuration of five percent: a retransmitted
  segment raises the alert exactly when the flow has at least one retransmission in twenty data
  segments, for any counters up to \<open>2 ^ 52\<close> segments, with no error from the floating-point division.\<close>

theorem retransmission_alert_default:
  assumes "ctx_cfg c = default_detect" "ctx_flow c = Some f" "0 < data_segments f"
    "retransmits f \<le> data_segments f" "unat (data_segments f) \<le> 2 ^ 52"
  shows "inspect_retransmission c \<noteq> None \<longleftrightarrow>
    is_retransmit (ctx_delta c) \<and> unat (data_segments f) \<le> 20 * unat (retransmits f)"
proof -
  have d: "0 < unat (data_segments f)" "data_segments f \<noteq> 0" using assms(3) by (auto simp: word_less_nat_alt)
  have r: "unat (retransmits f) < 2 ^ 53" using assms(4,5) by (simp add: word_le_nat_alt)
  have w: "retransmit_ratio_warn (ctx_cfg c) = f64_of_rat (1 / 20)" by (simp add: assms(1) default_detect_def)
  have "f64_lt (retransmit_ratio f) (f64_of_rat (1 / 20)) \<longleftrightarrow> 20 * unat (retransmits f) < unat (data_segments f)"
    using ratio_threshold [OF d(1) assms(5) r] d(2) by (simp add: retransmit_ratio_def)
  then show ?thesis by (auto simp: inspect_retransmission_def assms(2) w Let_def)
qed

theorem retransmission_alert_default_witness:
  "inspect_retransmission (example_ctx (packet_delta_default\<lparr>is_retransmit := True\<rparr>)
     ((flow_state_new Tcp 1 (low example_key))\<lparr>data_segments := 20, retransmits := 1\<rparr>)) \<noteq> None"
  by (subst retransmission_alert_default [OF example_ctx_simps(1,2)]) (simp_all add: flow_state_new_def word_less_nat_alt word_le_nat_alt)

end
