(* ===== verification/Engine.thy ===== *)
theory Engine
  imports Detector_Thresholds
begin

text \<open>
  \<^verbatim>\<open>l4scope-detect/src/engine.rs\<close>: the engine owns the flow table and the detector chain. It
  ingests packets, and sweeps the table for unanswered handshakes and idle flows.
\<close>

section \<open>The engine\<close>

record engine_stats =
  active_flows :: nat
  st_half_open_max :: u32
  rst_per_sec :: f64
  new_flow_per_sec :: f64

record engine =
  eng_state :: engine_state
  eng_detectors :: "detector list"
  last_sweep_ns :: u64
  sweep_interval_ns :: u64

definition engine_new :: "detect_config \<Rightarrow> engine" where
  "engine_new cfg =
     \<lparr>eng_state = engine_state_new cfg, eng_detectors = default_detectors cfg,
      last_sweep_ns = 0, sweep_interval_ns = NS_PER_SEC\<rparr>"

definition set_detectors :: "detector list \<Rightarrow> engine \<Rightarrow> engine" where
  "set_detectors ds e = e\<lparr>eng_detectors := ds\<rparr>"

subsection \<open>Sweep\<close>

definition timeout_due :: "u64 \<Rightarrow> u64 \<Rightarrow> flow_state \<Rightarrow> bool" where
  "timeout_due now hto f =
     (fs_state f = SynSent \<and> \<not> handshake_timeout_flagged f \<and>
      (case syn_time_ns f of None \<Rightarrow> False | Some t \<Rightarrow> saturating_sub now t > hto))"

definition idle :: "u64 \<Rightarrow> u64 \<Rightarrow> flow_state \<Rightarrow> bool" where
  "idle now ttl f = (saturating_sub now (last_seen_ns f) > ttl)"

fun sweep_scan ::
  "u64 \<Rightarrow> u64 \<Rightarrow> u64 \<Rightarrow> (flow_key, flow_state) hash_map \<Rightarrow> flow_key list \<Rightarrow> flow_key list
     \<Rightarrow> flow_key list \<times> flow_key list" where
  "sweep_scan now hto ttl [] timeouts to_remove = (timeouts, to_remove)"
| "sweep_scan now hto ttl ((k, f) # m) timeouts to_remove =
     sweep_scan now hto ttl m
       (if timeout_due now hto f then timeouts @ [k] else timeouts)
       (if idle now ttl f then to_remove @ [k] else to_remove)"

definition waited_secs :: "u64 \<Rightarrow> flow_state \<Rightarrow> f64" where
  "waited_secs now f =
     f64_div (f64_of_nat (unat (saturating_sub now (case syn_time_ns f of None \<Rightarrow> now | Some t \<Rightarrow> t))))
       (f64_of_nat (unat NS_PER_SEC))"

definition timeout_event :: "u64 \<Rightarrow> flow_key \<Rightarrow> flow_state \<Rightarrow> l4_event" where
  "timeout_event now k f =
     l4_event_new now HandshakeTimeout Warning k (waited_secs now f)
       (''SYN to '' @ show_endpoint (fs_service f) @ '' unanswered for '' @
        fmt_fixed 1 (waited_secs now f) @ ''s (handshake timeout)'')"

fun flag_timeouts ::
  "u64 \<Rightarrow> flow_key list \<Rightarrow> engine_state \<Rightarrow> engine_state \<times> l4_event list" where
  "flag_timeouts now [] es = (es, [])"
| "flag_timeouts now (k # ks) es = (case map_of (flows es) k of
      None \<Rightarrow> flag_timeouts now ks es
    | Some f \<Rightarrow>
        (let f1 = f\<lparr>handshake_timeout_flagged := True\<rparr>;
             (f2, g) = (if half_open_counted f1
                        then (f1\<lparr>half_open_counted := False\<rparr>, half_open_decr (fs_service f1) (es_globals es))
                        else (f1, es_globals es));
             es1 = es\<lparr>flows := AList.update k f2 (flows es), es_globals := g\<rparr>;
             (es2, out) = flag_timeouts now ks es1
         in (es2, timeout_event now k f2 # out)))"

fun remove_idle :: "flow_key list \<Rightarrow> engine_state \<Rightarrow> engine_state" where
  "remove_idle [] es = es"
| "remove_idle (k # ks) es = (case map_of (flows es) k of
      None \<Rightarrow> remove_idle ks es
    | Some f \<Rightarrow>
        remove_idle ks (es\<lparr>flows := AList.delete k (flows es),
          es_globals := (if half_open_counted f then half_open_decr (fs_service f) (es_globals es)
                         else es_globals es)\<rparr>))"

definition ttl_ns :: "engine_state \<Rightarrow> u64" where
  "ttl_ns es = flow_ttl_secs (es_cfg es) * NS_PER_SEC"

definition hto_ns :: "engine_state \<Rightarrow> u64" where
  "hto_ns es = handshake_timeout_secs (es_cfg es) * NS_PER_SEC"

definition sweep :: "engine \<Rightarrow> u64 \<Rightarrow> engine \<times> l4_event list" where
  "sweep e now =
     (let es = eng_state e; ttl = ttl_ns es; hto = hto_ns es;
          (timeouts, to_remove) = sweep_scan now hto ttl (flows es) [] [];
          (es1, out) = flag_timeouts now timeouts es;
          es2 = remove_idle to_remove es1
      in (e\<lparr>eng_state := es2\<rparr>, out))"

subsection \<open>Process\<close>

definition process :: "engine \<Rightarrow> packet_meta \<Rightarrow> engine \<times> l4_event list" where
  "process e pkt =
     (let (es, key, delta) = update (eng_state e) pkt;
          ctx = \<lparr>ctx_state = es, ctx_key = key, ctx_delta = delta, ctx_now = ts_nanos pkt\<rparr>;
          (ds, out) = run_chain inspect ctx pkt (eng_detectors e);
          e1 = e\<lparr>eng_state := es, eng_detectors := ds\<rparr>
      in if saturating_sub (ts_nanos pkt) (last_sweep_ns e1) \<ge> sweep_interval_ns e1
         then let (e2, more) = sweep (e1\<lparr>last_sweep_ns := ts_nanos pkt\<rparr>) (ts_nanos pkt) in (e2, out @ more)
         else (e1, out))"

definition stats :: "engine \<Rightarrow> u64 \<Rightarrow> engine_stats" where
  "stats e now =
     (let es = eng_state e; g = es_globals es in
      \<lparr>active_flows = length (flows es), st_half_open_max = half_open_max g,
       rst_per_sec = per_sec (rst_rate g) now, new_flow_per_sec = per_sec (new_flow_rate g) now\<rparr>)"

section \<open>What a sweep does to the table\<close>

definition flagged :: "flow_state \<Rightarrow> flow_state" where
  "flagged f = f\<lparr>handshake_timeout_flagged := True, half_open_counted := False\<rparr>"

definition flag_due :: "u64 \<Rightarrow> u64 \<Rightarrow> flow_state \<Rightarrow> flow_state" where
  "flag_due now hto f = (if timeout_due now hto f then flagged f else f)"

lemma flagged_idem [simp]: "flagged (flagged f) = flagged f"
  by (simp add: flagged_def)

lemma flagged_fields [simp]:
  "last_seen_ns (flagged f) = last_seen_ns f" "fs_service (flagged f) = fs_service f"
  "syn_time_ns (flagged f) = syn_time_ns f" "handshake_timeout_flagged (flagged f)"
  "\<not> half_open_counted (flagged f)" "fs_state (flagged f) = fs_state f"
  by (simp_all add: flagged_def)

lemma timeout_due_flagged [simp]: "\<not> timeout_due now hto (flagged f)"
  by (simp add: timeout_due_def)

lemma timeout_event_flagged [simp]: "timeout_event now k (flagged f) = timeout_event now k f"
  by (simp add: timeout_event_def waited_secs_def)

lemma idle_flag_due [simp]: "idle now ttl (flag_due now' hto f) = idle now ttl f"
  by (simp add: idle_def flag_due_def)

lemma sweep_scan_eq:
  "sweep_scan now hto ttl m ts rs =
     (ts @ map fst (filter (\<lambda>(k, f). timeout_due now hto f) m),
      rs @ map fst (filter (\<lambda>(k, f). idle now ttl f) m))"
  by (induction m arbitrary: ts rs) auto

text \<open>One flagging or eviction, as an update of the flow table that settles the counter.\<close>

definition settle :: "flow_state \<Rightarrow> globals \<Rightarrow> globals" where
  "settle f g = (if half_open_counted f then half_open_decr (fs_service f) g else g)"

lemma flag_timeouts_Cons:
  assumes "map_of (flows es) k = Some f"
  shows "flag_timeouts now (k # ks) es =
     (let (es2, out) = flag_timeouts now ks (es\<lparr>flows := AList.update k (flagged f) (flows es),
            es_globals := settle f (es_globals es)\<rparr>)
      in (es2, timeout_event now k f # out))"
proof (cases "half_open_counted f")
  case True
  then have "(f\<lparr>handshake_timeout_flagged := True\<rparr>)\<lparr>half_open_counted := False\<rparr> = flagged f"
    by (simp add: flagged_def)
  with True assms show ?thesis by (simp add: settle_def)
next
  case False
  then have "f\<lparr>handshake_timeout_flagged := True\<rparr> = flagged f" by (cases f) (simp add: flagged_def)
  with False assms show ?thesis by (simp add: settle_def)
qed

lemma remove_idle_Cons:
  "map_of (flows es) k = Some f \<Longrightarrow>
   remove_idle (k # ks) es =
     remove_idle ks (es\<lparr>flows := AList.delete k (flows es), es_globals := settle f (es_globals es)\<rparr>)"
  by (simp add: settle_def)

lemma globals_wf_settle [simp]: "globals_wf (settle f g) = globals_wf g"
  by (simp add: settle_def globals_wf_def)

lemma flow_inv_flagged: "flow_inv f \<Longrightarrow> flow_inv (flagged f)"
  by (simp add: inv_defs flagged_def)

lemma unat_half_open_settle:
  "unat (half_open_for (settle f g) ep) = unat (half_open_for g ep) - contrib f ep"
  by (simp add: settle_def contrib_def unat_half_open_decr)

lemma es_inv_flag:
  assumes inv: "es_inv es" and f: "map_of (flows es) k = Some f"
  shows "es_inv (es\<lparr>flows := AList.update k (flagged f) (flows es), es_globals := settle f (es_globals es)\<rparr>)"
proof -
  have kd: "keys_distinct (flows es)" using inv by (simp add: es_inv_def)
  have "half_open_flows (AList.update k (flagged f) (flows es)) ep + contrib f ep
      = half_open_flows (flows es) ep" for ep
    using count_entries_update_old [OF kd f, of "\<lambda>f. half_open_counted f \<and> fs_service f = ep" "flagged f"]
    by (simp add: half_open_flows_def contrib_count)
  then have "half_open_flows (AList.update k (flagged f) (flows es)) ep
      = half_open_flows (flows es) ep - contrib f ep" for ep
    by (metis add_diff_cancel_right')
  with inv f show ?thesis
    by (auto simp: es_inv_def map_of_update unat_half_open_settle intro: flow_inv_flagged split: if_splits)
qed

lemma es_inv_remove:
  assumes inv: "es_inv es" and f: "map_of (flows es) k = Some f"
  shows "es_inv (es\<lparr>flows := AList.delete k (flows es), es_globals := settle f (es_globals es)\<rparr>)"
proof -
  have kd: "keys_distinct (flows es)" using inv by (simp add: es_inv_def)
  have "half_open_flows (AList.delete k (flows es)) ep + contrib f ep = half_open_flows (flows es) ep" for ep
    using count_entries_delete [OF kd f, of "\<lambda>f. half_open_counted f \<and> fs_service f = ep"]
    by (simp add: half_open_flows_def contrib_count)
  then have "half_open_flows (AList.delete k (flows es)) ep
      = half_open_flows (flows es) ep - contrib f ep" for ep
    by (metis add_diff_cancel_right')
  with inv show ?thesis
    by (auto simp: es_inv_def map_of_delete unat_half_open_settle split: if_splits)
qed

lemma flag_timeouts_inv: "es_inv es \<Longrightarrow> es_inv (fst (flag_timeouts now ks es))"
proof (induction ks arbitrary: es)
  case Nil
  then show ?case by simp
next
  case (Cons k ks)
  show ?case
  proof (cases "map_of (flows es) k")
    case None
    with Cons show ?thesis by simp
  next
    case (Some f)
    from Cons.IH [OF es_inv_flag [OF Cons.prems Some]] show ?thesis
      unfolding flag_timeouts_Cons [OF Some] by (simp add: case_prod_beta Let_def)
  qed
qed

lemma remove_idle_inv: "es_inv es \<Longrightarrow> es_inv (remove_idle ks es)"
proof (induction ks arbitrary: es)
  case Nil
  then show ?case by simp
next
  case (Cons k ks)
  show ?case
  proof (cases "map_of (flows es) k")
    case None
    with Cons show ?thesis by simp
  next
    case (Some f)
    from Cons.IH [OF es_inv_remove [OF Cons.prems Some]] show ?thesis
      unfolding remove_idle_Cons [OF Some] .
  qed
qed

text \<open>A sweep in closed form: the keys to flag, the keys to evict, and the two passes.\<close>

definition due_keys :: "engine_state \<Rightarrow> u64 \<Rightarrow> flow_key list" where
  "due_keys es now = map fst (filter (\<lambda>(k, f). timeout_due now (hto_ns es) f) (flows es))"

definition idle_keys :: "engine_state \<Rightarrow> u64 \<Rightarrow> flow_key list" where
  "idle_keys es now = map fst (filter (\<lambda>(k, f). idle now (ttl_ns es) f) (flows es))"

lemma sweep_eq:
  "sweep e now =
     (e\<lparr>eng_state := remove_idle (idle_keys (eng_state e) now)
         (fst (flag_timeouts now (due_keys (eng_state e) now) (eng_state e)))\<rparr>,
      snd (flag_timeouts now (due_keys (eng_state e) now) (eng_state e)))"
  by (simp add: sweep_def sweep_scan_eq due_keys_def idle_keys_def Let_def case_prod_beta)

lemma sweep_inv: "es_inv (eng_state e) \<Longrightarrow> es_inv (eng_state (fst (sweep e now)))"
  by (simp add: sweep_eq remove_idle_inv flag_timeouts_inv)

lemma update_present_eq_map:
  "keys_distinct m \<Longrightarrow> map_of m k = Some w \<Longrightarrow>
   AList.update k v m = map (\<lambda>(j, x). (j, if j = k then v else x)) m"
proof (induction m)
  case Nil
  then show ?case by simp
next
  case (Cons p m)
  obtain j x where p: "p = (j, x)" by (cases p)
  show ?case
  proof (cases "j = k")
    case True
    with Cons.prems(1) p have "map (\<lambda>(j, x). (j, if j = k then v else x)) m = m"
      by (intro map_idI) force
    with True p show ?thesis by simp
  next
    case False
    with Cons p show ?thesis by simp
  qed
qed

lemma delete_eq_filter: "AList.delete k m = filter (\<lambda>(j, x). j \<noteq> k) m"
  by (induction m) auto

lemma remove_idle_flows: "flows (remove_idle ks es) = filter (\<lambda>(j, f). j \<notin> set ks) (flows es)"
proof (induction ks arbitrary: es)
  case Nil
  then show ?case by simp
next
  case (Cons k ks)
  show ?case
  proof (cases "map_of (flows es) k")
    case None
    then have "k \<notin> fst ` set (flows es)" by (simp add: map_of_eq_None_iff)
    then have "filter (\<lambda>(j, f). j \<notin> set (k # ks)) (flows es) = filter (\<lambda>(j, f). j \<notin> set ks) (flows es)"
      by (intro filter_cong) force+
    with None Cons show ?thesis by simp
  next
    case (Some f)
    then show ?thesis
      by (simp add: remove_idle_Cons Cons.IH delete_eq_filter conj_commute case_prod_beta)
  qed
qed

lemma es_cfg_remove_idle [simp]: "es_cfg (remove_idle ks es) = es_cfg es"
  by (induction ks arbitrary: es) (simp_all split: option.split)

lemma es_cfg_flag_timeouts [simp]: "es_cfg (fst (flag_timeouts now ks es)) = es_cfg es"
proof (induction ks arbitrary: es)
  case Nil
  then show ?case by simp
next
  case (Cons k ks)
  then show ?case
    by (cases "map_of (flows es) k")
      (simp_all add: flag_timeouts_Cons case_prod_beta Let_def del: flag_timeouts.simps(2), simp)
qed

lemma flag_timeouts_step:
  assumes "keys_distinct (flows es)" "k \<in> fst ` set (flows es)"
  obtains f g where "map_of (flows es) k = Some f"
    "flag_timeouts now (k # ks) es =
       map_prod id ((#) (timeout_event now k f)) (flag_timeouts now ks
         (es\<lparr>flows := map (\<lambda>(j, f). (j, if j = k then flagged f else f)) (flows es), es_globals := g\<rparr>))"
proof -
  obtain f where f: "map_of (flows es) k = Some f"
    using assms(2) by (metis map_of_eq_None_iff not_Some_eq)
  have "x = f" if "(k, x) \<in> set (flows es)" for x
    using assms(1) f that by (metis keys_distinct_def map_of_is_SomeI option.inject)
  then have "AList.update k (flagged f) (flows es)
      = map (\<lambda>(j, f). (j, if j = k then flagged f else f)) (flows es)"
    unfolding update_present_eq_map [OF assms(1) f] by (intro map_cong) auto
  with f show thesis
    by (intro that [OF f, of "settle f (es_globals es)"])
      (simp add: flag_timeouts_Cons [OF f] case_prod_beta Let_def map_prod_def del: flag_timeouts.simps)
qed

lemma flag_timeouts_flows:
  assumes "keys_distinct (flows es)" "set ks \<subseteq> fst ` set (flows es)"
  shows "flows (fst (flag_timeouts now ks es)) = map (\<lambda>(j, f). (j, if j \<in> set ks then flagged f else f)) (flows es)"
  using assms
proof (induction ks arbitrary: es)
  case Nil
  then show ?case by simp
next
  case (Cons k ks)
  from Cons.prems have "k \<in> fst ` set (flows es)" by simp
  then obtain f g where
    f: "map_of (flows es) k = Some f" and
    eq: "flag_timeouts now (k # ks) es = map_prod id ((#) (timeout_event now k f)) (flag_timeouts now ks
      (es\<lparr>flows := map (\<lambda>(j, f). (j, if j = k then flagged f else f)) (flows es), es_globals := g\<rparr>))"
    by (rule flag_timeouts_step [OF Cons.prems(1)])
  have keys: "map fst (map (\<lambda>(j, f). (j, if j = k then flagged f else f)) (flows es)) = map fst (flows es)"
    by (simp add: case_prod_beta comp_def)
  have "flows (fst (flag_timeouts now (k # ks) es))
      = map (\<lambda>(j, f). (j, if j \<in> set ks then flagged f else f))
          (map (\<lambda>(j, f). (j, if j = k then flagged f else f)) (flows es))"
    unfolding eq using Cons.prems by (subst fst_map_prod, subst id_apply, subst Cons.IH)
      (simp_all add: keys_distinct_def keys image_comp comp_def case_prod_beta)
  then show ?case by (simp add: case_prod_beta comp_def)
qed

lemma flag_timeouts_events:
  assumes "keys_distinct (flows es)" "distinct ks" "set ks \<subseteq> fst ` set (flows es)"
  shows "snd (flag_timeouts now ks es) = map (\<lambda>k. timeout_event now k (the (map_of (flows es) k))) ks"
  using assms
proof (induction ks arbitrary: es)
  case Nil
  then show ?case by simp
next
  case (Cons k ks)
  from Cons.prems have "k \<in> fst ` set (flows es)" by simp
  then obtain f g where
    f: "map_of (flows es) k = Some f" and
    eq: "flag_timeouts now (k # ks) es = map_prod id ((#) (timeout_event now k f)) (flag_timeouts now ks
      (es\<lparr>flows := map (\<lambda>(j, f). (j, if j = k then flagged f else f)) (flows es), es_globals := g\<rparr>))"
    by (rule flag_timeouts_step [OF Cons.prems(1)])
  let ?m = "map (\<lambda>(j, f). (j, if j = k then flagged f else f)) (flows es)"
  have keys: "map fst ?m = map fst (flows es)" by (simp add: case_prod_beta comp_def)
  have "map_of (map (\<lambda>(j, f). (j, if j = k then flagged f else f)) m) j = map_of m j" if "j \<noteq> k" for j m
    using that by (induction m) auto
  note lk = this [of _ "flows es"]
  have "snd (flag_timeouts now ks (es\<lparr>flows := ?m, es_globals := g\<rparr>))
      = map (\<lambda>k. timeout_event now k (the (map_of ?m k))) ks"
    using Cons.prems by (subst Cons.IH) (simp_all add: keys_distinct_def keys image_comp comp_def case_prod_beta)
  moreover have "\<dots> = map (\<lambda>k. timeout_event now k (the (map_of (flows es) k))) ks"
  proof (intro map_cong refl)
    fix j assume "j \<in> set ks"
    with Cons.prems(2) have j: "j \<noteq> k" by auto
    show "timeout_event now j (the (map_of ?m j)) = timeout_event now j (the (map_of (flows es) j))"
      by (simp only: lk [OF j])
  qed
  ultimately show ?case by (simp add: eq f del: flag_timeouts.simps)
qed

lemma filter_keys_eq:
  assumes "keys_distinct m" "(k, v) \<in> set m"
  shows "k \<in> set (map fst (filter (\<lambda>(k, v). P v) m)) \<longleftrightarrow> P v"
proof -
  have "v' = v" if "(k, v') \<in> set m" for v'
    using assms that by (metis keys_distinct_def eq_key_imp_eq_value)
  then have "(\<exists>v'. (k, v') \<in> set m \<and> P v') \<longleftrightarrow> P v" using assms(2) by blast
  then show ?thesis by force
qed

lemma sweep_flows:
  assumes kd: "keys_distinct (flows (eng_state e))"
  shows "flows (eng_state (fst (sweep e now))) =
     map (\<lambda>(k, f). (k, flag_due now (hto_ns (eng_state e)) f))
       (filter (\<lambda>(k, f). \<not> idle now (ttl_ns (eng_state e)) f) (flows (eng_state e)))"
proof -
  let ?es = "eng_state e"
  let ?idle = "\<lambda>p. fst p \<notin> set (idle_keys ?es now)"
  have "set (due_keys ?es now) \<subseteq> fst ` set (flows ?es)" by (auto simp: due_keys_def)
  note fl = flag_timeouts_flows [OF kd this]
  have due: "(if k \<in> set (due_keys ?es now) then flagged f else f) = flag_due now (hto_ns ?es) f"
    if "(k, f) \<in> set (flows ?es)" for k f
    using filter_keys_eq [OF kd that] by (simp add: due_keys_def flag_due_def)
  have idle: "?idle (k, f) \<longleftrightarrow> \<not> idle now (ttl_ns ?es) f" if "(k, f) \<in> set (flows ?es)" for k f
    using filter_keys_eq [OF kd that] by (simp add: idle_keys_def)
  have "flows (eng_state (fst (sweep e now))) =
      map (\<lambda>(k, f). (k, if k \<in> set (due_keys ?es now) then flagged f else f)) (filter ?idle (flows ?es))"
    by (simp add: sweep_eq remove_idle_flows fl filter_map comp_def case_prod_beta)
  also have "filter ?idle (flows ?es) = filter (\<lambda>(k, f). \<not> idle now (ttl_ns ?es) f) (flows ?es)"
    using idle by (intro filter_cong) auto
  finally show ?thesis using due by (auto intro!: map_cong)
qed

lemma sweep_events:
  assumes kd: "keys_distinct (flows (eng_state e))"
  shows "snd (sweep e now) = map (\<lambda>(k, f). timeout_event now k f)
     (filter (\<lambda>(k, f). timeout_due now (hto_ns (eng_state e)) f) (flows (eng_state e)))"
proof -
  let ?es = "eng_state e"
  have "distinct (due_keys ?es now)"
    using kd by (simp add: due_keys_def keys_distinct_def distinct_map_filter)
  moreover have "set (due_keys ?es now) \<subseteq> fst ` set (flows ?es)" by (auto simp: due_keys_def)
  ultimately have "snd (sweep e now) = map (\<lambda>k. timeout_event now k (the (map_of (flows ?es) k))) (due_keys ?es now)"
    by (simp add: sweep_eq flag_timeouts_events [OF kd])
  moreover have "the (map_of (flows ?es) k) = f" if "(k, f) \<in> set (flows ?es)" for k f
    using kd that by (simp add: keys_distinct_def)
  ultimately show ?thesis by (auto simp: due_keys_def)
qed

lemma sweep_frame [simp]:
  "es_cfg (eng_state (fst (sweep e now))) = es_cfg (eng_state e)"
  "eng_detectors (fst (sweep e now)) = eng_detectors e"
  "last_sweep_ns (fst (sweep e now)) = last_sweep_ns e"
  "sweep_interval_ns (fst (sweep e now)) = sweep_interval_ns e"
  by (simp_all add: sweep_eq)

lemma sweep_no_work: "due_keys (eng_state e) now = [] \<Longrightarrow> idle_keys (eng_state e) now = [] \<Longrightarrow> sweep e now = (e, [])"
  by (simp add: sweep_eq)

lemma sweep_settled:
  assumes "keys_distinct (flows (eng_state e))"
  shows "sweep (fst (sweep e now)) now = (fst (sweep e now), [])"
proof (rule sweep_no_work)
  let ?es = "eng_state e" and ?es' = "eng_state (fst (sweep e now))"
  have cfg: "hto_ns ?es' = hto_ns ?es" "ttl_ns ?es' = ttl_ns ?es" by (simp_all add: hto_ns_def ttl_ns_def)
  have "\<not> timeout_due now hto (flag_due now hto f)" for hto f by (simp add: flag_due_def)
  then show "due_keys ?es' now = []"
    by (auto simp: due_keys_def sweep_flows [OF assms] cfg filter_empty_conv)
  show "idle_keys ?es' now = []"
    by (auto simp: idle_keys_def sweep_flows [OF assms] cfg filter_empty_conv)
qed

text \<open>The order in which the table is iterated does not matter.\<close>

lemma sweep_perm:
  assumes kd: "keys_distinct (flows (eng_state e))" and p: "mset (flows (eng_state e')) = mset (flows (eng_state e))"
    and c: "es_cfg (eng_state e') = es_cfg (eng_state e)"
  shows "mset (flows (eng_state (fst (sweep e' now)))) = mset (flows (eng_state (fst (sweep e now))))"
    and "mset (snd (sweep e' now)) = mset (snd (sweep e now))"
proof -
  have kd': "keys_distinct (flows (eng_state e'))"
    using kd p unfolding keys_distinct_def by (metis mset_eq_imp_distinct_iff mset_map)
  have cfg: "hto_ns (eng_state e') = hto_ns (eng_state e)" "ttl_ns (eng_state e') = ttl_ns (eng_state e)"
    by (simp_all add: hto_ns_def ttl_ns_def c)
  show "mset (flows (eng_state (fst (sweep e' now)))) = mset (flows (eng_state (fst (sweep e now))))"
    "mset (snd (sweep e' now)) = mset (snd (sweep e now))"
    unfolding sweep_flows [OF kd] sweep_flows [OF kd'] sweep_events [OF kd] sweep_events [OF kd'] cfg
    by (simp_all add: mset_filter p)
qed

end
