(* ===== verification/Engine_Runs.thy ===== *)
theory Engine_Runs
  imports Engine
begin

text \<open>
  Runs of the engine: sequences of packets and timer sweeps. The invariant of the flow table and
  the shape of the chain over runs, the gauges, handshake timeouts reported once, and the
  spacing of the host-wide alerts.
\<close>

section \<open>Runs of a machine with outputs\<close>

fun run_machine :: "('s \<Rightarrow> 'a \<Rightarrow> 's \<times> 'o list) \<Rightarrow> 's \<Rightarrow> 'a list \<Rightarrow> 's \<times> 'o list" where
  "run_machine stp s [] = (s, [])"
| "run_machine stp s (a # as) =
     (let (s1, o1) = stp s a; (s2, o2) = run_machine stp s1 as in (s2, o1 @ o2))"

lemma run_machine_append:
  "run_machine stp s (as @ bs) =
     (let (s1, o1) = run_machine stp s as; (s2, o2) = run_machine stp s1 bs in (s2, o1 @ o2))"
  by (induction as arbitrary: s) (simp_all add: case_prod_beta Let_def)

locale invariant_machine =
  fixes stp :: "'s \<Rightarrow> 'a \<Rightarrow> 's \<times> 'o list"
    and inv :: "'s \<Rightarrow> bool"
    and room :: "'s \<Rightarrow> bool"
    and load :: "'s \<Rightarrow> nat"
    and cap :: nat
  assumes inv_step: "inv s \<Longrightarrow> room s \<Longrightarrow> inv (fst (stp s a))"
    and load_step: "inv s \<Longrightarrow> load (fst (stp s a)) \<le> Suc (load s)"
    and load_room: "load s < cap \<Longrightarrow> room s"
begin

lemma run_inv_load:
  "inv s \<Longrightarrow> load s + length as \<le> cap \<Longrightarrow>
   inv (fst (run_machine stp s as)) \<and> load (fst (run_machine stp s as)) \<le> load s + length as"
proof (induction as arbitrary: s)
  case Nil
  then show ?case by simp
next
  case (Cons a as)
  obtain s1 o1 where s1: "stp s a = (s1, o1)" by (cases "stp s a")
  have "inv s1" "load s1 \<le> Suc (load s)"
    using inv_step [of s a] load_step [of s a] load_room [of s] Cons.prems by (simp_all add: s1)
  with Cons.IH [of s1] Cons.prems show ?case by (simp add: s1 case_prod_beta Let_def)
qed

end

section \<open>The engine as a machine\<close>

datatype action = Packet packet_meta | Sweep u64

fun engine_step :: "engine \<Rightarrow> action \<Rightarrow> engine \<times> l4_event list" where
  "engine_step e (Packet p) = process e p"
| "engine_step e (Sweep t) = sweep e t"

abbreviation table :: "engine \<Rightarrow> (flow_key, flow_state) hash_map" where
  "table e \<equiv> flows (eng_state e)"

text \<open>The parts of \<^const>\<open>process\<close>: ingestion, the chain, and the sweep that may be due.\<close>

definition ctx_of :: "engine \<Rightarrow> packet_meta \<Rightarrow> detect_ctx" where
  "ctx_of e p = \<lparr>ctx_state = next_state (eng_state e) p, ctx_key = pkt_key p,
     ctx_delta = delta_of (eng_state e) p, ctx_now = ts_nanos p\<rparr>"

definition chain_run :: "engine \<Rightarrow> packet_meta \<Rightarrow> detector list \<times> l4_event list" where
  "chain_run e p = run_chain inspect (ctx_of e p) p (eng_detectors e)"

definition sweep_due :: "engine \<Rightarrow> packet_meta \<Rightarrow> bool" where
  "sweep_due e p \<longleftrightarrow> saturating_sub (ts_nanos p) (last_sweep_ns e) \<ge> sweep_interval_ns e"

definition mid :: "engine \<Rightarrow> packet_meta \<Rightarrow> engine" where
  "mid e p = e\<lparr>eng_state := next_state (eng_state e) p, eng_detectors := fst (chain_run e p),
     last_sweep_ns := (if sweep_due e p then ts_nanos p else last_sweep_ns e)\<rparr>"

lemma update_parts: "update es p = (next_state es p, pkt_key p, delta_of es p)"
  by (simp add: next_state_def delta_of_def update_eq)

lemma process_eq:
  "process e p =
     (if sweep_due e p
      then (fst (sweep (mid e p) (ts_nanos p)), snd (chain_run e p) @ snd (sweep (mid e p) (ts_nanos p)))
      else (mid e p, snd (chain_run e p)))"
  by (simp add: process_def update_parts chain_run_def ctx_of_def mid_def sweep_due_def
      case_prod_beta Let_def)

lemma mid_simps [simp]:
  "eng_state (mid e p) = next_state (eng_state e) p" "eng_detectors (mid e p) = fst (chain_run e p)"
  "sweep_interval_ns (mid e p) = sweep_interval_ns e"
  by (simp_all add: mid_def)

lemma next_state_inv:
  "es_inv es \<Longrightarrow> length (flows es) < 2 ^ 32 - 1 \<Longrightarrow> es_inv (next_state es p)"
  using update_inv [of es p] by (simp add: update_parts)

lemma next_state_length: "length (flows (next_state es p)) \<le> Suc (length (flows es))"
  by (cases "map_of (flows es) (pkt_key p)")
    (simp_all add: next_state_def update_eq length_update_new length_update_old)

lemma sweep_length: "length (table (fst (sweep e t))) \<le> length (table e)"
proof -
  have "length (flows (fst (flag_timeouts t ks es))) = length (flows es)" for ks es
  proof (induction ks arbitrary: es)
    case (Cons k ks)
    then show ?case
      by (cases "map_of (flows es) k")
        (simp_all add: flag_timeouts_Cons case_prod_beta Let_def length_update_old
          del: flag_timeouts.simps(2), simp)
  qed simp
  then show ?thesis
    by (simp add: sweep_eq remove_idle_flows) (metis length_filter_le)
qed

lemma process_inv:
  "es_inv (eng_state e) \<Longrightarrow> length (table e) < 2 ^ 32 - 1 \<Longrightarrow> es_inv (eng_state (fst (process e p)))"
  by (simp add: process_eq next_state_inv sweep_inv)

lemma process_length: "length (table (fst (process e p))) \<le> Suc (length (table e))"
  using next_state_length [of "eng_state e" p] sweep_length [of "mid e p" "ts_nanos p"]
  by (auto simp: process_eq)

definition engine_inv :: "engine \<Rightarrow> bool" where
  "engine_inv e \<longleftrightarrow> es_inv (eng_state e)"

interpretation em: invariant_machine engine_step engine_inv "\<lambda>e. length (table e) < 2 ^ 32 - 1"
  "\<lambda>e. length (table e)" "2 ^ 32 - 1"
proof (unfold_locales, goal_cases)
  case (1 s a)
  then show ?case by (cases a) (simp_all add: engine_inv_def process_inv sweep_inv)
next
  case (2 s a)
  then show ?case
    using process_length [of s] sweep_length [of s] by (cases a) (simp_all add: le_SucI)
qed simp

abbreviation engine_run :: "engine \<Rightarrow> action list \<Rightarrow> engine \<times> l4_event list" where
  "engine_run \<equiv> run_machine engine_step"

lemma engine_run_inv:
  assumes "length acts < 2 ^ 32"
  shows "engine_inv (fst (engine_run (engine_new cfg) acts))"
    and "length (table (fst (engine_run (engine_new cfg) acts))) \<le> length acts"
proof -
  have new: "engine_inv (engine_new cfg)" "length (table (engine_new cfg)) = 0"
    by (simp_all add: engine_inv_def engine_new_def es_inv_new)
  from assms have "length (table (engine_new cfg)) + length acts \<le> 2 ^ 32 - 1"
    unfolding new(2) by simp
  from em.run_inv_load [OF new(1) this] new(2)
  show "engine_inv (fst (engine_run (engine_new cfg) acts))"
    "length (table (fst (engine_run (engine_new cfg) acts))) \<le> length acts" by simp_all
qed

text \<open>The gauge \<open>half_open_max\<close>: no service has more half-open flows, and one has exactly that many.\<close>

lemma fold_max_eq_Max: "fold max xs (a::'a::linorder) = Max (insert a (set xs))"
  using Max.set_eq_fold [of a xs] by simp

lemma half_open_max_ge: "half_open_for g ep \<le> half_open_max g"
proof (cases "map_of (half_open g) ep")
  case (Some c)
  then have "c \<in> set (map snd (half_open g))" by (force dest: map_of_SomeD)
  with Some show ?thesis by (simp add: half_open_for_def half_open_max_def fold_max_eq_Max)
qed (simp add: half_open_for_def)

lemma half_open_max_attained:
  assumes "keys_distinct (half_open g)"
  shows "half_open_max g = 0 \<or> (\<exists>ep. half_open_for g ep = half_open_max g)"
proof -
  have "half_open_max g \<in> insert 0 (set (map snd (half_open g)))"
    unfolding half_open_max_def fold_max_eq_Max by (rule Max_in) simp_all
  then consider "half_open_max g = 0" | ep where "(ep, half_open_max g) \<in> set (half_open g)" by auto
  then show ?thesis
  proof cases
    case 2
    with assms have "half_open_for g ep = half_open_max g"
      by (simp add: half_open_for_def keys_distinct_def)
    then show ?thesis by blast
  qed simp
qed

lemma half_open_gauge:
  assumes "engine_inv e"
  shows "half_open_flows (table e) ep \<le> unat (st_half_open_max (stats e now))"
    and "\<exists>ep. half_open_flows (table e) ep = unat (st_half_open_max (stats e now))"
proof -
  let ?g = "es_globals (eng_state e)"
  have eq: "unat (half_open_for ?g ep) = half_open_flows (table e) ep" for ep
    using assms by (simp add: engine_inv_def es_inv_def)
  have kd: "keys_distinct (half_open ?g)" and g: "st_half_open_max (stats e now) = half_open_max ?g"
    using assms by (simp_all add: engine_inv_def es_inv_def globals_wf_def stats_def Let_def)
  show "half_open_flows (table e) ep \<le> unat (st_half_open_max (stats e now))"
    using half_open_max_ge [of ?g ep] by (simp add: g flip: eq word_le_nat_alt)
  have "half_open_max ?g = 0 \<Longrightarrow> half_open_for ?g ep = 0" for ep
    using half_open_max_ge [of ?g ep] by (simp add: word_le_0_iff)
  with half_open_max_attained [OF kd] show "\<exists>ep. half_open_flows (table e) ep = unat (st_half_open_max (stats e now))"
    by (metis g eq)
qed

section \<open>Handshake timeouts are reported once\<close>

lemma flag_frame [step_frame]:
  "handshake_timeout_flagged (fst (establish_step p s)) = handshake_timeout_flagged (fst s)"
  "handshake_timeout_flagged (fst (fin_step p s)) = handshake_timeout_flagged (fst s)"
  "handshake_timeout_flagged (fst (zero_window_step p s)) = handshake_timeout_flagged (fst s)"
  "handshake_timeout_flagged (fst (data_step p s)) = handshake_timeout_flagged (fst s)"
  "handshake_timeout_flagged (fst (dup_ack_step p s)) = handshake_timeout_flagged (fst s)"
  "handshake_timeout_flagged (fst (syn_only_step p s)) = handshake_timeout_flagged (fst s)"
  "handshake_timeout_flagged (fst (syn_ack_step p s)) = handshake_timeout_flagged (fst s)"
  "handshake_timeout_flagged (fst (rst_step p s)) = handshake_timeout_flagged (fst s)"
  by (cases s; simp add: step_defs Let_def clear_half_open_eq split: option.split prod.split)+

lemma tcp_result_flag: "handshake_timeout_flagged (fst (tcp_result es p)) = handshake_timeout_flagged (pre_flow es p)"
  by (simp add: tcp_result_def tcp_step_def other_step_def step_frame Let_def)

lemma detector_name_not_timeout: "detector_name d \<noteq> kind_str HandshakeTimeout"
  by (cases d) simp_all

lemma chain_no_timeout: "ev \<in> set (snd (chain_run e p)) \<Longrightarrow> ev_kind ev \<noteq> HandshakeTimeout"
proof
  assume ev: "ev \<in> set (snd (chain_run e p))" and k: "ev_kind ev = HandshakeTimeout"
  have "kind_str (ev_kind ev) \<in> set (map (\<lambda>e. kind_str (ev_kind e))
      (snd (run_chain inspect (ctx_of e p) p (eng_detectors e))))"
    using ev by (simp add: chain_run_def)
  then have "kind_str (ev_kind ev) \<in> set (map detector_name (eng_detectors e))"
    by (rule list_emb_set [OF dc.chain_kinds]) simp
  then obtain d where "kind_str (ev_kind ev) = detector_name d" by auto
  with k detector_name_not_timeout [of d] show False by simp
qed

definition timeouts_for :: "flow_key \<Rightarrow> l4_event list \<Rightarrow> l4_event list" where
  "timeouts_for k evs = filter (\<lambda>ev. ev_kind ev = HandshakeTimeout \<and> ev_key ev = k) evs"

definition told :: "flow_key \<Rightarrow> engine \<Rightarrow> bool" where
  "told k e \<longleftrightarrow> (\<exists>f. map_of (table e) k = Some f \<and> handshake_timeout_flagged f)"

lemma timeouts_for_append [simp]: "timeouts_for k (xs @ ys) = timeouts_for k xs @ timeouts_for k ys"
  by (simp add: timeouts_for_def)

lemma timeouts_for_chain [simp]: "timeouts_for k (snd (chain_run e p)) = []"
  by (auto simp: timeouts_for_def filter_empty_conv dest: chain_no_timeout)

lemma timeouts_for_sweep:
  assumes kd: "keys_distinct (table e)"
  shows "timeouts_for k (snd (sweep e t)) = (case map_of (table e) k of
      Some f \<Rightarrow> if timeout_due t (hto_ns (eng_state e)) f then [timeout_event t k f] else []
    | None \<Rightarrow> [])"
proof -
  have "timeouts_for k (map (\<lambda>(k, f). timeout_event t k f) (filter (\<lambda>(k, f). timeout_due t hto f) m)) =
      (case map_of m k of
         Some f \<Rightarrow> if timeout_due t hto f then [timeout_event t k f] else [] | None \<Rightarrow> [])"
    if "keys_distinct m" for m hto
    using that
  proof (induction m)
    case Nil
    then show ?case by (simp add: timeouts_for_def)
  next
    case (Cons a m)
    then have "fst a = k \<Longrightarrow> map_of m k = None" by (cases a) (auto simp: map_of_eq_None_iff)
    with Cons show ?case
      by (cases a) (auto simp: timeouts_for_def timeout_event_def l4_event_new_def split: option.splits)
  qed
  then show ?thesis by (simp add: sweep_events [OF kd] kd)
qed

lemma map_of_sweep:
  assumes kd: "keys_distinct (table e)"
  shows "map_of (table (fst (sweep e t))) k = (case map_of (table e) k of
      Some f \<Rightarrow> if idle t (ttl_ns (eng_state e)) f then None else Some (flag_due t (hto_ns (eng_state e)) f)
    | None \<Rightarrow> None)"
proof -
  have "map_of (map (\<lambda>(k, f). (k, flag_due t hto f)) (filter (\<lambda>(k, f). \<not> idle t ttl f) m)) k =
      (case map_of m k of
         Some f \<Rightarrow> if idle t ttl f then None else Some (flag_due t hto f) | None \<Rightarrow> None)"
    if "keys_distinct m" for m hto ttl
    using that
  proof (induction m)
    case (Cons a m)
    then have "fst a = k \<Longrightarrow> map_of m k = None" by (cases a) (auto simp: map_of_eq_None_iff)
    with Cons show ?case by (cases a) auto
  qed simp
  then show ?thesis by (simp add: sweep_flows [OF kd] kd)
qed

lemma next_state_keys [simp]: "keys_distinct (flows (next_state es p)) = keys_distinct (flows es)"
  by (simp add: next_state_def update_eq)

lemma sweep_keys: "keys_distinct (table e) \<Longrightarrow> keys_distinct (table (fst (sweep e t)))"
proof -
  assume kd: "keys_distinct (table e)"
  have "keys_distinct (map (\<lambda>(k, f). (k, h f)) m) = keys_distinct m" for h :: "flow_state \<Rightarrow> flow_state" and m :: "(flow_key \<times> flow_state) list"
    by (simp add: keys_distinct_def comp_def case_prod_beta)
  with kd show ?thesis by (simp add: sweep_flows [OF kd])
qed

lemma step_keys: "keys_distinct (table e) \<Longrightarrow> keys_distinct (table (fst (engine_step e a)))"
  by (cases a) (simp_all add: process_eq sweep_keys)

lemma told_next: "told k e \<Longrightarrow> told k (mid e p)"
  by (auto simp: told_def map_of_next_state tcp_result_flag pre_flow_def)

lemma told_sweep:
  assumes "keys_distinct (table e)" "told k e"
  shows "timeouts_for k (snd (sweep e t)) = []"
    and "contains_key (table (fst (sweep e t))) k \<Longrightarrow> told k (fst (sweep e t))"
  using assms
  by (auto simp: told_def timeouts_for_sweep map_of_sweep contains_key_def timeout_due_def flag_due_def
      split: if_splits)

lemma sweep_told:
  assumes "keys_distinct (table e)"
  shows "length (timeouts_for k (snd (sweep e t))) \<le> 1"
    and "timeouts_for k (snd (sweep e t)) \<noteq> [] \<Longrightarrow> contains_key (table (fst (sweep e t))) k \<Longrightarrow>
      told k (fst (sweep e t))"
  using assms
  by (auto simp: told_def timeouts_for_sweep map_of_sweep contains_key_def flag_due_def
      split: option.splits if_splits)

lemma told_step:
  assumes "keys_distinct (table e)" "told k e"
  shows "timeouts_for k (snd (engine_step e a)) = []"
    and "contains_key (table (fst (engine_step e a))) k \<Longrightarrow> told k (fst (engine_step e a))"
  using assms told_sweep [of "mid e _" k] told_sweep [of e k] told_next [of k e]
  by (cases a; auto simp: process_eq split: if_splits)+

lemma step_told:
  assumes "keys_distinct (table e)"
  shows "length (timeouts_for k (snd (engine_step e a))) \<le> 1"
    and "timeouts_for k (snd (engine_step e a)) \<noteq> [] \<Longrightarrow> contains_key (table (fst (engine_step e a))) k \<Longrightarrow>
      told k (fst (engine_step e a))"
  using assms sweep_told [of "mid e _" k] sweep_told [of e k]
  by (cases a; auto simp: process_eq split: if_splits)+

text \<open>The flow is in the table after every action of the run.\<close>

fun kept :: "flow_key \<Rightarrow> engine \<Rightarrow> action list \<Rightarrow> bool" where
  "kept k e [] = True"
| "kept k e (a # as) =
     (contains_key (table (fst (engine_step e a))) k \<and> kept k (fst (engine_step e a)) as)"

lemma told_run:
  "keys_distinct (table e) \<Longrightarrow> told k e \<Longrightarrow> kept k e as \<Longrightarrow> timeouts_for k (snd (engine_run e as)) = []"
proof (induction as arbitrary: e)
  case Nil
  then show ?case by (simp add: timeouts_for_def)
next
  case (Cons a as)
  with told_step [OF Cons.prems(1,2), of a] step_keys [OF Cons.prems(1), of a] show ?case
    by (simp add: case_prod_beta Let_def)
qed

lemma timeout_once_run:
  "keys_distinct (table e) \<Longrightarrow> kept k e as \<Longrightarrow> length (timeouts_for k (snd (engine_run e as))) \<le> 1"
proof (induction as arbitrary: e)
  case Nil
  then show ?case by (simp add: timeouts_for_def)
next
  case (Cons a as)
  let ?e = "fst (engine_step e a)"
  note kd = step_keys [OF Cons.prems(1), of a]
  show ?case
  proof (cases "timeouts_for k (snd (engine_step e a)) = []")
    case True
    with Cons.IH [OF kd] Cons.prems show ?thesis by (simp add: case_prod_beta Let_def)
  next
    case False
    then have "timeouts_for k (snd (engine_run ?e as)) = []"
      using Cons.prems step_told(2) [OF Cons.prems(1)] by (intro told_run [OF kd]) simp_all
    with step_told(1) [OF Cons.prems(1), of k a] show ?thesis by (simp add: case_prod_beta Let_def)
  qed
qed

section \<open>Engines reached from the start\<close>

abbreviation reached :: "detect_config \<Rightarrow> action list \<Rightarrow> engine" where
  "reached cfg acts \<equiv> fst (engine_run (engine_new cfg) acts)"

lemma run_keys: "keys_distinct (table e) \<Longrightarrow> keys_distinct (table (fst (engine_run e acts)))"
proof (induction acts arbitrary: e)
  case (Cons a acts)
  from Cons.IH [OF step_keys [OF Cons.prems, of a]] show ?case by (simp add: case_prod_beta Let_def)
qed simp

lemma reached_keys: "keys_distinct (table (reached cfg acts))"
  by (rule run_keys) (simp add: engine_new_def)

lemma process_tags: "map detector_name (eng_detectors (fst (engine_step e a))) = map detector_name (eng_detectors e)"
  by (cases a) (simp_all add: process_eq chain_run_def dc.chain_tags)

lemma run_tags: "map detector_name (eng_detectors (fst (engine_run e acts))) = map detector_name (eng_detectors e)"
proof (induction acts arbitrary: e)
  case (Cons a acts)
  then show ?case by (simp add: case_prod_beta Let_def process_tags)
qed simp

lemma es_cfg_next_state [simp]: "es_cfg (next_state es p) = es_cfg es"
  by (simp add: next_state_def update_eq)

lemma run_cfg: "es_cfg (eng_state (fst (engine_run e acts))) = es_cfg (eng_state e)"
proof (induction acts arbitrary: e)
  case (Cons a acts)
  then show ?case by (cases a) (simp_all add: case_prod_beta Let_def process_eq)
qed simp

lemma reached_cfg [simp]:
  "hto_ns (eng_state (reached cfg acts)) = handshake_timeout_secs cfg * NS_PER_SEC"
  "ttl_ns (eng_state (reached cfg acts)) = flow_ttl_secs cfg * NS_PER_SEC"
  by (simp_all add: hto_ns_def ttl_ns_def run_cfg) (simp_all add: engine_new_def engine_state_new_def)

lemma kept_sweeps:
  "keys_distinct (table e) \<Longrightarrow> map_of (table e) k = Some f \<Longrightarrow>
   list_all (\<lambda>t. \<not> idle t (ttl_ns (eng_state e)) f) ts \<Longrightarrow> kept k e (map Sweep ts)"
proof (induction ts arbitrary: e f)
  case (Cons t ts)
  have "ttl_ns (eng_state (fst (sweep e t))) = ttl_ns (eng_state e)" by (simp add: ttl_ns_def)
  with Cons.prems Cons.IH [OF sweep_keys [OF Cons.prems(1), of t], of "flag_due t (hto_ns (eng_state e)) f"]
  show ?case by (simp add: map_of_sweep contains_key_def)
qed simp

lemma process_quiet: "\<not> sweep_due e p \<Longrightarrow> fst (process e p) = mid e p"
  by (simp add: process_eq)

section \<open>Properties\<close>

text \<open>A run for the witnesses: a SYN on each of two connections of one client.\<close>

definition example_run :: "action list" where
  "example_run = [Packet (example_packet 1 Forward SYN 5 0 0),
     Packet ((example_packet 2 Forward SYN 9 0 0)\<lparr>pkt_key := example_key\<lparr>low := \<lparr>ep_ip = V4 0x0A000001, ep_port = 5001\<rparr>\<rparr>\<rparr>)]"

text \<open>C2: along every run of packets and sweeps the engine keeps its invariant: one entry per flow, every
  flow and counter well formed, and the half-open counter of every service equal to the number of
  flows to it that are still counted half-open. The table never has more flows than the run had
  actions, and the gauge of half-open connections is exact: no service has more half-open flows than
  it shows, and one has exactly as many.\<close>

theorem engine_run_keeps_invariant:
  assumes "length acts < 2 ^ 32"
  shows "engine_inv (reached cfg acts) \<and> length (table (reached cfg acts)) \<le> length acts \<and>
    (\<forall>ep. half_open_flows (table (reached cfg acts)) ep \<le> unat (st_half_open_max (stats (reached cfg acts) now))) \<and>
    (\<exists>ep. half_open_flows (table (reached cfg acts)) ep = unat (st_half_open_max (stats (reached cfg acts) now)))"
  using engine_run_inv [OF assms] half_open_gauge [OF engine_run_inv(1) [OF assms]] by blast

theorem engine_run_keeps_invariant_witness:
  "engine_inv (reached default_detect (example_run @ [Sweep 9000000000])) \<and>
   (\<exists>ep. half_open_flows (table (reached default_detect (example_run @ [Sweep 9000000000]))) ep =
     unat (st_half_open_max (stats (reached default_detect (example_run @ [Sweep 9000000000])) 7)))"
  using engine_run_keeps_invariant [of "example_run @ [Sweep 9000000000]" default_detect 7]
  by (simp add: example_run_def)

text \<open>C7: what a sweep does, in closed form. The flows silent for longer than the time to live are dropped
  and the others kept in place, a flow whose first SYN has been unanswered for longer than the handshake
  timeout is flagged, and exactly one warning is issued for every flow that was due.\<close>

theorem sweep_effect:
  "table (fst (sweep (reached cfg acts) now)) =
     map (\<lambda>(k, f). (k, flag_due now (handshake_timeout_secs cfg * NS_PER_SEC) f))
       (filter (\<lambda>(k, f). \<not> idle now (flow_ttl_secs cfg * NS_PER_SEC) f) (table (reached cfg acts))) \<and>
   snd (sweep (reached cfg acts) now) =
     map (\<lambda>(k, f). timeout_event now k f)
       (filter (\<lambda>(k, f). timeout_due now (handshake_timeout_secs cfg * NS_PER_SEC) f) (table (reached cfg acts)))"
  using sweep_flows [OF reached_keys, of cfg acts now] sweep_events [OF reached_keys, of cfg acts now] by simp

text \<open>C8: a handshake timeout is reported at most once for a flow, however often the table is swept, as
  long as the flow stays in the table.\<close>

theorem timeout_reported_once:
  assumes "kept k (reached cfg before) acts"
  shows "length (timeouts_for k (snd (engine_run (reached cfg before) acts))) \<le> 1"
  by (rule timeout_once_run [OF reached_keys assms])

theorem timeout_reported_once_witness:
  "length (timeouts_for example_key (snd (engine_run (reached default_detect example_run)
     [Sweep 9000000000, Sweep 19000000000]))) \<le> 1"
proof (rule timeout_reported_once)
  let ?e = "reached default_detect example_run"
  have "\<exists>f. map_of (table ?e) example_key = Some f \<and> last_seen_ns f = 1"
    by (simp add: example_run_def case_prod_beta Let_def process_quiet sweep_due_def mid_def engine_new_def
        NS_PER_SEC_def sat_simps word_le_nat_alt map_of_next_state)
       (simp add: example_key_def tcp_result_def tcp_step_def syn_only_step_def pre_flow_def flow_state_new_def
        is_syn_only_def flag_defs Let_def case_prod_beta)
  then obtain f where f: "map_of (table ?e) example_key = Some f" "last_seen_ns f = 1" by blast
  then show "kept example_key ?e [Sweep 9000000000, Sweep 19000000000]"
    using kept_sweeps [OF reached_keys f(1), of "[9000000000, 19000000000]"]
    by (simp add: idle_def saturating_sub_def default_detect_def NS_PER_SEC_def)
qed

text \<open>C23: the events a packet causes: alerts of the detectors in the order of the chain, each at most once,
  all about the flow of the packet, then the timeouts of the sweep it may trigger; all carry the
  timestamp of the packet.\<close>

theorem process_events_shape:
  "\<exists>alerts timeouts. snd (process (reached cfg acts) p) = alerts @ timeouts \<and>
     subseq (map (\<lambda>ev. kind_str (ev_kind ev)) alerts) (map detector_name (default_detectors cfg)) \<and>
     list_all (\<lambda>ev. ev_ts ev = ts_nanos p \<and> ev_key ev = pkt_key p) alerts \<and>
     list_all (\<lambda>ev. ev_ts ev = ts_nanos p \<and> ev_kind ev = HandshakeTimeout) timeouts"
proof -
  let ?e = "reached cfg acts"
  let ?more = "if sweep_due ?e p then snd (sweep (mid ?e p) (ts_nanos p)) else []"
  have tags: "map detector_name (eng_detectors ?e) = map detector_name (default_detectors cfg)"
    by (simp add: run_tags) (simp add: engine_new_def)
  have kd: "keys_distinct (table (mid ?e p))" by (simp add: reached_keys)
  have "snd (process ?e p) = snd (chain_run ?e p) @ ?more" by (simp add: process_eq)
  moreover have "subseq (map (\<lambda>ev. kind_str (ev_kind ev)) (snd (chain_run ?e p))) (map detector_name (default_detectors cfg))"
    unfolding chain_run_def tags [symmetric] by (rule dc.chain_kinds)
  moreover have "list_all (\<lambda>ev. ev_ts ev = ts_nanos p \<and> ev_key ev = pkt_key p) (snd (chain_run ?e p))"
    using dc.chain_stamp [of _ "ctx_of ?e p" p "eng_detectors ?e"] by (auto simp: list_all_iff chain_run_def ctx_of_def)
  moreover have "list_all (\<lambda>ev. ev_ts ev = ts_nanos p \<and> ev_kind ev = HandshakeTimeout) ?more"
    by (auto simp: list_all_iff sweep_events [OF kd] timeout_event_def l4_event_new_def)
  ultimately show ?thesis by blast
qed

end
