(* ===== verification/Agent.thy ===== *)
theory Agent
  imports Export Attribution Capture_Laws Engine_Runs
begin

text \<open>
  \<^verbatim>\<open>l4scope-agent/src/main.rs\<close>: the command line, the layered configuration, and the loop that
  wires capture, detection and export. The loop may wait forever on a live source: it is a
  partial function, and returning is proved for the finite sources.
\<close>

section \<open>The command line\<close>

record args =
  a_config :: "string option"
  a_backend :: "string option"
  a_pcap :: "string option"
  a_iface :: "string option"
  a_live_cmd :: "string option"
  a_json :: "string option"
  a_no_metrics :: bool
  a_quiet :: bool

definition args_empty :: args where
  "args_empty = \<lparr>a_config = None, a_backend = None, a_pcap = None, a_iface = None, a_live_cmd = None,
     a_json = None, a_no_metrics = False, a_quiet = False\<rparr>"

datatype parsed_args = ArgsHelp | ArgsError string | ArgsOk args

definition quoted :: "string \<Rightarrow> string" where
  "quoted s = [CHR 0x27] @ s @ [CHR 0x27]"

function parse_args :: "string list \<Rightarrow> args \<Rightarrow> parsed_args" where
  "parse_args [] a = ArgsOk a"
| "parse_args (arg # it) a =
     (let with_value = (\<lambda>f. case it of [] \<Rightarrow> ArgsError (arg @ '' needs a value'')
                                     | v # rest \<Rightarrow> parse_args rest (f v)) in
      if arg = ''-h'' \<or> arg = ''--help'' then ArgsHelp
      else if arg = ''--config'' then with_value (\<lambda>v. a\<lparr>a_config := Some v\<rparr>)
      else if arg = ''--backend'' then with_value (\<lambda>v. a\<lparr>a_backend := Some v\<rparr>)
      else if arg = ''--pcap'' then with_value (\<lambda>v. a\<lparr>a_pcap := Some v\<rparr>)
      else if arg = ''--iface'' then with_value (\<lambda>v. a\<lparr>a_iface := Some v\<rparr>)
      else if arg = ''--live-cmd'' then with_value (\<lambda>v. a\<lparr>a_live_cmd := Some v\<rparr>)
      else if arg = ''--json'' then with_value (\<lambda>v. a\<lparr>a_json := Some v\<rparr>)
      else if arg = ''--demo'' then parse_args it (a\<lparr>a_backend := Some ''synthetic''\<rparr>)
      else if arg = ''--no-metrics'' then parse_args it (a\<lparr>a_no_metrics := True\<rparr>)
      else if arg = ''--quiet'' then parse_args it (a\<lparr>a_quiet := True\<rparr>)
      else ArgsError (''unknown argument '' @ quoted arg @ '' (try --help)''))"
  by pat_completeness auto
termination
  by (relation "measure (\<lambda>(xs, a). length xs)") auto

section \<open>The effective configuration\<close>

definition apply_backend :: "config \<Rightarrow> string \<Rightarrow> string + config" where
  "apply_backend cfg nm =
     (let set = (\<lambda>b. Inr (cfg\<lparr>cfg_capture := (cfg_capture cfg)\<lparr>cc_backend := b\<rparr>\<rparr>)) in
      if nm = ''pcap_file'' \<or> nm = ''pcap'' then set PcapFile
      else if nm = ''synthetic'' \<or> nm = ''demo'' then set Synthetic
      else if nm = ''live'' \<or> nm = ''tcpdump'' then set Live
      else if nm = ''ebpf'' then set Ebpf
      else if nm = ''etw'' then set Etw
      else Inl (''unknown backend '' @ quoted nm))"

definition override :: "'a option \<Rightarrow> ('a \<Rightarrow> config \<Rightarrow> config) \<Rightarrow> config \<Rightarrow> config" where
  "override x f cfg = (case x of None \<Rightarrow> cfg | Some v \<Rightarrow> f v cfg)"

definition layered_config :: "(string \<Rightarrow> string + string) \<Rightarrow> args \<Rightarrow> string + config" where
  "layered_config read a =
     (case (case a_config a of Some path \<Rightarrow> map_sum show_error id (load read path) | None \<Rightarrow> Inr default_config) of
        Inl e \<Rightarrow> Inl e
      | Inr c0 \<Rightarrow>
          (case (case a_backend a of Some b \<Rightarrow> apply_backend c0 b | None \<Rightarrow> Inr c0) of
             Inl e \<Rightarrow> Inl e
           | Inr c1 \<Rightarrow>
               Inr (override (a_json a) (\<lambda>j c. c\<lparr>cfg_export := (cfg_export c)\<lparr>json_events := j\<rparr>\<rparr>)
                   (override (a_live_cmd a) (\<lambda>l c. c\<lparr>cfg_capture := (cfg_capture c)\<lparr>cc_live_command := l\<rparr>\<rparr>)
                   (override (a_iface a) (\<lambda>i c. c\<lparr>cfg_capture := (cfg_capture c)\<lparr>cc_interface := i\<rparr>\<rparr>)
                   (override (a_pcap a) (\<lambda>p c. c\<lparr>cfg_capture := (cfg_capture c)\<lparr>cc_backend := PcapFile, cc_pcap_path := p\<rparr>\<rparr>)
                    c1))))))"

section \<open>Resource attributes\<close>

definition kv_list :: "string \<Rightarrow> (string \<times> string) list" where
  "kv_list s = List.map_filter
     (\<lambda>kv. case split_once (CHR ''='') kv of
        Some (k, v) \<Rightarrow> if trim k = [] then None else Some (trim k, trim v) | None \<Rightarrow> None) (split_on (CHR '','') s)"

definition env_map :: "(string \<times> string) list" where
  "env_map = [(''HOSTNAME'', ''host.name''), (''K8S_NODE_NAME'', ''k8s.node.name''),
     (''NODE_NAME'', ''k8s.node.name''), (''K8S_CLUSTER_NAME'', ''k8s.cluster.name''),
     (''CLOUD_PROVIDER'', ''cloud.provider''), (''CLOUD_REGION'', ''cloud.region''),
     (''CLOUD_ACCOUNT_ID'', ''cloud.account.id'')]"

definition build_resource_attrs :: "(string \<Rightarrow> string option) \<Rightarrow> otlp_config \<Rightarrow> (string \<times> string) list" where
  "build_resource_attrs var cfg =
     [(''service.name'', oc_service_name cfg)] @
     List.map_filter (\<lambda>(env, key). case var env of Some v \<Rightarrow> if v = [] then None else Some (key, v) | None \<Rightarrow> None)
       env_map @
     kv_list (oc_resource_attributes cfg) @
     (case var ''OTEL_RESOURCE_ATTRIBUTES'' of Some s \<Rightarrow> kv_list s | None \<Rightarrow> [])"

section \<open>The loop\<close>

record agent =
  ag_registry :: registry
  ag_sink :: json_sink
  ag_summary :: "string counters"
  ag_packets :: u64
  ag_last_ts :: u64
  ag_engine :: engine
  ag_source :: source
  ag_world :: world

fun tag :: "severity \<Rightarrow> string" where
  "tag Info = ''INFO''" | "tag Warning = ''WARN''" | "tag Critical = ''CRIT''"

definition handle_event :: "bool \<Rightarrow> pod_matcher option \<Rightarrow> l4_event \<Rightarrow> agent \<Rightarrow> agent" where
  "handle_event quiet pods ev ag =
     (let pod_ip = Option.bind pods (\<lambda>m. local_pod_ip m (ev_key ev));
          w1 = emit (ag_sink ag) ev (ag_world ag);
          w2 = (if quiet then w1
                else eprintln (''['' @ tag (ev_severity ev) @ ''] '' @ kind_str (ev_kind ev) @ '': '' @ ev_detail ev) w1)
      in ag\<lparr>ag_registry := record_event ev pod_ip (ag_registry ag),
            ag_summary := bump (kind_str (ev_kind ev)) (ag_summary ag), ag_world := w2\<rparr>)"

definition update_gauges :: "agent \<Rightarrow> agent" where
  "update_gauges ag =
     (let s = stats (ag_engine ag) (ag_last_ts ag) in
      ag\<lparr>ag_registry := set_gauges (of_nat (active_flows s)) (ucast (st_half_open_max s)) (rst_per_sec s)
           (new_flow_per_sec s) (ag_registry ag)\<rparr>)"

definition agent_packet :: "bool \<Rightarrow> pod_matcher option \<Rightarrow> packet_meta \<Rightarrow> agent \<Rightarrow> agent" where
  "agent_packet quiet pods p ag =
     (let ag1 = ag\<lparr>ag_packets := ag_packets ag + 1, ag_last_ts := ts_nanos p,
                   ag_registry := record_packet (Option.bind pods (\<lambda>m. local_pod_ip m (pkt_key p))) (ag_registry ag)\<rparr>;
          (eng, evs) = process (ag_engine ag1) p;
          ag2 = fold (handle_event quiet pods) evs (ag1\<lparr>ag_engine := eng\<rparr>)
      in if ag_packets ag2 mod 512 = 0 then update_gauges ag2 else ag2)"

partial_function (option) agent_loop :: "bool \<Rightarrow> pod_matcher option \<Rightarrow> agent \<Rightarrow> agent option" where
  "agent_loop quiet pods ag = (case next_packet (ag_source ag) of
      None \<Rightarrow> None
    | Some (src, x) \<Rightarrow>
        (case x of
           Inl e \<Rightarrow> Some (ag\<lparr>ag_source := src, ag_world := eprintln (''l4scope: capture error: '' @ show_error e) (ag_world ag)\<rparr>)
         | Inr y \<Rightarrow>
             (case y of
                None \<Rightarrow> Some (ag\<lparr>ag_source := src\<rparr>)
              | Some p \<Rightarrow> agent_loop quiet pods (agent_packet quiet pods p (ag\<lparr>ag_source := src\<rparr>)))))"

definition agent_finish :: "bool \<Rightarrow> pod_matcher option \<Rightarrow> agent \<Rightarrow> agent" where
  "agent_finish quiet pods ag =
     (let (eng, evs) = sweep (ag_engine ag) (ag_last_ts ag)
      in update_gauges (fold (handle_event quiet pods) evs (ag\<lparr>ag_engine := eng\<rparr>)))"

section \<open>Run\<close>

record agent_env =
  ae_read :: "string \<Rightarrow> string + string"
  ae_capture :: capture_env
  ae_bind :: "string \<Rightarrow> string option"
  ae_open_append :: "string \<Rightarrow> string option"
  ae_net :: "string \<Rightarrow> u16 \<Rightarrow> net"
  ae_var :: "string \<Rightarrow> string option"
  ae_start_ns :: u64
  ae_flush_times :: "u64 \<times> u64"

datatype run_result = RunHelp | RunFailed string world | RunDone agent

fun show_backend :: "backend \<Rightarrow> string" where
  "show_backend PcapFile = ''PcapFile''" | "show_backend Synthetic = ''Synthetic''"
| "show_backend Live = ''Live''" | "show_backend Ebpf = ''Ebpf''" | "show_backend Etw = ''Etw''"

definition banner :: "args \<Rightarrow> config \<Rightarrow> world \<Rightarrow> world" where
  "banner a cfg = eprintln (''l4scope: backend='' @ show_backend (cc_backend (cfg_capture cfg)) @ '' iface='' @
     quoted (cc_interface (cfg_capture cfg)) @ '' metrics='' @
     quoted (if a_no_metrics a then ''off'' else prometheus_addr (cfg_export cfg)))"

definition start_metrics :: "agent_env \<Rightarrow> args \<Rightarrow> config \<Rightarrow> world \<Rightarrow> world" where
  "start_metrics env a cfg w =
     (let addr = prometheus_addr (cfg_export cfg) in
      if \<not> a_no_metrics a \<and> trim addr \<noteq> [] then
        (case serve (ae_bind env) addr of
           Inr _ \<Rightarrow> eprintln (''l4scope: metrics on http://'' @ addr @ ''/metrics'') w
         | Inl e \<Rightarrow> eprintln (''l4scope: warning: metrics disabled: '' @ show_error e) w)
      else w)"

definition pods_of :: "config \<Rightarrow> pod_matcher option" where
  "pods_of cfg =
     (if oc_pod_attribution (cfg_otlp cfg) \<and> trim (oc_pod_cidrs (cfg_otlp cfg)) \<noteq> []
      then Some (pod_matcher_new (oc_pod_cidrs (cfg_otlp cfg))) else None)"

definition start_push :: "agent_env \<Rightarrow> config \<Rightarrow> world \<Rightarrow> pusher option \<times> world" where
  "start_push env cfg w =
     (if oc_enabled (cfg_otlp cfg) then
        (let attrs = build_resource_attrs (ae_var env) (cfg_otlp cfg) in
         case otlp_start (cfg_otlp cfg) attrs (ae_start_ns env) of
           Inr p \<Rightarrow> (Some p, eprintln (''l4scope: otlp -> '' @ oc_endpoint (cfg_otlp cfg) @ oc_path (cfg_otlp cfg)) w)
         | Inl e \<Rightarrow> (None, eprintln (''l4scope: warning: otlp disabled: '' @ show_error e) w))
      else (None, w))"

definition final_flush :: "agent_env \<Rightarrow> config \<Rightarrow> pusher option \<Rightarrow> agent \<Rightarrow> agent" where
  "final_flush env cfg otlp ag = (case otlp of
      None \<Rightarrow> ag
    | Some p \<Rightarrow>
        (let (sent, r) = flush (ae_net env) (ag_registry ag) (cfg_otlp cfg) (p_attrs p)
               (fst (ae_flush_times env)) (snd (ae_flush_times env));
             w = send_post sent (ag_world ag)
         in ag\<lparr>ag_world := (case r of Inr _ \<Rightarrow> w
                          | Inl e \<Rightarrow> eprintln (''l4scope: otlp final flush failed: '' @ show_error e) w)\<rparr>))"

definition pad18 :: "string \<Rightarrow> string" where
  "pad18 s = replicate (18 - length s) (CHR '' '') @ s"

definition print_summary :: "agent \<Rightarrow> agent" where
  "print_summary ag =
     (let w1 = eprintln (nl @ ''l4scope: processed '' @ show_u64 (ag_packets ag) @ '' packets'') (ag_world ag);
          w2 = (if ag_summary ag = [] then eprintln ''l4scope: no L4 anomalies detected'' w1
                else fold (\<lambda>(kind, n). eprintln (''  '' @ pad18 kind @ '': '' @ show_u64 n)) (ag_summary ag)
                       (eprintln ''l4scope: event summary:'' w1))
      in ag\<lparr>ag_world := w2\<rparr>)"

definition drop_agent :: "agent \<Rightarrow> agent" where
  "drop_agent ag = ag\<lparr>ag_world := (ag_world ag)\<lparr>w_stopped := w_stopped (ag_world ag) @ drop_source (ag_source ag)\<rparr>\<rparr>"

definition run :: "agent_env \<Rightarrow> world \<Rightarrow> string list \<Rightarrow> run_result option" where
  "run env w argv = (case parse_args argv args_empty of
      ArgsHelp \<Rightarrow> Some RunHelp
    | ArgsError e \<Rightarrow> Some (RunFailed e w)
    | ArgsOk a \<Rightarrow>
        (case layered_config (ae_read env) a of
           Inl e \<Rightarrow> Some (RunFailed e w)
         | Inr cfg \<Rightarrow>
             (let w1 = start_metrics env a cfg (banner a cfg w) in
              case from_target (ae_open_append env) (json_events (cfg_export cfg)) of
                Inl e \<Rightarrow> Some (RunFailed (show_error e) w1)
              | Inr sink \<Rightarrow>
                  (let pods = pods_of cfg; (otlp, w2) = start_push env cfg w1 in
                   case open_source (ae_capture env) (cfg_capture cfg) of
                     Inl e \<Rightarrow> Some (RunFailed (show_error e) w2)
                   | Inr src \<Rightarrow>
                       (let ag = \<lparr>ag_registry = registry_new, ag_sink = sink, ag_summary = [], ag_packets = 0,
                              ag_last_ts = 0, ag_engine = engine_new (cfg_detect cfg), ag_source = src,
                              ag_world = eprintln (''l4scope: capturing from '' @ quoted (source_name src) @ '' '' @
                                [CHR 0xE2, CHR 0x80, CHR 0x94] @ '' press Ctrl-C to stop'') w2\<rparr>
                        in map_option (\<lambda>ag'. RunDone (drop_agent (print_summary (final_flush env cfg otlp
                              (agent_finish (a_quiet a) pods ag')))))
                             (agent_loop (a_quiet a) pods ag))))))"

text \<open>The help text. A backslash at the end of a line of the literal swallows the blanks that begin the
  next one, so the options are not indented.\<close>

definition help_lines :: "string list" where
  "help_lines =
     [''l4scope '' @ [CHR 0xE2, CHR 0x80, CHR 0x94] @ '' cross-platform Layer-4 network health agent'', '''',
      ''USAGE:'', ''  l4scope [OPTIONS]'', '''',
      ''OPTIONS:'',
      ''--demo                 Run the built-in synthetic traffic (no privileges needed)'',
      ''--pcap <FILE>          Replay a classic .pcap file'',
      ''--backend <NAME>       pcap_file | synthetic | live | ebpf | etw'',
      ''--iface <NAME>         Interface for live/ebpf/etw backends (eth0, en0, Ethernet)'',
      ''--live-cmd \"<CMD>\"     Override the live capture command'',
      ''--config <FILE>        Load a TOML config file'',
      ''--json <TARGET>        Event sink: stdout | stderr | <path> | off'',
      ''--no-metrics           Do not start the Prometheus endpoint'',
      ''--quiet                Do not print events to stderr'',
      ''-h, --help             Show this help'', '''']"

definition print_help :: "world \<Rightarrow> world" where
  "print_help w = w\<lparr>w_stdout := w_stdout w @ join nl help_lines @ nl\<rparr>"

datatype exit_code = ExitSuccess | ExitFailure

definition main :: "agent_env \<Rightarrow> world \<Rightarrow> string list \<Rightarrow> (exit_code \<times> world) option" where
  "main env w argv = (case run env w argv of
      None \<Rightarrow> None
    | Some r \<Rightarrow> Some (case r of
        RunHelp \<Rightarrow> (ExitSuccess, print_help w)
      | RunDone ag \<Rightarrow> (ExitSuccess, ag_world ag)
      | RunFailed e w1 \<Rightarrow> (ExitFailure, eprintln (''l4scope: error: '' @ e) w1)))"

end
