(* ===== verification/Agent_Laws.thy ===== *)
theory Agent_Laws
  imports Agent
begin

text \<open>
  What the agent reports: on a source that ends, the loop returns, the engine has seen exactly the
  packets of the source, and every event of that run, the final sweep included, is written to the
  sink once and in order and counted once in the registry and in the summary.
\<close>

section \<open>Handling events\<close>

definition ndjson :: "l4_event list \<Rightarrow> string" where
  "ndjson evs = concat (map (\<lambda>ev. to_json ev @ nl) evs)"

definition pod_of :: "pod_matcher option \<Rightarrow> flow_key \<Rightarrow> string option" where
  "pod_of pods k = Option.bind pods (\<lambda>m. local_pod_ip m k)"

abbreviation handle_all :: "bool \<Rightarrow> pod_matcher option \<Rightarrow> l4_event list \<Rightarrow> agent \<Rightarrow> agent" where
  "handle_all quiet pods \<equiv> fold (handle_event quiet pods)"

lemma handle_event_fields [simp]:
  "ag_engine (handle_event quiet pods ev ag) = ag_engine ag"
  "ag_sink (handle_event quiet pods ev ag) = ag_sink ag"
  "ag_packets (handle_event quiet pods ev ag) = ag_packets ag"
  "ag_last_ts (handle_event quiet pods ev ag) = ag_last_ts ag"
  "ag_source (handle_event quiet pods ev ag) = ag_source ag"
  "ag_summary (handle_event quiet pods ev ag) = bump (kind_str (ev_kind ev)) (ag_summary ag)"
  "ag_registry (handle_event quiet pods ev ag) = reg_step (SeenEvent ev (pod_of pods (ev_key ev))) (ag_registry ag)"
  by (simp_all add: handle_event_def Let_def pod_of_def)

lemma handle_event_stdout:
  "ag_sink ag = SinkStdout \<Longrightarrow>
   w_stdout (ag_world (handle_event quiet pods ev ag)) = w_stdout (ag_world ag) @ ndjson [ev]"
  by (simp add: handle_event_def emit_def eprintln_def ndjson_def Let_def)

lemma handle_all_fields [simp]:
  "ag_engine (handle_all quiet pods evs ag) = ag_engine ag"
  "ag_sink (handle_all quiet pods evs ag) = ag_sink ag"
  "ag_packets (handle_all quiet pods evs ag) = ag_packets ag"
  "ag_last_ts (handle_all quiet pods evs ag) = ag_last_ts ag"
  "ag_source (handle_all quiet pods evs ag) = ag_source ag"
  "ag_summary (handle_all quiet pods evs ag) = fold bump (map (\<lambda>ev. kind_str (ev_kind ev)) evs) (ag_summary ag)"
  "ag_registry (handle_all quiet pods evs ag) =
     fold reg_step (map (\<lambda>ev. SeenEvent ev (pod_of pods (ev_key ev))) evs) (ag_registry ag)"
  by (induction evs arbitrary: ag) simp_all

lemma handle_all_stdout:
  "ag_sink ag = SinkStdout \<Longrightarrow>
   w_stdout (ag_world (handle_all quiet pods evs ag)) = w_stdout (ag_world ag) @ ndjson evs"
  by (induction evs arbitrary: ag) (simp_all add: handle_event_stdout, simp_all add: ndjson_def)

section \<open>The trace of an agent\<close>

text \<open>What an agent has reported: its engine, its summary, the registry as a log whose labels are those
  of the events, and the sink.\<close>

definition reported :: "agent \<Rightarrow> agent \<Rightarrow> nat \<Rightarrow> l4_event list \<Rightarrow> bool" where
  "reported ag ag' n evs \<longleftrightarrow>
     ag_summary ag' = fold bump (map (\<lambda>ev. kind_str (ev_kind ev)) evs) (ag_summary ag) \<and>
     (\<exists>ops. ag_registry ag' = fold reg_step ops (ag_registry ag) \<and> labels ops = map label evs \<and> packet_ops ops = n) \<and>
     ag_sink ag' = ag_sink ag \<and>
     (ag_sink ag = SinkStdout \<longrightarrow> w_stdout (ag_world ag') = w_stdout (ag_world ag) @ ndjson evs)"

lemma labels_append [simp]: "labels (xs @ ys) = labels xs @ labels ys"
  by (simp add: labels_def map_filter_def)

lemma packet_ops_append [simp]: "packet_ops (xs @ ys) = packet_ops xs + packet_ops ys"
  by (simp add: packet_ops_def)

lemma labels_events [simp]: "labels (map (\<lambda>ev. SeenEvent ev (f ev)) evs) = map label evs"
  by (induction evs) simp_all

lemma packet_ops_events [simp]: "packet_ops (map (\<lambda>ev. SeenEvent ev (f ev)) evs) = 0"
  by (induction evs) simp_all

lemma ndjson_append [simp]: "ndjson (xs @ ys) = ndjson xs @ ndjson ys"
  by (simp add: ndjson_def)

lemma reported_trans:
  assumes "reported a b n xs" "reported b c m ys"
  shows "reported a c (n + m) (xs @ ys)"
proof -
  from assms obtain o1 o2 where
    "ag_registry b = fold reg_step o1 (ag_registry a)" "labels o1 = map label xs" "packet_ops o1 = n"
    "ag_registry c = fold reg_step o2 (ag_registry b)" "labels o2 = map label ys" "packet_ops o2 = m"
    unfolding reported_def by blast
  then have "\<exists>ops. ag_registry c = fold reg_step ops (ag_registry a) \<and> labels ops = map label (xs @ ys) \<and>
      packet_ops ops = n + m" by (intro exI [of _ "o1 @ o2"]) simp
  with assms show ?thesis by (simp add: reported_def)
qed

lemma reported_refl [simp]: "reported a a 0 []"
  by (simp add: reported_def ndjson_def) (intro exI [of _ "[]"], simp)

lemma reported_source: "reported a b n evs \<Longrightarrow> reported (a\<lparr>ag_source := s\<rparr>) (b\<lparr>ag_source := s'\<rparr>) n evs"
  by (simp add: reported_def)

lemma reported_gauges: "reported ag (update_gauges ag) 0 []"
proof -
  have "\<exists>a h x y. update_gauges ag = ag\<lparr>ag_registry := reg_step (Gauges a h x y) (ag_registry ag)\<rparr>"
    by (auto simp: update_gauges_def Let_def)
  then obtain a h x y where "update_gauges ag = ag\<lparr>ag_registry := reg_step (Gauges a h x y) (ag_registry ag)\<rparr>" by blast
  then show ?thesis by (simp add: reported_def ndjson_def del: reg_step.simps) (intro exI [of _ "[Gauges a h x y]"], simp)
qed

lemma reported_events: "reported ag (handle_all quiet pods evs ag) 0 evs"
  unfolding reported_def by (auto simp: handle_all_stdout intro!: exI [of _ "map (\<lambda>ev. SeenEvent ev (pod_of pods (ev_key ev))) evs"])

lemma update_gauges_fields [simp]:
  "ag_engine (update_gauges ag) = ag_engine ag" "ag_last_ts (update_gauges ag) = ag_last_ts ag"
  "ag_source (update_gauges ag) = ag_source ag" "ag_packets (update_gauges ag) = ag_packets ag"
  by (simp_all add: update_gauges_def Let_def)

lemma agent_packet_reported:
  "reported ag (agent_packet quiet pods p ag) 1 (snd (process (ag_engine ag) p))"
    and agent_packet_engine: "ag_engine (agent_packet quiet pods p ag) = fst (process (ag_engine ag) p)"
    and agent_packet_last: "ag_last_ts (agent_packet quiet pods p ag) = ts_nanos p"
    and agent_packet_source: "ag_source (agent_packet quiet pods p ag) = ag_source ag"
proof -
  obtain eng evs where pr: "process (ag_engine ag) p = (eng, evs)" by (cases "process (ag_engine ag) p")
  define ag1 where "ag1 = ag\<lparr>ag_packets := ag_packets ag + 1, ag_last_ts := ts_nanos p,
    ag_registry := record_packet (Option.bind pods (\<lambda>m. local_pod_ip m (pkt_key p))) (ag_registry ag), ag_engine := eng\<rparr>"
  define ag2 where "ag2 = handle_all quiet pods evs ag1"
  have eq: "agent_packet quiet pods p ag = (if ag_packets ag2 mod 512 = 0 then update_gauges ag2 else ag2)"
    by (simp add: agent_packet_def pr ag2_def ag1_def Let_def)
  have "reported ag ag1 1 []"
    by (simp add: reported_def ndjson_def ag1_def)
      (intro exI [of _ "[SeenPacket (Option.bind pods (\<lambda>m. local_pod_ip m (pkt_key p)))]"], simp)
  from reported_trans [OF this reported_events] have r2: "reported ag ag2 1 evs" by (simp add: ag2_def)
  from reported_trans [OF r2 reported_gauges] r2
  show "reported ag (agent_packet quiet pods p ag) 1 (snd (process (ag_engine ag) p))"
    by (simp add: eq pr)
  show "ag_engine (agent_packet quiet pods p ag) = fst (process (ag_engine ag) p)"
    "ag_last_ts (agent_packet quiet pods p ag) = ts_nanos p" "ag_source (agent_packet quiet pods p ag) = ag_source ag"
    by (simp_all add: eq pr ag2_def ag1_def)
qed

section \<open>The loop on a finite source\<close>

definition last_ts_of :: "packet_meta list \<Rightarrow> u64 \<Rightarrow> u64" where
  "last_ts_of ps t = (if ps = [] then t else ts_nanos (last ps))"

text \<open>A source yields packets and then ends, cleanly or with an error.\<close>

inductive yields :: "source \<Rightarrow> packet_meta list \<Rightarrow> error option \<Rightarrow> bool" where
  clean_end: "next_packet s = Some (s', Inr None) \<Longrightarrow> yields s [] None"
| failed: "next_packet s = Some (s', Inl e) \<Longrightarrow> yields s [] (Some e)"
| packet: "next_packet s = Some (s', Inr (Some p)) \<Longrightarrow> yields s' ps e \<Longrightarrow> yields s (p # ps) e"

lemma yields_synthetic: "yields (SynthSource s) (drop (syn_idx s) (syn_packets s)) None"
proof (induction "syn_left s" arbitrary: s)
  case 0
  then have "next_packet (SynthSource s) = Some (SynthSource s, Inr None)" "drop (syn_idx s) (syn_packets s) = []"
    by (simp_all add: synthetic_next_def syn_left_def)
  then show ?case by (simp add: yields.clean_end)
next
  case (Suc n)
  let ?s = "s\<lparr>syn_idx := syn_idx s + 1\<rparr>"
  from Suc.hyps(2) have lt: "syn_idx s < length (syn_packets s)" by (simp add: syn_left_def)
  then have nx: "next_packet (SynthSource s) = Some (SynthSource ?s, Inr (Some (syn_packets s ! syn_idx s)))"
    by (simp add: synthetic_next_def)
  have "n = syn_left ?s" using Suc.hyps(2) by (simp add: syn_left_def)
  from yields.packet [OF nx Suc.hyps(1) [OF this]] lt show ?case by (simp add: Cons_nth_drop_Suc)
qed

lemma yields_pcap: "yields (PcapSource s) (fst (drain (psrc_stream s))) (snd (drain (psrc_stream s)))"
proof (induction "psrc_left s" arbitrary: s rule: less_induct)
  case less
  obtain st x where nx: "pcap_next (psrc_stream s) = (st, x)" by (cases "pcap_next (psrc_stream s)")
  let ?s = "s\<lparr>psrc_stream := st\<rparr>"
  have np: "next_packet (PcapSource s) = Some (PcapSource ?s, x)" by (simp add: pcap_source_next_def nx)
  consider e where "x = Inl e" | "x = Inr None" | p where "x = Inr (Some p)" by (cases x; cases "projr x") auto
  then show ?case
  proof cases
    case (1 e)
    with np nx show ?thesis by (subst (1 2) drain.simps) (simp add: yields.failed)
  next
    case 2
    with np nx show ?thesis by (subst (1 2) drain.simps) (simp add: yields.clean_end)
  next
    case (3 p)
    have "psrc_left ?s < psrc_left s" using pcap_next_progress [of "psrc_stream s" st p] nx 3 by (simp add: psrc_left_def)
    from yields.packet [OF np [unfolded 3] less.hyps [OF this]] nx 3 show ?thesis
      by (subst (1 2) drain.simps) (simp add: case_prod_beta Let_def)
  qed
qed

definition run_of :: "agent \<Rightarrow> packet_meta list \<Rightarrow> agent \<Rightarrow> bool" where
  "run_of ag ps ag' \<longleftrightarrow> reported ag ag' (length ps) (snd (engine_run (ag_engine ag) (map Packet ps))) \<and>
     ag_engine ag' = fst (engine_run (ag_engine ag) (map Packet ps)) \<and> ag_last_ts ag' = last_ts_of ps (ag_last_ts ag)"

lemma run_of_end: "run_of ag [] (ag\<lparr>ag_source := s\<rparr>)"
  "run_of ag [] (ag\<lparr>ag_source := s, ag_world := eprintln m (ag_world ag)\<rparr>)"
  using reported_source [OF reported_refl [of ag], of "ag_source ag" s]
  by (simp_all add: run_of_def last_ts_of_def reported_def ndjson_def eprintln_def)

lemma run_of_packet:
  assumes "run_of (agent_packet quiet pods p (ag\<lparr>ag_source := s\<rparr>)) ps ag'"
  shows "run_of ag (p # ps) ag'"
proof -
  let ?ag = "ag\<lparr>ag_source := s\<rparr>"
  have "reported ag ?ag 0 []" using run_of_end(1) [of ag s] by (simp add: run_of_def)
  from reported_trans [OF this agent_packet_reported [of ?ag quiet pods p]]
  have "reported ag (agent_packet quiet pods p ?ag) 1 (snd (process (ag_engine ag) p))" by simp
  from reported_trans [OF this] assms show ?thesis
    by (auto simp: run_of_def agent_packet_engine agent_packet_last last_ts_of_def case_prod_beta Let_def)
qed

lemma agent_loop_yields:
  "yields s ps e \<Longrightarrow> ag_source ag = s \<Longrightarrow> \<exists>ag'. agent_loop quiet pods ag = Some ag' \<and> run_of ag ps ag'"
proof (induction arbitrary: ag rule: yields.induct)
  case (clean_end s s')
  then show ?case using run_of_end(1) [of ag s'] by (subst agent_loop.simps) simp
next
  case (failed s s' e)
  then show ?case using run_of_end(2) [where ag = ag and s = s'] by (subst agent_loop.simps) simp
next
  case (packet s s' p ps e)
  let ?ag = "agent_packet quiet pods p (ag\<lparr>ag_source := s'\<rparr>)"
  have "ag_source ?ag = s'" by (simp add: agent_packet_source)
  from packet.IH [OF this] obtain ag' where "agent_loop quiet pods ?ag = Some ag'" "run_of ?ag ps ag'" by blast
  with packet.hyps(1) packet.prems show ?case by (subst agent_loop.simps) (auto dest: run_of_packet)
qed

text \<open>The loop and the final sweep together: the run of the engine over the packets and one sweep.\<close>

definition full_run :: "engine \<Rightarrow> packet_meta list \<Rightarrow> l4_event list" where
  "full_run eng ps = snd (engine_run eng (map Packet ps @ [Sweep (last_ts_of ps 0)]))"

lemma agent_finish_reported:
  assumes "run_of ag ps ag'" "ag_last_ts ag = 0"
  shows "reported ag (agent_finish quiet pods ag') (length ps) (full_run (ag_engine ag) ps)"
proof -
  obtain eng evs where sw: "sweep (ag_engine ag') (ag_last_ts ag') = (eng, evs)" by (cases "sweep (ag_engine ag') (ag_last_ts ag')")
  have f: "agent_finish quiet pods ag' = update_gauges (handle_all quiet pods evs (ag'\<lparr>ag_engine := eng\<rparr>))"
    by (simp add: agent_finish_def sw)
  have "reported ag' (ag'\<lparr>ag_engine := eng\<rparr>) 0 []" using reported_refl [of ag'] by (simp add: reported_def)
  from reported_trans [OF this reported_trans [OF reported_events reported_gauges]]
  have r: "reported ag' (agent_finish quiet pods ag') 0 evs" by (simp add: f)
  have "full_run (ag_engine ag) ps = snd (engine_run (ag_engine ag) (map Packet ps)) @ evs"
    using assms sw by (simp add: full_run_def run_machine_append run_of_def case_prod_beta Let_def)
  with reported_trans [OF _ r] assms(1) show ?thesis by (auto simp: run_of_def)
qed

section \<open>Around the loop\<close>

text \<open>The messages before and after the loop go to the standard error stream only, and nothing is sent to
  the collector before the last flush.\<close>

lemma eprintln_fields [simp]: "w_stdout (eprintln s w) = w_stdout w" "w_posts (eprintln s w) = w_posts w"
  "w_stopped (eprintln s w) = w_stopped w"
  by (simp_all add: eprintln_def)

lemma send_post_fields [simp]: "w_stdout (send_post s w) = w_stdout w" "w_stopped (send_post s w) = w_stopped w"
  by (simp_all add: send_post_def)

lemma startup_fields [simp]:
  "w_stdout (banner a cfg w) = w_stdout w" "w_stdout (start_metrics env a cfg w) = w_stdout w"
  "w_stdout (snd (start_push env cfg w)) = w_stdout w"
  "w_posts (banner a cfg w) = w_posts w" "w_posts (start_metrics env a cfg w) = w_posts w"
  "w_posts (snd (start_push env cfg w)) = w_posts w"
  "w_stopped (banner a cfg w) = w_stopped w" "w_stopped (start_metrics env a cfg w) = w_stopped w"
  "w_stopped (snd (start_push env cfg w)) = w_stopped w"
  by (simp_all add: banner_def start_metrics_def start_push_def Let_def split: option.split sum.split)

lemma handle_event_posts [simp]: "w_posts (ag_world (handle_event quiet pods ev ag)) = w_posts (ag_world ag)"
  by (simp add: handle_event_def emit_def Let_def split: json_sink.split)

lemma handle_all_posts [simp]: "w_posts (ag_world (handle_all quiet pods evs ag)) = w_posts (ag_world ag)"
  by (induction evs arbitrary: ag) simp_all

lemma update_gauges_world [simp]: "ag_world (update_gauges ag) = ag_world ag"
  by (simp add: update_gauges_def Let_def)

lemma agent_packet_posts [simp]: "w_posts (ag_world (agent_packet quiet pods p ag)) = w_posts (ag_world ag)"
  by (simp add: agent_packet_def Let_def case_prod_beta)

lemma agent_finish_posts [simp]: "w_posts (ag_world (agent_finish quiet pods ag)) = w_posts (ag_world ag)"
  by (simp add: agent_finish_def Let_def case_prod_beta)

lemma agent_loop_posts:
  "yields s ps e \<Longrightarrow> ag_source ag = s \<Longrightarrow> agent_loop quiet pods ag = Some ag' \<Longrightarrow>
   w_posts (ag_world ag') = w_posts (ag_world ag)"
proof (induction arbitrary: ag rule: yields.induct)
  case (packet s s' p ps e)
  have "agent_loop quiet pods (agent_packet quiet pods p (ag\<lparr>ag_source := s'\<rparr>)) = Some ag'"
    using packet.prems packet.hyps(1) by (subst (asm) agent_loop.simps) simp
  from packet.IH [OF _ this] show ?case by (simp add: agent_packet_source)
qed (subst (asm) agent_loop.simps, auto)+

lemma reported_world: "reported a b n evs \<Longrightarrow> w_stdout w = w_stdout (ag_world b) \<Longrightarrow> reported a (b\<lparr>ag_world := w\<rparr>) n evs"
  by (simp add: reported_def)

lemma reported_final_flush: "reported a b n evs \<Longrightarrow> reported a (final_flush env cfg otlp b) n evs"
  by (auto simp: final_flush_def reported_world Let_def case_prod_beta split: option.split sum.split)

lemma summary_fold_fields:
  "w_stdout (fold (\<lambda>(kind, n). eprintln (f kind n)) xs w) = w_stdout w"
  "w_posts (fold (\<lambda>(kind, n). eprintln (f kind n)) xs w) = w_posts w"
  "w_stopped (fold (\<lambda>(kind, n). eprintln (f kind n)) xs w) = w_stopped w"
  by (induction xs arbitrary: w) (simp_all add: case_prod_beta)

lemma reported_summary: "reported a b n evs \<Longrightarrow> reported a (print_summary b) n evs"
  by (simp add: print_summary_def reported_world summary_fold_fields Let_def)

lemma print_summary_fields [simp]:
  "ag_registry (print_summary ag) = ag_registry ag" "w_posts (ag_world (print_summary ag)) = w_posts (ag_world ag)"
  by (simp_all add: print_summary_def summary_fold_fields Let_def)

lemma reported_drop: "reported a b n evs \<Longrightarrow> reported a (drop_agent b) n evs"
  by (simp add: drop_agent_def reported_world)

lemma drop_agent_fields [simp]:
  "ag_registry (drop_agent ag) = ag_registry ag" "w_posts (ag_world (drop_agent ag)) = w_posts (ag_world ag)"
  by (simp_all add: drop_agent_def)

text \<open>The pusher a configuration starts.\<close>

definition pusher_of :: "agent_env \<Rightarrow> config \<Rightarrow> pusher option" where
  "pusher_of env cfg = fst (start_push env cfg world_empty)"

lemma fst_start_push: "fst (start_push env cfg w) = pusher_of env cfg"
  by (simp add: pusher_of_def start_push_def Let_def split: sum.split)

lemma run_shape:
  assumes "parse_args argv args_empty = ArgsOk a" "layered_config (ae_read env) a = Inr cfg"
    "from_target (ae_open_append env) (json_events (cfg_export cfg)) = Inr sink"
    "open_source (ae_capture env) (cfg_capture cfg) = Inr src" "yields src ps err"
  obtains ag ag0 where "run env w argv = Some (RunDone (drop_agent (print_summary (final_flush env cfg (pusher_of env cfg) ag))))"
    "reported ag0 ag (length ps) (full_run (engine_new (cfg_detect cfg)) ps)" "w_posts (ag_world ag) = w_posts w"
    "ag_registry ag0 = registry_new" "ag_summary ag0 = []" "ag_sink ag0 = sink" "w_stdout (ag_world ag0) = w_stdout w"
proof -
  let ?w = "start_push env cfg (start_metrics env a cfg (banner a cfg w))"
  define ag0 where "ag0 = \<lparr>ag_registry = registry_new, ag_sink = sink, ag_summary = [], ag_packets = 0,
    ag_last_ts = 0, ag_engine = engine_new (cfg_detect cfg), ag_source = src,
    ag_world = eprintln (''l4scope: capturing from '' @ quoted (source_name src) @ '' '' @
      [CHR 0xE2, CHR 0x80, CHR 0x94] @ '' press Ctrl-C to stop'') (snd ?w)\<rparr>"
  have "ag_source ag0 = src" by (simp add: ag0_def)
  from agent_loop_yields [OF assms(5) this, of "a_quiet a" "pods_of cfg"] obtain ag' where
    l: "agent_loop (a_quiet a) (pods_of cfg) ag0 = Some ag'" "run_of ag0 ps ag'" by blast
  let ?ag = "agent_finish (a_quiet a) (pods_of cfg) ag'"
  have r: "reported ag0 ?ag (length ps) (full_run (engine_new (cfg_detect cfg)) ps)"
    using agent_finish_reported [OF l(2)] by (simp add: ag0_def)
  have p: "w_posts (ag_world ?ag) = w_posts w"
    using agent_loop_posts [OF assms(5) _ l(1)] by (simp add: ag0_def)
  have "run env w argv = Some (RunDone (drop_agent (print_summary (final_flush env cfg (pusher_of env cfg) ?ag))))"
    using l(1) by (simp add: run_def assms ag0_def Let_def case_prod_beta fst_start_push)
  from that [OF this r p] show thesis by (simp add: ag0_def)
qed

lemma run_reported:
  assumes "parse_args argv args_empty = ArgsOk a" "layered_config (ae_read env) a = Inr cfg"
    "from_target (ae_open_append env) (json_events (cfg_export cfg)) = Inr sink"
    "open_source (ae_capture env) (cfg_capture cfg) = Inr src" "yields src ps err"
  obtains ag ag0 where "run env w argv = Some (RunDone ag)" "reported ag0 ag (length ps) (full_run (engine_new (cfg_detect cfg)) ps)"
    "ag_registry ag0 = registry_new" "ag_summary ag0 = []" "ag_sink ag0 = sink" "w_stdout (ag_world ag0) = w_stdout w"
  by (rule run_shape [OF assms]) (blast intro: that reported_drop reported_summary reported_final_flush)

text \<open>The child process of a source, and the processes stopped so far, do not change until the source is
  dropped at the end.\<close>

lemma next_packet_child: "next_packet s = Some (s', x) \<Longrightarrow> drop_source s' = drop_source s"
  by (cases s) (auto simp: pcap_source_next_def map_prod_def split: prod.splits)

lemma handle_all_stopped [simp]: "w_stopped (ag_world (handle_all quiet pods evs ag)) = w_stopped (ag_world ag)"
proof (induction evs arbitrary: ag)
  case (Cons ev evs)
  then show ?case by (simp add: handle_event_def emit_def Let_def split: json_sink.split)
qed simp

lemma agent_packet_stopped: "w_stopped (ag_world (agent_packet quiet pods p ag)) = w_stopped (ag_world ag)"
  by (simp add: agent_packet_def Let_def case_prod_beta)

lemma agent_loop_child:
  "yields s ps e \<Longrightarrow> ag_source ag = s \<Longrightarrow> agent_loop quiet pods ag = Some ag' \<Longrightarrow>
   drop_source (ag_source ag') = drop_source s \<and> w_stopped (ag_world ag') = w_stopped (ag_world ag)"
proof (induction arbitrary: ag rule: yields.induct)
  case (packet s s' p ps e)
  have "agent_loop quiet pods (agent_packet quiet pods p (ag\<lparr>ag_source := s'\<rparr>)) = Some ag'"
    using packet.prems packet.hyps(1) by (subst (asm) agent_loop.simps) simp
  from packet.IH [OF _ this] packet.hyps(1) show ?case
    by (simp add: agent_packet_source agent_packet_stopped next_packet_child)
qed (subst (asm) agent_loop.simps, auto dest: next_packet_child)+

lemma final_stopped:
  "ag_source (agent_finish quiet pods ag) = ag_source ag"
  "w_stopped (ag_world (agent_finish quiet pods ag)) = w_stopped (ag_world ag)"
  "ag_source (final_flush env cfg otlp ag) = ag_source ag"
  "w_stopped (ag_world (final_flush env cfg otlp ag)) = w_stopped (ag_world ag)"
  "ag_source (print_summary ag) = ag_source ag"
  "w_stopped (ag_world (print_summary ag)) = w_stopped (ag_world ag)"
  by (simp_all add: agent_finish_def final_flush_def print_summary_def summary_fold_fields case_prod_beta Let_def
    split: option.split sum.split)

text \<open>The capture tool that a live source started is stopped when the run is over, and nothing else is.\<close>

lemma run_stops_child:
  assumes "parse_args argv args_empty = ArgsOk a" "layered_config (ae_read env) a = Inr cfg"
    "from_target (ae_open_append env) (json_events (cfg_export cfg)) = Inr sink"
    "open_source (ae_capture env) (cfg_capture cfg) = Inr src" "yields src ps err" "run env w argv = Some (RunDone ag)"
  shows "w_stopped (ag_world ag) = w_stopped w @ drop_source src"
proof -
  from assms(6) obtain ag0 ag' where l: "agent_loop (a_quiet a) (pods_of cfg) ag0 = Some ag'" "ag_source ag0 = src"
    "w_stopped (ag_world ag0) = w_stopped w"
    "ag = drop_agent (print_summary (final_flush env cfg (pusher_of env cfg) (agent_finish (a_quiet a) (pods_of cfg) ag')))"
    by (auto simp: run_def assms(1-4) Let_def case_prod_beta fst_start_push)
  from agent_loop_child [OF assms(5) l(2,1)] l(3,4) show ?thesis
    by (simp add: drop_agent_def final_stopped)
qed

lemma final_flush_posts:
  assumes "otlp_start (cfg_otlp cfg) attrs now = Inr p" "net_connect (ae_net env (t_host (p_target p)) (t_port (p_target p))) = None"
    "net_write (ae_net env (t_host (p_target p)) (t_port (p_target p))) = None"
    "net_write_body (ae_net env (t_host (p_target p)) (t_port (p_target p))) = None"
    "body = build_body (snapshot (ag_registry ag)) attrs (fst (ae_flush_times env)) (snd (ae_flush_times env))"
  shows "w_posts (ag_world (final_flush env cfg (Some p) ag)) =
      w_posts (ag_world ag) @ [otlp_request (p_target p) body @ body]"
    and "ag_registry (final_flush env cfg (Some p) ag) = ag_registry ag"
proof -
  have p: "parse_target (cfg_otlp cfg) = Inr (p_target p)" "p_attrs p = attrs"
    using assms(1) by (auto simp: otlp_start_def split: sum.splits)
  have "\<exists>r. post (ae_net env) (p_target p) body = (otlp_request (p_target p) body @ body, r)"
    using assms(2-4) by (simp add: post_def Let_def)
  then obtain r where "post (ae_net env) (p_target p) body = (otlp_request (p_target p) body @ body, r)" by blast
  moreover have "otlp_request (p_target p) body \<noteq> []" by (simp add: otlp_request_def)
  ultimately show "w_posts (ag_world (final_flush env cfg (Some p) ag)) =
      w_posts (ag_world ag) @ [otlp_request (p_target p) body @ body]"
    "ag_registry (final_flush env cfg (Some p) ag) = ag_registry ag"
    using p assms(5) by (simp_all add: final_flush_def flush_def build_and_post_def send_post_def Let_def split: sum.split)
qed

section \<open>Returning\<close>

text \<open>A ring on which polling fails at some point: every call of the source answers, and the failure stays
  ahead until it is met.\<close>

definition poll_fails :: "ring_item list \<Rightarrow> bool" where
  "poll_fails rs \<longleftrightarrow> list_ex (\<lambda>x. case x of PollFailed e \<Rightarrow> True | _ \<Rightarrow> False) rs"

lemma ebpf_loop_answers:
  "poll_fails rs \<Longrightarrow> \<exists>rs' x. ebpf_loop off little rs = Some (rs', x) \<and> length rs' < length rs \<and>
     ((\<exists>e. x = Inl e) \<or> (\<exists>p. x = Inr (Some p)) \<and> poll_fails rs')"
proof (induction rs)
  case (Cons r rs)
  then show ?case
  proof (cases r)
    case (RingRecord b)
    with Cons show ?thesis
      by (cases "ebpf_decode off (read_bpf_event little b)") (fastforce simp: poll_fails_def)+
  qed (fastforce simp: poll_fails_def)+
qed (simp add: poll_fails_def)

lemma yields_ebpf: "poll_fails (eb_ring s) \<Longrightarrow> \<exists>ps e. yields (EbpfSource s) ps e"
proof (induction "length (eb_ring s)" arbitrary: s rule: less_induct)
  case less
  from ebpf_loop_answers [OF less.prems, of "eb_wall_offset s" "eb_little s"] obtain rs x where
    l: "ebpf_loop (eb_wall_offset s) (eb_little s) (eb_ring s) = Some (rs, x)" "length rs < length (eb_ring s)"
      "(\<exists>e. x = Inl e) \<or> (\<exists>p. x = Inr (Some p)) \<and> poll_fails rs" by blast
  let ?s = "s\<lparr>eb_ring := rs\<rparr>"
  have np: "next_packet (EbpfSource s) = Some (EbpfSource ?s, x)" by (simp add: ebpf_next_def l(1))
  from less.hyps [of ?s] l(2) have "poll_fails rs \<Longrightarrow> \<exists>ps e. yields (EbpfSource ?s) ps e" by simp
  with l(3) np show ?case by (metis yields.failed yields.packet)
qed

fun source_ends :: "source \<Rightarrow> bool" where
  "source_ends (EbpfSource s) = poll_fails (eb_ring s)"
| "source_ends _ = True"

lemma source_yields: "source_ends s \<Longrightarrow> \<exists>ps e. yields s ps e"
proof (cases s)
  case (EbpfSource e)
  then show "source_ends s \<Longrightarrow> ?thesis" by (simp add: yields_ebpf)
qed (use yields_synthetic yields_pcap in blast)+

lemma open_live_ends: "open_live env c = Inr src \<Longrightarrow> source_ends src"
  by (auto simp: open_live_def pcap_source_from_reader_def Let_def split: if_splits sum.splits option.splits)

lemma ebpf_open_ends:
  "ebpf_open bpf c = Inr src \<Longrightarrow> (\<And>iface. poll_fails (bpf_ring (bpf iface))) \<Longrightarrow> source_ends src"
  by (auto simp: ebpf_open_def Let_def split: if_splits option.splits prod.splits)

text \<open>A host on which the ring, if it has one, does not wait forever.\<close>

definition ring_ends :: "capture_env \<Rightarrow> bool" where
  "ring_ends env \<longleftrightarrow> (case env_ebpf env of None \<Rightarrow> True | Some bpf \<Rightarrow> \<forall>iface. poll_fails (bpf_ring (bpf iface)))"

lemma open_source_ends:
  assumes "open_source env c = Inr src" "ring_ends env"
  shows "source_ends src"
proof (cases "cc_backend c")
  case Live
  with assms(1) show ?thesis by (auto simp: open_source_def dest: open_live_ends)
next
  case Ebpf
  with assms show ?thesis by (auto simp: open_source_def open_ebpf_def ring_ends_def dest: ebpf_open_ends split: option.splits)
next
  case Etw
  with assms(1) show ?thesis by (auto simp: open_source_def open_etw_def etw_open_def split: if_splits)
qed (use assms(1) in \<open>auto simp: open_source_def pcap_source_from_reader_def split: if_splits sum.splits\<close>)

text \<open>What the program opens before it captures.\<close>

definition starts :: "agent_env \<Rightarrow> string list \<Rightarrow> bool" where
  "starts env argv \<longleftrightarrow> (case parse_args argv args_empty of
      ArgsOk a \<Rightarrow> (case layered_config (ae_read env) a of
        Inr cfg \<Rightarrow> (case (from_target (ae_open_append env) (json_events (cfg_export cfg)),
              open_source (ae_capture env) (cfg_capture cfg)) of
            (Inr sink, Inr src) \<Rightarrow> True | _ \<Rightarrow> False)
      | Inl e \<Rightarrow> False)
    | _ \<Rightarrow> False)"

lemma starts_run:
  assumes "starts env argv" "ring_ends (ae_capture env)"
  shows "\<exists>ag. run env w argv = Some (RunDone ag)"
proof -
  from assms(1) obtain a cfg sink src where
    s: "parse_args argv args_empty = ArgsOk a" "layered_config (ae_read env) a = Inr cfg"
      "from_target (ae_open_append env) (json_events (cfg_export cfg)) = Inr sink"
      "open_source (ae_capture env) (cfg_capture cfg) = Inr src"
    by (auto simp: starts_def split: parsed_args.splits sum.splits)
  from source_yields [OF open_source_ends [OF s(4) assms(2)]] obtain ps e where "yields src ps e" by blast
  from run_shape [OF s this, of w] show ?thesis by blast
qed

lemma not_starts_run:
  assumes "\<not> starts env argv" "parse_args argv args_empty \<noteq> ArgsHelp"
  shows "\<exists>e w'. run env w argv = Some (RunFailed e w')"
  using assms by (auto simp: starts_def run_def Let_def split: parsed_args.splits sum.splits prod.splits)

end
