(* ===== verification/Engine_Alerts.thy ===== *)
theory Engine_Alerts
  imports Engine_Runs
begin

text \<open>
  The host-wide alerts over runs of the engine: their spacing under the debounce, the rate the
  RST-storm rule sees, and the three-way handshake as the engine reports it.
\<close>

section \<open>Debounced alerts are spaced\<close>

fun debounce_of :: "event_kind \<Rightarrow> detector \<Rightarrow> debounce option" where
  "debounce_of RstStorm (RstStormDetector b) = Some b"
| "debounce_of SynBacklog (SynBacklogDetector b) = Some b"
| "debounce_of ConnectionChurn (ChurnDetector b) = Some b"
| "debounce_of _ _ = None"

definition host_wide :: "event_kind \<Rightarrow> bool" where
  "host_wide kd \<longleftrightarrow> kd \<in> {RstStorm, SynBacklog, ConnectionChurn}"

definition alert_times :: "event_kind \<Rightarrow> l4_event list \<Rightarrow> u64 list" where
  "alert_times kd evs = map ev_ts (filter (\<lambda>ev. ev_kind ev = kd) evs)"

definition chain_debounce :: "event_kind \<Rightarrow> detector list \<Rightarrow> debounce list" where
  "chain_debounce kd ds = List.map_filter (debounce_of kd) ds"

lemma alert_times_simps [simp]:
  "alert_times kd [] = []"
  "alert_times kd (e # es) = (if ev_kind e = kd then ev_ts e # alert_times kd es else alert_times kd es)"
  "alert_times kd (xs @ ys) = alert_times kd xs @ alert_times kd ys"
  by (simp_all add: alert_times_def)

lemma chain_debounce_simps [simp]:
  "chain_debounce kd [] = []"
  "chain_debounce kd (d # ds) = (case debounce_of kd d of None \<Rightarrow> chain_debounce kd ds
     | Some b \<Rightarrow> b # chain_debounce kd ds)"
  by (simp_all add: chain_debounce_def map_filter_simps split: option.split)

lemma inspect_other:
  assumes "host_wide kd" "debounce_of kd d = None"
  shows "debounce_of kd (fst (inspect d c p)) = None"
    and "snd (inspect d c p) = Some e \<Longrightarrow> ev_kind e \<noteq> kd"
proof -
  show "debounce_of kd (fst (inspect d c p)) = None"
    using assms by (cases d; auto simp: host_wide_def)
  assume e: "snd (inspect d c p) = Some e"
  from dc.tag_kind [OF this] have "kind_str (ev_kind e) = detector_name d" .
  with assms show "ev_kind e \<noteq> kd" by (cases d; auto simp: host_wide_def)
qed

lemma inspect_debounced:
  assumes "debounce_of kd d = Some b" "inspect d c p = (d', r)"
  shows "r = None \<and> debounce_of kd d' = Some b \<or>
    (\<exists>e b'. r = Some e \<and> ev_kind e = kd \<and> ready b (ctx_now c) = (b', True) \<and> debounce_of kd d' = Some b')"
proof -
  have ready_False: "ready b t = (b', False) \<Longrightarrow> b' = b" for t b' by (simp add: ready_def split: if_splits)
  show ?thesis
    using assms ready_False
    by (cases "(kd, d)" rule: debounce_of.cases)
      (auto simp: inspect_rst_storm_def inspect_syn_backlog_def inspect_churn_def Let_def l4_event_new_def
        split: if_splits option.splits prod.splits)
qed

lemma chain_other:
  assumes "host_wide kd" "chain_debounce kd ds = []"
  shows "chain_debounce kd (fst (run_chain inspect c p ds)) = []"
    and "alert_times kd (snd (run_chain inspect c p ds)) = []"
  using assms(2)
proof (induction ds)
  case (Cons d ds)
  { case 1
    then show ?case using inspect_other(1) [OF assms(1), of d c p] Cons.IH(1)
      by (auto simp: case_prod_beta Let_def split: option.splits) }
  { case 2
    then show ?case using inspect_other(2) [OF assms(1), of d c p] Cons.IH(2)
      by (auto simp: case_prod_beta Let_def split: option.splits) }
qed simp_all

lemma chain_debounced:
  assumes kd: "host_wide kd" and ds: "chain_debounce kd ds = [b]" and r: "run_chain inspect c p ds = (ds', evs)"
  shows "alert_times kd evs = [] \<and> chain_debounce kd ds' = [b] \<or>
    (\<exists>b'. alert_times kd evs = [ctx_now c] \<and> ready b (ctx_now c) = (b', True) \<and> chain_debounce kd ds' = [b'])"
  using ds r
proof (induction ds arbitrary: ds' evs)
  case Nil
  then show ?case by simp
next
  case (Cons d ds)
  obtain d' x where i: "inspect d c p = (d', x)" by (cases "inspect d c p")
  obtain ds1 evs1 where t: "run_chain inspect c p ds = (ds1, evs1)" by (cases "run_chain inspect c p ds")
  from Cons.prems(2) have out: "ds' = d' # ds1" "evs = (case x of None \<Rightarrow> evs1 | Some e \<Rightarrow> e # evs1)"
    by (simp_all add: i t)
  show ?case
  proof (cases "debounce_of kd d")
    case None
    with Cons.prems(1) have "chain_debounce kd ds = [b]" by simp
    from Cons.IH [OF this t] inspect_other [OF kd None, of c p] show ?thesis
      by (auto simp: out i split: option.splits)
  next
    case (Some b0)
    with Cons.prems(1) have b0: "b0 = b" "chain_debounce kd ds = []" by simp_all
    have rest: "chain_debounce kd ds1 = []" "alert_times kd evs1 = []"
      using chain_other [OF kd b0(2), of c p] by (simp_all add: t)
    have stamp: "x = Some e \<Longrightarrow> ev_ts e = ctx_now c" for e
      using dc.stamp [of d c p] by (simp add: i)
    from inspect_debounced [OF Some i] rest b0(1) stamp show ?thesis by (auto simp: out)
  qed
qed

definition packet_times :: "action list \<Rightarrow> u64 list" where
  "packet_times acts = List.map_filter (\<lambda>a. case a of Packet p \<Rightarrow> Some (ts_nanos p) | Sweep t \<Rightarrow> None) acts"

lemma packet_times_simps [simp]:
  "packet_times [] = []" "packet_times (Packet p # as) = ts_nanos p # packet_times as"
  "packet_times (Sweep t # as) = packet_times as"
  by (simp_all add: packet_times_def map_filter_simps)

lemma sweep_alerts [simp]: "host_wide kd \<Longrightarrow> keys_distinct (table e) \<Longrightarrow> alert_times kd (snd (sweep e t)) = []"
  by (auto simp: sweep_events alert_times_def filter_empty_conv timeout_event_def l4_event_new_def host_wide_def)

lemma process_alerts:
  assumes kd: "host_wide kd" and k: "keys_distinct (table e)" and ds: "chain_debounce kd (eng_detectors e) = [b]"
  shows "alert_times kd (snd (process e p)) = [] \<and> chain_debounce kd (eng_detectors (fst (process e p))) = [b] \<or>
    (\<exists>b'. alert_times kd (snd (process e p)) = [ts_nanos p] \<and> ready b (ts_nanos p) = (b', True) \<and>
      chain_debounce kd (eng_detectors (fst (process e p))) = [b'])"
proof -
  have c: "ctx_now (ctx_of e p) = ts_nanos p" by (simp add: ctx_of_def)
  have "chain_run e p = (fst (chain_run e p), snd (chain_run e p))" by simp
  from chain_debounced [OF kd ds this [unfolded chain_run_def]] show ?thesis
    using kd k by (auto simp: process_eq chain_run_def c)
qed

lemma run_alerts:
  assumes kd: "host_wide kd"
  shows "keys_distinct (table e) \<Longrightarrow> chain_debounce kd (eng_detectors e) = [b] \<Longrightarrow>
    \<exists>ts. subseq ts (packet_times acts) \<and> alert_times kd (snd (engine_run e acts)) = fired b ts"
proof (induction acts arbitrary: e b)
  case Nil
  then show ?case by (intro exI [of _ "[]"]) simp
next
  case (Cons a acts)
  note k' = step_keys [OF Cons.prems(1), of a]
  show ?case
  proof (cases a)
    case (Sweep t)
    with Cons.IH [OF k', of b] Cons.prems kd show ?thesis by (simp add: case_prod_beta Let_def)
  next
    case (Packet p)
    from process_alerts [OF kd Cons.prems, of p] show ?thesis
    proof (elim disjE exE conjE)
      assume "alert_times kd (snd (process e p)) = []" "chain_debounce kd (eng_detectors (fst (process e p))) = [b]"
      with Cons.IH [OF k', of b] Packet show ?thesis by (auto simp: case_prod_beta Let_def)
    next
      fix b' assume *: "alert_times kd (snd (process e p)) = [ts_nanos p]" "ready b (ts_nanos p) = (b', True)"
        "chain_debounce kd (eng_detectors (fst (process e p))) = [b']"
      with Cons.IH [OF k', of b'] Packet obtain ts where
        "subseq ts (packet_times acts)" "alert_times kd (snd (engine_run (fst (process e p)) acts)) = fired b' ts" by auto
      with * Packet show ?thesis by (intro exI [of _ "ts_nanos p # ts"]) (simp add: case_prod_beta Let_def)
    qed
  qed
qed

lemma sorted_subseq: "subseq xs ys \<Longrightarrow> sorted ys \<Longrightarrow> sorted xs"
proof (induction rule: list_emb.induct)
  case (list_emb_Cons2 x y xs ys)
  then show ?case by (auto elim: list_emb_set)
qed simp_all

lemma engine_new_chain: "host_wide kd \<Longrightarrow>
  chain_debounce kd (eng_detectors (engine_new cfg)) = [debounce_new (alert_debounce_secs cfg)]"
  by (auto simp: host_wide_def engine_new_def default_detectors_def Let_def)

lemma alerts_spaced:
  assumes "host_wide kd" "sorted (packet_times acts)"
  shows "sorted_wrt (\<lambda>t u. t = 0 \<or> unat t + unat (alert_debounce_secs cfg * NS_PER_SEC) \<le> unat u)
    (alert_times kd (snd (engine_run (engine_new cfg) acts)))"
proof -
  have "keys_distinct (table (engine_new cfg))" by (simp add: engine_new_def engine_state_new_def)
  from run_alerts [OF assms(1) this engine_new_chain [OF assms(1)], of acts]
  obtain ts where ts: "subseq ts (packet_times acts)"
    "alert_times kd (snd (engine_run (engine_new cfg) acts)) = fired (debounce_new (alert_debounce_secs cfg)) ts"
    by blast
  from fired_spaced [OF sorted_subseq [OF ts(1) assms(2)], of "debounce_new (alert_debounce_secs cfg)"] show ?thesis
    by (simp add: ts(2) debounce_new_def NS_PER_SEC_def)
qed

section \<open>The rule of a host-wide alert\<close>

text \<open>The rule of a host-wide alert, and its one place in the chain.\<close>

fun host_rule :: "event_kind \<Rightarrow> debounce \<Rightarrow> detect_ctx \<Rightarrow> l4_event option" where
  "host_rule RstStorm b c = snd (inspect_rst_storm b c)"
| "host_rule SynBacklog b c = snd (inspect_syn_backlog b c)"
| "host_rule ConnectionChurn b c = snd (inspect_churn b c)"
| "host_rule _ b c = None"

lemma inspect_host_rule: "debounce_of kd d = Some b \<Longrightarrow> snd (inspect d c p) = host_rule kd b c"
  by (cases "(kd, d)" rule: debounce_of.cases) simp_all

lemma chain_host_rule:
  assumes hw: "host_wide kd" and "chain_debounce kd ds = [b]"
  shows "alert_times kd (snd (run_chain inspect c p ds)) =
    (case host_rule kd b c of None \<Rightarrow> [] | Some e \<Rightarrow> [ctx_now c])"
  using assms(2)
proof (induction ds)
  case Nil
  then show ?case by simp
next
  case (Cons d ds)
  show ?case
  proof (cases "debounce_of kd d")
    case None
    then have "snd (inspect d c p) = Some e \<Longrightarrow> ev_kind e \<noteq> kd" for e
      by (rule inspect_other(2) [OF hw])
    with Cons None show ?thesis by (auto simp: case_prod_beta Let_def split: option.split)
  next
    case (Some b0)
    with Cons.prems have b: "b0 = b" "chain_debounce kd ds = []" by simp_all
    have "ev_kind e = kd \<and> ev_ts e = ctx_now c" if "snd (inspect d c p) = Some e" for e
      using inspect_debounced [OF Some surjective_pairing, of c p] dc.stamp [OF that] that by auto
    with chain_other(2) [OF hw b(2), of c p] inspect_host_rule [OF Some, of c p] b show ?thesis
      by (auto simp: case_prod_beta Let_def split: option.split)
  qed
qed

lemma process_host_rule:
  assumes "host_wide kd" "chain_debounce kd (eng_detectors e) = [b]" "keys_distinct (table e)"
  shows "alert_times kd (snd (process e p)) \<noteq> [] \<longleftrightarrow> host_rule kd b (ctx_of e p) \<noteq> None"
  using assms by (auto simp: process_eq chain_run_def chain_host_rule split: option.split)

section \<open>Alerts on a rate\<close>

text \<open>The packets that one of the two host-wide rates counts, and the limit of its rule.\<close>

definition rst_seen :: "packet_meta \<Rightarrow> bool" where
  "rst_seen p \<longleftrightarrow> pkt_proto p = Tcp \<and> \<not> syn (pkt_flags p) \<and> rst (pkt_flags p)"

definition opens_flow :: "engine_state \<Rightarrow> packet_meta \<Rightarrow> bool" where
  "opens_flow es p \<longleftrightarrow> map_of (flows es) (pkt_key p) = None"

fun counted :: "event_kind \<Rightarrow> engine_state \<Rightarrow> packet_meta \<Rightarrow> bool" where
  "counted RstStorm es p = rst_seen p"
| "counted ConnectionChurn es p = opens_flow es p"
| "counted _ es p = False"

fun rate_limit :: "event_kind \<Rightarrow> detect_config \<Rightarrow> f64" where
  "rate_limit RstStorm cfg = rst_storm_per_sec cfg"
| "rate_limit ConnectionChurn cfg = churn_per_sec cfg"
| "rate_limit _ cfg = F64_NaN"

text \<open>The times of the counted packets of a run.\<close>

fun hit_times :: "(engine_state \<Rightarrow> packet_meta \<Rightarrow> bool) \<Rightarrow> engine \<Rightarrow> action list \<Rightarrow> u64 list" where
  "hit_times hit e [] = []"
| "hit_times hit e (Packet p # acts) =
     (if hit (eng_state e) p then ts_nanos p # hit_times hit (fst (process e p)) acts else hit_times hit (fst (process e p)) acts)"
| "hit_times hit e (Sweep t # acts) = hit_times hit (fst (sweep e t)) acts"

lemma hit_times_append:
  "hit_times hit e (as @ bs) = hit_times hit e as @ hit_times hit (fst (engine_run e as)) bs"
  by (induction hit e as rule: hit_times.induct) (simp_all add: case_prod_beta Let_def)

lemma hit_times_subseq: "subseq (hit_times hit e acts) (packet_times acts)"
  by (induction hit e acts rule: hit_times.induct) auto

lemma packet_times_length: "length (packet_times acts) \<le> length acts"
  by (simp add: packet_times_def map_filter_def)

text \<open>An alert on a rate: the rule fires on a packet it counts when the rate, that packet included, has
  reached the limit; the rate is recorded on these packets only and survives a sweep.\<close>

locale rate_alert =
  fixes kd :: event_kind
    and rate :: "globals \<Rightarrow> rolling_rate"
  assumes host: "host_wide kd"
    and rule: "host_rule kd b (ctx_of e p) \<noteq> None \<longleftrightarrow> counted kd (eng_state e) p \<and> snd (ready b (ts_nanos p)) \<and>
      \<not> f64_lt (per_sec (rate (es_globals (next_state (eng_state e) p))) (ts_nanos p)) (rate_limit kd (es_cfg (eng_state e)))"
    and rate_next: "rate (es_globals (next_state es p)) =
      (if counted kd es p then rr_record (ts_nanos p) (rate (es_globals es)) else rate (es_globals es))"
    and rate_sweep: "rate (es_globals (eng_state (fst (sweep e t)))) = rate (es_globals (eng_state e))"
    and rate_new: "rate globals_new = rolling_rate_new 1"
begin

lemma run_rate:
  "rate (es_globals (eng_state (fst (engine_run e acts)))) =
     fold rr_record (hit_times (counted kd) e acts) (rate (es_globals (eng_state e)))"
proof (induction acts arbitrary: e)
  case (Cons a acts)
  then show ?case
    by (cases a) (simp_all add: case_prod_beta Let_def process_eq rate_next rate_sweep)
qed simp

lemma alert_iff:
  assumes srt: "sorted (packet_times (acts @ [Packet p]))" and len: "length acts < 2 ^ 32"
    and thr: "rate_limit kd cfg = f64_of_rat (of_nat k)" "k < 2 ^ 53" and p: "counted kd (eng_state (reached cfg acts)) p"
    and b: "chain_debounce kd (eng_detectors (reached cfg acts)) = [b]"
  shows "alert_times kd (snd (process (reached cfg acts) p)) \<noteq> [] \<longleftrightarrow> snd (ready b (ts_nanos p)) \<and>
     k \<le> length (filter (\<lambda>t. sec_of t = sec_of (ts_nanos p)) (hit_times (counted kd) (engine_new cfg) (acts @ [Packet p])))"
proof -
  let ?e = "reached cfg acts"
  define ts where "ts = hit_times (counted kd) (engine_new cfg) (acts @ [Packet p])"
  have sts: "sorted ts" unfolding ts_def by (rule sorted_subseq [OF hit_times_subseq srt])
  have ts: "ts = hit_times (counted kd) (engine_new cfg) acts @ [ts_nanos p]" using p by (simp add: ts_def hit_times_append)
  define r where "r = fold rr_record ts (rolling_rate_new 1)"
  have rr: "rate (es_globals (next_state (eng_state ?e) p)) = r"
    using p by (simp add: rate_next r_def ts run_rate) (simp add: engine_new_def engine_state_new_def rate_new)
  have le: "\<forall>t \<in> set ts. sec_of t \<le> sec_of (ts_nanos p)" using sts by (auto simp: ts sorted_append sec_mono)
  have win: "events_in_window 1 ts (ts_nanos p) = length (filter (\<lambda>t. sec_of t = sec_of (ts_nanos p)) ts)"
    unfolding events_in_window_def using le by (intro arg_cong [of _ _ length] filter_cong) auto
  have "length ts \<le> Suc (length acts)"
    using list_emb_length [OF hit_times_subseq] packet_times_length [of "acts @ [Packet p]"] unfolding ts_def
    by (metis le_trans length_append_singleton)
  then have "events_in_window 1 ts (ts_nanos p) < 2 ^ 64"
    using len unfolding events_in_window_def by (intro le_less_trans [OF length_filter_le]) simp
  then have cnt: "unat (count_window r (ts_nanos p)) = events_in_window 1 ts (ts_nanos p)"
    using ring_ok_count [OF ring_ok_fold [OF sts] le, of 1]
    by (simp add: r_def unsigned_of_nat take_bit_nat_eq_self rolling_rate_new_def)
  have w: "window_secs r = 1" by (simp add: r_def rolling_rate_new_def)
  have "es_cfg (eng_state ?e) = cfg" by (simp add: run_cfg) (simp add: engine_new_def engine_state_new_def)
  with p have "alert_times kd (snd (process ?e p)) \<noteq> [] \<longleftrightarrow>
      snd (ready b (ts_nanos p)) \<and> k \<le> events_in_window 1 ts (ts_nanos p)"
    unfolding process_host_rule [OF host b reached_keys, of p] rule rr
    by (simp add: thr(1) per_sec_threshold [OF w thr(2)] cnt not_less)
  then show ?thesis unfolding win unfolding ts_def .
qed

end

text \<open>The two rates are kept by the code as the contract asks.\<close>

lemma rate_frame [step_frame]:
  "rst_rate (fst (snd (establish_step p s))) = rst_rate (fst (snd s))"
  "rst_rate (fst (snd (fin_step p s))) = rst_rate (fst (snd s))"
  "rst_rate (fst (snd (zero_window_step p s))) = rst_rate (fst (snd s))"
  "rst_rate (fst (snd (data_step p s))) = rst_rate (fst (snd s))"
  "rst_rate (fst (snd (dup_ack_step p s))) = rst_rate (fst (snd s))"
  "rst_rate (fst (snd (syn_only_step p s))) = rst_rate (fst (snd s))"
  "rst_rate (fst (snd (syn_ack_step p s))) = rst_rate (fst (snd s))"
  "rst_rate (fst (snd (rst_step p s))) = rr_record (ts_nanos p) (rst_rate (fst (snd s)))"
  by (cases s; simp add: step_defs Let_def clear_half_open_eq split: option.split prod.split)+

lemma new_flow_rate_frame:
  "new_flow_rate (fst (snd (establish_step p s))) = new_flow_rate (fst (snd s))"
  "new_flow_rate (fst (snd (fin_step p s))) = new_flow_rate (fst (snd s))"
  "new_flow_rate (fst (snd (zero_window_step p s))) = new_flow_rate (fst (snd s))"
  "new_flow_rate (fst (snd (data_step p s))) = new_flow_rate (fst (snd s))"
  "new_flow_rate (fst (snd (dup_ack_step p s))) = new_flow_rate (fst (snd s))"
  "new_flow_rate (fst (snd (syn_only_step p s))) = new_flow_rate (fst (snd s))"
  "new_flow_rate (fst (snd (syn_ack_step p s))) = new_flow_rate (fst (snd s))"
  "new_flow_rate (fst (snd (rst_step p s))) = new_flow_rate (fst (snd s))"
  by (cases s; simp add: step_defs Let_def clear_half_open_eq split: option.split prod.split)+

lemma new_flow_frame:
  "new_flow (snd (snd (establish_step p s))) = new_flow (snd (snd s))"
  "new_flow (snd (snd (fin_step p s))) = new_flow (snd (snd s))"
  "new_flow (snd (snd (zero_window_step p s))) = new_flow (snd (snd s))"
  "new_flow (snd (snd (data_step p s))) = new_flow (snd (snd s))"
  "new_flow (snd (snd (dup_ack_step p s))) = new_flow (snd (snd s))"
  "new_flow (snd (snd (syn_only_step p s))) = new_flow (snd (snd s))"
  "new_flow (snd (snd (syn_ack_step p s))) = new_flow (snd (snd s))"
  "new_flow (snd (snd (rst_step p s))) = new_flow (snd (snd s))"
  by (cases s; simp add: step_defs Let_def clear_half_open_eq split: option.split prod.split)+

lemma churn_frame:
  "new_flow_rate (fst (snd (tcp_step p s))) = new_flow_rate (fst (snd s))"
  "new_flow (snd (snd (tcp_step p s))) = new_flow (snd (snd s))"
  by (simp_all add: tcp_step_def other_step_def new_flow_rate_frame new_flow_frame Let_def)

lemma rst_frame [step_frame]:
  "delta_rst (snd (snd (syn_only_step p s))) = delta_rst (snd (snd s))"
  "delta_rst (snd (snd (syn_ack_step p s))) = delta_rst (snd (snd s))"
  "delta_rst (snd (snd (rst_step p s)))"
  by (cases s; simp add: step_defs Let_def clear_half_open_eq split: option.split prod.split)+

lemma next_rst_rate:
  "rst_rate (es_globals (next_state es p)) =
     (if rst_seen p then rr_record (ts_nanos p) (rst_rate (es_globals es)) else rst_rate (es_globals es))"
  by (auto simp: next_state_def update_eq tcp_result_def tcp_step_def other_step_def step_frame rst_seen_def
      start_globals_def is_syn_only_def is_syn_ack_def Let_def)

lemma next_churn_rate:
  "new_flow_rate (es_globals (next_state es p)) =
     (if opens_flow es p then rr_record (ts_nanos p) (new_flow_rate (es_globals es)) else new_flow_rate (es_globals es))"
  by (simp add: next_state_def update_eq tcp_result_def churn_frame start_globals_def opens_flow_def Let_def)

lemma delta_rst_iff: "delta_rst (delta_of es p) \<longleftrightarrow> rst_seen p"
  by (auto simp: delta_of_eq tcp_result_def tcp_step_def other_step_def step_frame rst_seen_def
      start_delta_def packet_delta_default_def is_syn_only_def is_syn_ack_def Let_def)

lemma new_flow_iff: "new_flow (delta_of es p) \<longleftrightarrow> opens_flow es p"
  by (simp add: delta_of_eq tcp_result_def churn_frame start_delta_def packet_delta_default_def opens_flow_def Let_def)

lemma half_open_decr_rates:
  "rst_rate (half_open_decr ep g) = rst_rate g" "new_flow_rate (half_open_decr ep g) = new_flow_rate g"
  by (simp_all add: half_open_decr_def split: option.split)

lemma settle_rates: "rst_rate (settle f g) = rst_rate g" "new_flow_rate (settle f g) = new_flow_rate g"
  by (simp_all add: settle_def half_open_decr_rates)

lemma flag_timeouts_rates:
  "rst_rate (es_globals (fst (flag_timeouts t ks es))) = rst_rate (es_globals es) \<and>
   new_flow_rate (es_globals (fst (flag_timeouts t ks es))) = new_flow_rate (es_globals es)"
proof (induction ks arbitrary: es)
  case (Cons k ks)
  then show ?case
    by (cases "map_of (flows es) k")
      (simp_all add: flag_timeouts_Cons settle_rates case_prod_beta Let_def del: flag_timeouts.simps(2), simp)
qed simp

lemma remove_idle_rates:
  "rst_rate (es_globals (remove_idle ks es)) = rst_rate (es_globals es) \<and>
   new_flow_rate (es_globals (remove_idle ks es)) = new_flow_rate (es_globals es)"
  by (induction ks arbitrary: es) (simp_all add: half_open_decr_rates split: option.split)

lemma sweep_rates:
  "rst_rate (es_globals (eng_state (fst (sweep e t)))) = rst_rate (es_globals (eng_state e))"
  "new_flow_rate (es_globals (eng_state (fst (sweep e t)))) = new_flow_rate (es_globals (eng_state e))"
  by (simp_all add: sweep_eq flag_timeouts_rates remove_idle_rates)

interpretation rs: rate_alert RstStorm rst_rate
  by unfold_locales
    (auto simp: host_wide_def inspect_rst_storm_def ctx_of_def ctx_globals_def ctx_cfg_def delta_rst_iff next_rst_rate
      sweep_rates globals_new_def Let_def case_prod_beta)

interpretation cc: rate_alert ConnectionChurn new_flow_rate
  by unfold_locales
    (auto simp: host_wide_def inspect_churn_def ctx_of_def ctx_globals_def ctx_cfg_def new_flow_iff next_churn_rate
      sweep_rates globals_new_def Let_def case_prod_beta)

section \<open>The SYN-backlog rule\<close>

lemma syn_backlog_run:
  assumes len: "length acts < 2 ^ 32 - 1" and b: "chain_debounce SynBacklog (eng_detectors (reached cfg acts)) = [b]"
  shows "alert_times SynBacklog (snd (process (reached cfg acts) p)) \<noteq> [] \<longleftrightarrow> snd (ready b (ts_nanos p)) \<and>
    (\<exists>f. map_of (flows (next_state (eng_state (reached cfg acts)) p)) (pkt_key p) = Some f \<and>
      unat (syn_backlog_threshold cfg) \<le> half_open_flows (flows (next_state (eng_state (reached cfg acts)) p)) (fs_service f))"
proof -
  let ?e = "reached cfg acts"
  let ?es = "next_state (eng_state ?e) p"
  have "engine_inv ?e" "length (table ?e) \<le> length acts" using engine_run_inv [of acts cfg] len by simp_all
  then have "es_inv ?es" using next_state_inv [of "eng_state ?e" p] len by (simp add: engine_inv_def)
  then have cnt: "unat (half_open_for (es_globals ?es) ep) = half_open_flows (flows ?es) ep" for ep by (simp add: es_inv_def)
  have cfg: "es_cfg (eng_state ?e) = cfg" by (simp add: run_cfg) (simp add: engine_new_def engine_state_new_def)
  have "host_wide SynBacklog" by (simp add: host_wide_def)
  from process_host_rule [OF this b reached_keys, of p] show ?thesis
    by (auto simp: inspect_syn_backlog_def ctx_of_def ctx_globals_def ctx_cfg_def ctx_flow_def cfg not_less
        word_less_nat_alt cnt Let_def case_prod_beta split: option.splits)
qed

section \<open>Properties\<close>

text \<open>C9: the host-wide alerts (reset storm, SYN backlog, connection churn) are debounced: along a run of
  packets in time order, an alert comes at least the configured interval (in nanoseconds, modulo
  \<open>2 ^ 64\<close>) after each earlier alert of its kind, unless that one was raised at time zero: the debounce uses
  zero for \<open>never\<close>, so an alert at time zero holds nothing back.\<close>

theorem host_alerts_spaced:
  assumes "kd \<in> {RstStorm, SynBacklog, ConnectionChurn}" "sorted (packet_times acts)"
  shows "sorted_wrt (\<lambda>t u. t = 0 \<or> unat t + unat (alert_debounce_secs cfg * NS_PER_SEC) \<le> unat u)
    (alert_times kd (snd (engine_run (engine_new cfg) acts)))"
  using alerts_spaced [of kd acts cfg] assms by (simp add: host_wide_def)

text \<open>Two resets, sixteen seconds apart, with a limit of one reset in a second: two alerts.\<close>

abbreviation touchy :: detect_config where
  "touchy \<equiv> default_detect\<lparr>rst_storm_per_sec := f64_of_rat 1\<rparr>"

abbreviation reset_at :: "u64 \<Rightarrow> packet_meta" where
  "reset_at t \<equiv> example_packet t Forward RST 6 0 0"

lemma two_storms:
  "alert_times RstStorm (snd (engine_run (engine_new touchy) [Packet (reset_at 5000000000), Packet (reset_at 21000000000)])) =
     [5000000000, 21000000000]"
proof -
  let ?p = "reset_at 5000000000" and ?q = "reset_at 21000000000" and ?e = "engine_new touchy"
  let ?b = "\<lparr>last_ns = 5000000000, gap_ns = 10000000000\<rparr>"
  have hw: "host_wide RstStorm" by (simp add: host_wide_def)
  have hit: "counted RstStorm es (reset_at t)" for es t by (simp add: rst_seen_def flag_defs)
  have new: "chain_debounce RstStorm (eng_detectors (reached touchy [])) = [debounce_new 10]"
    using engine_new_chain [OF hw, of touchy] by (simp add: default_detect_def)
  have lim: "rate_limit RstStorm touchy = f64_of_rat (of_nat 1)" by simp
  have "alert_times RstStorm (snd (process ?e ?p)) \<noteq> []"
    using rs.alert_iff [OF _ _ lim _ hit new, of 5000000000] by (simp add: ready_def debounce_new_def rst_seen_def flag_defs)
  then have first: "alert_times RstStorm (snd (process ?e ?p)) = [5000000000]"
    "chain_debounce RstStorm (eng_detectors (fst (process ?e ?p))) = [?b]"
    using process_alerts [OF hw reached_keys new, of ?p] by (auto simp: ready_def debounce_new_def)
  have b: "chain_debounce RstStorm (eng_detectors (reached touchy [Packet ?p])) = [?b]"
    using first(2) by (simp add: case_prod_beta Let_def)
  have "alert_times RstStorm (snd (process (reached touchy [Packet ?p]) ?q)) \<noteq> []"
    using rs.alert_iff [OF _ _ lim _ hit b, of 21000000000]
    by (simp add: ready_def saturating_sub_def rst_seen_def flag_defs)
  then have second: "alert_times RstStorm (snd (process (fst (process ?e ?p)) ?q)) = [21000000000]"
    using process_alerts [OF hw reached_keys b, of ?q] by (auto simp: case_prod_beta Let_def)
  show ?thesis by (simp add: case_prod_beta Let_def first(1) second)
qed

theorem host_alerts_spaced_witness:
  "alert_times RstStorm (snd (engine_run (engine_new touchy) [Packet (reset_at 5000000000), Packet (reset_at 21000000000)])) =
     [5000000000, 21000000000] \<and>
   sorted_wrt (\<lambda>t u. t = 0 \<or> unat t + unat (alert_debounce_secs touchy * NS_PER_SEC) \<le> unat u)
    (alert_times RstStorm (snd (engine_run (engine_new touchy) [Packet (reset_at 5000000000), Packet (reset_at 21000000000)])))"
  by (intro conjI two_storms host_alerts_spaced) simp_all

text \<open>C10: when a reset storm or connection churn is reported. On a packet that the rate counts (a reset, or
  the first packet of a flow that is not in the table) at the end of any run of packets in time order,
  with a limit of \<open>k\<close> per second and an alert not held back by the debounce, the engine reports the alert
  if and only if at least \<open>k\<close> such packets, this one included, fell into the current second.\<close>

theorem rate_alert_iff:
  assumes "kd \<in> {RstStorm, ConnectionChurn}" "counted kd (eng_state (reached cfg acts)) p"
    "sorted (packet_times (acts @ [Packet p]))" "length acts < 2 ^ 32"
    "rate_limit kd cfg = f64_of_rat (of_nat k)" "k < 2 ^ 53"
    "chain_debounce kd (eng_detectors (reached cfg acts)) = [b]" "snd (ready b (ts_nanos p))"
  shows "alert_times kd (snd (process (reached cfg acts) p)) \<noteq> [] \<longleftrightarrow>
    k \<le> length (filter (\<lambda>t. unat t div 1000000000 = unat (ts_nanos p) div 1000000000)
      (hit_times (counted kd) (engine_new cfg) (acts @ [Packet p])))"
  using assms(1)
proof (elim insertE emptyE)
  assume "kd = RstStorm"
  with rs.alert_iff [OF assms(3,4) _ assms(6)] assms show ?thesis unfolding sec_of_def by simp
next
  assume "kd = ConnectionChurn"
  with cc.alert_iff [OF assms(3,4) _ assms(6)] assms show ?thesis unfolding sec_of_def by simp
qed

theorem rate_alert_iff_witness:
  "alert_times RstStorm (snd (process (reached (default_detect\<lparr>rst_storm_per_sec := f64_of_rat 1\<rparr>) [])
     (example_packet 5000000000 Forward RST 6 0 0))) \<noteq> [] \<and>
   alert_times ConnectionChurn (snd (process (reached (default_detect\<lparr>churn_per_sec := f64_of_rat 2\<rparr>) [])
     (example_packet 5000000000 Forward SYN 6 0 0))) = []"
proof -
  let ?c1 = "default_detect\<lparr>rst_storm_per_sec := f64_of_rat 1\<rparr>" and ?c2 = "default_detect\<lparr>churn_per_sec := f64_of_rat 2\<rparr>"
  let ?p = "example_packet 5000000000 Forward RST 6 0 0" and ?q = "example_packet 5000000000 Forward SYN 6 0 0"
  have p: "counted RstStorm es ?p" for es by (simp add: rst_seen_def flag_defs)
  have q: "counted ConnectionChurn (eng_state (reached ?c2 [])) ?q" by (simp add: opens_flow_def engine_new_def)
  have b: "chain_debounce RstStorm (eng_detectors (reached ?c1 [])) = [debounce_new (alert_debounce_secs ?c1)]"
    "chain_debounce ConnectionChurn (eng_detectors (reached ?c2 [])) = [debounce_new (alert_debounce_secs ?c2)]"
    by (simp_all add: engine_new_chain host_wide_def)
  show ?thesis
    using rate_alert_iff [OF _ p _ _ _ _ b(1), of 1] rate_alert_iff [OF _ q _ _ _ _ b(2), of 2] p q
    by (simp add: ready_def debounce_new_def)
qed

text \<open>C40: when a SYN backlog is reported. At the end of any run, for an alert not held back by the
  debounce, the engine reports the backlog on a packet if and only if the service of its flow then has
  at least the threshold of half-open connections, counted over the whole table.\<close>

theorem syn_backlog_iff:
  assumes "length acts < 2 ^ 32 - 1" "chain_debounce SynBacklog (eng_detectors (reached cfg acts)) = [b]"
    "snd (ready b (ts_nanos p))" "fst (update (eng_state (reached cfg acts)) p) = es" "map_of (flows es) (pkt_key p) = Some f"
  shows "alert_times SynBacklog (snd (process (reached cfg acts) p)) \<noteq> [] \<longleftrightarrow>
    unat (syn_backlog_threshold cfg) \<le> length (filter (\<lambda>(k, g). half_open_counted g \<and> fs_service g = fs_service f) (flows es))"
  using syn_backlog_run [OF assms(1,2), of p] assms(3-5)
  by (simp add: next_state_def half_open_flows_def count_entries_def case_prod_beta)

theorem syn_backlog_iff_witness:
  "alert_times SynBacklog (snd (process (reached (default_detect\<lparr>syn_backlog_threshold := 1\<rparr>) [])
     (example_packet 5 Forward SYN 6 0 0))) \<noteq> []"
proof -
  let ?cfg = "default_detect\<lparr>syn_backlog_threshold := 1\<rparr>"
  let ?p = "example_packet 5 Forward SYN 6 0 0"
  let ?es = "fst (update (eng_state (reached ?cfg [])) ?p)"
  have b: "chain_debounce SynBacklog (eng_detectors (reached ?cfg [])) = [debounce_new (alert_debounce_secs ?cfg)]"
    by (simp add: engine_new_chain host_wide_def)
  have "\<exists>f. flows ?es = [(example_key, f)] \<and> half_open_counted f"
    by (simp add: update_eq engine_new_def tcp_result_def tcp_step_def syn_only_step_def pre_flow_def flow_state_new_def
        is_syn_only_def flag_defs Let_def case_prod_beta)
  then obtain f where f: "flows ?es = [(example_key, f)]" "half_open_counted f" by blast
  show ?thesis
    using syn_backlog_iff [OF _ b _ refl, of ?p f] f by (simp add: ready_def debounce_new_def)
qed

end
