(* ===== verification/Handshake.thy ===== *)
theory Handshake
  imports Engine_Alerts
begin

text \<open>
  The three-way handshake as the flow table sees it, with packets of other flows in between: the
  state of the flow, the RTT sample, the half-open count and the events of the engine.
\<close>

section \<open>Packets of other flows\<close>

definition after :: "engine_state \<Rightarrow> packet_meta list \<Rightarrow> engine_state" where
  "after es ps = fst (run_updates es ps)"

lemma after_simps [simp]: "after es [] = es" "after es (p # ps) = after (next_state es p) ps"
  by (simp_all add: after_def case_prod_beta Let_def)

lemma after_append: "after es (ps @ qs) = after (after es ps) qs"
  by (induction ps arbitrary: es) simp_all

definition others :: "flow_key \<Rightarrow> packet_meta list \<Rightarrow> bool" where
  "others k ps \<longleftrightarrow> list_all (\<lambda>p. pkt_key p \<noteq> k) ps"

lemma after_others: "others k ps \<Longrightarrow> map_of (flows (after es ps)) k = map_of (flows es) k"
proof (induction ps arbitrary: es)
  case (Cons p ps)
  then show ?case by (auto simp: others_def map_of_next_state)
qed simp

section \<open>The steps of a handshake\<close>

definition syn_pkt :: "flow_key \<Rightarrow> packet_meta \<Rightarrow> bool" where
  "syn_pkt k p \<longleftrightarrow> pkt_key p = k \<and> pkt_proto p = Tcp \<and> is_syn_only (pkt_flags p)"

definition syn_ack_pkt :: "flow_key \<Rightarrow> packet_meta \<Rightarrow> bool" where
  "syn_ack_pkt k p \<longleftrightarrow> pkt_key p = k \<and> pkt_proto p = Tcp \<and> is_syn_ack (pkt_flags p)"

definition ack_pkt :: "flow_key \<Rightarrow> packet_meta \<Rightarrow> bool" where
  "ack_pkt k p \<longleftrightarrow> pkt_key p = k \<and> plain_seg p \<and> ack (pkt_flags p) \<and> \<not> fin (pkt_flags p)"

lemma syn_not_syn_ack: "is_syn_ack fl \<Longrightarrow> \<not> is_syn_only fl"
  by (simp add: is_syn_only_def is_syn_ack_def)

lemma first_syn:
  assumes "syn_pkt k p" "map_of (flows es) k = None"
  shows "\<exists>f. map_of (flows (next_state es p)) k = Some f \<and> fs_state f = SynSent \<and>
    syn_time_ns f = Some (ts_nanos p) \<and> half_open_counted f \<and> fs_service f = snd (endpoints p) \<and> \<not> fs_established f"
proof -
  have "pkt_key p = k" "pkt_proto p = Tcp" "is_syn_only (pkt_flags p)" using assms(1) by (simp_all add: syn_pkt_def)
  with assms(2) show ?thesis
    by (simp add: map_of_next_state tcp_result_def tcp_step_def syn_only_step_def pre_flow_def
        flow_state_new_def guess_service_def case_prod_beta Let_def)
qed

lemma syn_ack_reply:
  assumes "syn_ack_pkt k p" "map_of (flows es) k = Some f" "syn_time_ns f = Some t"
  shows "rtt_sample_ns (delta_of es p) = Some (saturating_sub (ts_nanos p) t)"
    and "\<exists>f'. map_of (flows (next_state es p)) k = Some f' \<and> fs_state f' = SynAckSeen \<and>
      rtt_ns f' = Some (saturating_sub (ts_nanos p) t) \<and> half_open_counted f' = half_open_counted f \<and>
      fs_service f' = fs_service f"
proof -
  have p: "pkt_key p = k" "pkt_proto p = Tcp" "is_syn_ack (pkt_flags p)" "\<not> is_syn_only (pkt_flags p)"
    using assms(1) syn_not_syn_ack by (simp_all add: syn_ack_pkt_def)
  from p assms(2,3) show "rtt_sample_ns (delta_of es p) = Some (saturating_sub (ts_nanos p) t)"
    by (simp add: delta_of_eq tcp_result_def tcp_step_def syn_ack_step_def pre_flow_def Let_def)
  from p assms(2,3) show "\<exists>f'. map_of (flows (next_state es p)) k = Some f' \<and> fs_state f' = SynAckSeen \<and>
      rtt_ns f' = Some (saturating_sub (ts_nanos p) t) \<and> half_open_counted f' = half_open_counted f \<and>
      fs_service f' = fs_service f"
    by (simp add: map_of_next_state tcp_result_def tcp_step_def syn_ack_step_def pre_flow_def Let_def)
qed

lemma counted_frame [step_frame]:
  "half_open_counted (fst (zero_window_step p s)) = half_open_counted (fst s)"
  "half_open_counted (fst (data_step p s)) = half_open_counted (fst s)"
  "half_open_counted (fst (dup_ack_step p s)) = half_open_counted (fst s)"
  by (cases s; simp add: step_defs Let_def split: option.split prod.split)+

lemma rtt_frame [step_frame]:
  "rtt_ns (fst (establish_step p s)) = rtt_ns (fst s)" "rtt_ns (fst (fin_step p s)) = rtt_ns (fst s)"
  "rtt_ns (fst (zero_window_step p s)) = rtt_ns (fst s)" "rtt_ns (fst (data_step p s)) = rtt_ns (fst s)"
  "rtt_ns (fst (dup_ack_step p s)) = rtt_ns (fst s)"
  by (cases s; simp add: step_defs Let_def clear_half_open_eq split: option.split prod.split)+

lemma final_ack:
  assumes "ack_pkt k p" "map_of (flows es) k = Some f" "fs_state f = SynAckSeen"
  shows "established_now (delta_of es p)"
    and "\<exists>f'. map_of (flows (next_state es p)) k = Some f' \<and> fs_state f' = Established \<and> fs_established f' \<and>
      \<not> half_open_counted f' \<and> rtt_ns f' = rtt_ns f"
proof -
  have p: "pkt_key p = k" "plain_seg p" "ack (pkt_flags p)" "\<not> fin (pkt_flags p)"
    using assms(1) by (simp_all add: ack_pkt_def)
  let ?s = "(f\<lparr>last_seen_ns := ts_nanos p\<rparr>, start_globals es p, start_delta es p)"
  have r: "tcp_result es p = other_step p ?s" using p assms(2) by (simp add: tcp_result_plain pre_flow_def)
  have fe: "fs_state (fst (fin_step p (establish_step p ?s))) = Established"
    "fs_established (fst (establish_step p ?s))" using p assms(3) by (simp_all add: handshake_blocks_state)
  have ho: "\<not> half_open_counted (fst (fin_step p (establish_step p ?s)))"
    "established_now (snd (snd (establish_step p ?s)))"
    using p assms(3) by (simp_all add: fin_step_def establish_step_def clear_half_open_eq Let_def)
  from ho(2) show "established_now (delta_of es p)" by (simp add: delta_of_eq r other_step_def step_frame)
  from fe ho(1) p(1) show "\<exists>f'. map_of (flows (next_state es p)) k = Some f' \<and> fs_state f' = Established \<and>
      fs_established f' \<and> \<not> half_open_counted f' \<and> rtt_ns f' = rtt_ns f"
    by (simp add: map_of_next_state r other_step_def step_frame)
qed

section \<open>The handshake\<close>

lemma handshake_run:
  assumes fresh: "map_of (flows es) k = None"
    and pk: "syn_pkt k p1" "syn_ack_pkt k p2" "ack_pkt k p3" and o: "others k qs" "others k rs"
    and es1: "es1 = after es (p1 # qs)" and es2: "es2 = after es1 (p2 # rs)"
  shows "\<exists>f. map_of (flows es1) k = Some f \<and> fs_state f = SynSent \<and> half_open_counted f \<and>
      fs_service f = snd (endpoints p1)"
    and "rtt_sample_ns (delta_of es1 p2) = Some (saturating_sub (ts_nanos p2) (ts_nanos p1))"
    and "\<exists>f. map_of (flows es2) k = Some f \<and> fs_state f = SynAckSeen \<and> half_open_counted f \<and>
      fs_service f = snd (endpoints p1)"
    and "established_now (delta_of es2 p3)"
    and "\<exists>f. map_of (flows (next_state es2 p3)) k = Some f \<and> fs_state f = Established \<and> \<not> half_open_counted f \<and>
      rtt_ns f = Some (saturating_sub (ts_nanos p2) (ts_nanos p1))"
proof -
  from first_syn [OF pk(1) fresh] obtain f where f: "map_of (flows es1) k = Some f" "fs_state f = SynSent"
    "syn_time_ns f = Some (ts_nanos p1)" "half_open_counted f" "fs_service f = snd (endpoints p1)"
    by (auto simp: es1 after_others [OF o(1)])
  then show "\<exists>f. map_of (flows es1) k = Some f \<and> fs_state f = SynSent \<and> half_open_counted f \<and>
      fs_service f = snd (endpoints p1)" by blast
  show "rtt_sample_ns (delta_of es1 p2) = Some (saturating_sub (ts_nanos p2) (ts_nanos p1))"
    by (rule syn_ack_reply(1) [OF pk(2) f(1,3)])
  from syn_ack_reply(2) [OF pk(2) f(1,3)] f(4,5) obtain f2 where f2: "map_of (flows es2) k = Some f2"
    "fs_state f2 = SynAckSeen" "half_open_counted f2" "fs_service f2 = snd (endpoints p1)"
    "rtt_ns f2 = Some (saturating_sub (ts_nanos p2) (ts_nanos p1))"
    by (auto simp: es2 after_others [OF o(2)])
  then show "\<exists>f. map_of (flows es2) k = Some f \<and> fs_state f = SynAckSeen \<and> half_open_counted f \<and>
      fs_service f = snd (endpoints p1)" by blast
  show "established_now (delta_of es2 p3)" by (rule final_ack(1) [OF pk(3) f2(1,2)])
  from final_ack(2) [OF pk(3) f2(1,2)] f2(5)
  show "\<exists>f. map_of (flows (next_state es2 p3)) k = Some f \<and> fs_state f = Established \<and> \<not> half_open_counted f \<and>
      rtt_ns f = Some (saturating_sub (ts_nanos p2) (ts_nanos p1))" by auto
qed

text \<open>The half-open count of the service: one more while the handshake is open, back afterwards.\<close>

lemma half_open_flows_insert:
  "keys_distinct (flows es) \<Longrightarrow> map_of (flows es) (pkt_key p) = None \<Longrightarrow>
   half_open_flows (flows (next_state es p)) ep =
     half_open_flows (flows es) ep + contrib (fst (tcp_result es p)) ep"
  by (simp add: next_state_def update_eq half_open_flows_def count_entries_update_new contrib_def)

section \<open>A SYN on a reused four-tuple\<close>

text \<open>A later SYN of a flow whose first SYN is on record changes nothing but the expected sequence
  number: the handshake is not restarted, and the next SYN-ACK is timed against the first SYN.\<close>

lemma repeated_syn:
  assumes "syn_pkt k p" "map_of (flows es) k = Some f" "syn_time_ns f = Some t"
  shows "\<exists>f'. map_of (flows (next_state es p)) k = Some f' \<and> fs_state f' = fs_state f \<and>
    syn_time_ns f' = Some t \<and> half_open_counted f' = half_open_counted f"
    and "es_globals (next_state es p) = es_globals es"
proof -
  have p: "pkt_key p = k" "pkt_proto p = Tcp" "is_syn_only (pkt_flags p)" using assms(1) by (simp_all add: syn_pkt_def)
  with assms(2,3) show "\<exists>f'. map_of (flows (next_state es p)) k = Some f' \<and> fs_state f' = fs_state f \<and>
      syn_time_ns f' = Some t \<and> half_open_counted f' = half_open_counted f"
    by (simp add: map_of_next_state tcp_result_def tcp_step_def syn_only_step_def pre_flow_def Let_def)
  from p assms(2,3) show "es_globals (next_state es p) = es_globals es"
    by (simp add: next_state_def update_eq tcp_result_def tcp_step_def syn_only_step_def pre_flow_def
        start_globals_def Let_def)
qed

lemma reused_tuple_rtt:
  assumes "map_of (flows es) k = Some f" "syn_time_ns f = Some t" "syn_pkt k p" "others k qs" "syn_ack_pkt k r"
  shows "rtt_sample_ns (delta_of (after es (p # qs)) r) = Some (saturating_sub (ts_nanos r) t)"
proof -
  from repeated_syn(1) [OF assms(3,1,2)] obtain f' where
    "map_of (flows (after es (p # qs))) k = Some f'" "syn_time_ns f' = Some t"
    by (auto simp: after_others [OF assms(4)])
  then show ?thesis by (rule syn_ack_reply(1) [OF assms(5)])
qed

section \<open>Properties\<close>

text \<open>C3: the three-way handshake. On a connection the table does not know, with any packets of other flows
  in between: the SYN opens a half-open flow to the service it addresses, the SYN-ACK yields the
  round-trip time between the two, and the acknowledgement establishes the connection, with that
  round-trip time on record and the flow no longer counted as half-open.\<close>

theorem three_way_handshake_tracked:
  assumes "map_of (flows es) k = None" "syn_pkt k p1" "others k qs" "syn_ack_pkt k p2" "others k rs" "ack_pkt k p3"
  shows "(\<exists>f. map_of (flows (after es (p1 # qs))) k = Some f \<and> fs_state f = SynSent \<and> half_open_counted f \<and>
      fs_service f = snd (endpoints p1)) \<and>
    rtt_sample_ns (delta_of (after es (p1 # qs)) p2) = Some (saturating_sub (ts_nanos p2) (ts_nanos p1)) \<and>
    (\<exists>f. map_of (flows (after es (p1 # qs @ p2 # rs))) k = Some f \<and> fs_state f = SynAckSeen \<and> half_open_counted f) \<and>
    established_now (delta_of (after es (p1 # qs @ p2 # rs)) p3) \<and>
    (\<exists>f. map_of (flows (after es (p1 # qs @ p2 # rs @ [p3]))) k = Some f \<and> fs_state f = Established \<and>
      \<not> half_open_counted f \<and> rtt_ns f = Some (saturating_sub (ts_nanos p2) (ts_nanos p1)))"
  using handshake_run [OF assms(1,2,4,6,3,5) refl refl] by (auto simp: after_append)

text \<open>The segments of an example handshake.\<close>

lemma example_handshake:
  "syn_pkt example_key (example_packet t Forward SYN sq 0 0)"
  "syn_ack_pkt example_key (example_packet t Reverse (SYN OR ACK) sq ak 0)"
  "ack_pkt example_key (example_packet t Forward ACK sq ak n)"
  by (simp_all add: syn_pkt_def syn_ack_pkt_def ack_pkt_def is_syn_only_def is_syn_ack_def plain_seg_def flag_defs)

theorem three_way_handshake_tracked_witness:
  "rtt_sample_ns (delta_of (after (engine_state_new default_detect)
     [example_packet 1000 Forward SYN 5 0 0]) (example_packet 31000 Reverse (SYN OR ACK) 9 6 0)) = Some 30000"
  using three_way_handshake_tracked [of "engine_state_new default_detect" example_key
      "example_packet 1000 Forward SYN 5 0 0" "[]" "example_packet 31000 Reverse (SYN OR ACK) 9 6 0" "[]"
      "example_packet 32000 Forward ACK 6 10 0"]
  by (simp add: example_handshake others_def saturating_sub_def)

text \<open>C37: a client that reuses its port: when the table still holds the old connection, the SYN of the new
  one does not restart the handshake, and the round-trip time read from its SYN-ACK is measured from
  the SYN of the old connection.\<close>

theorem reused_tuple_rtt_stale:
  assumes "map_of (flows es) k = Some f" "syn_time_ns f = Some t" "syn_pkt k p" "others k qs" "syn_ack_pkt k r"
  shows "rtt_sample_ns (delta_of (after es (p # qs)) r) = Some (saturating_sub (ts_nanos r) t)"
  by (rule reused_tuple_rtt [OF assms])

theorem reused_tuple_rtt_stale_witness:
  "rtt_sample_ns (delta_of (after (engine_state_new default_detect)
     [example_packet 1000 Forward SYN 5 0 0, example_packet 60000000000 Forward SYN 77 0 0])
     (example_packet 60000030000 Reverse (SYN OR ACK) 9 78 0)) = Some 60000029000"
proof -
  let ?es = "next_state (engine_state_new default_detect) (example_packet 1000 Forward SYN 5 0 0)"
  from first_syn [OF example_handshake(1), of "engine_state_new default_detect" 1000 5]
  obtain f where f: "map_of (flows ?es) example_key = Some f" "syn_time_ns f = Some 1000" by auto
  from reused_tuple_rtt_stale [OF f example_handshake(1) _ example_handshake(2), of "[]" 60000000000 77 60000030000 9 78]
  show ?thesis by (simp add: others_def saturating_sub_def)
qed

end
