(* ===== verification/Config_Laws.thy ===== *)
theory Config_Laws
  imports Core_Config
begin

text \<open>
  The configuration parser: what a key can change, where an error is reported, and numbers read
  back as they were written.
\<close>

section \<open>Locality of the keys\<close>

lemma on_ok_Inr: "on_ok r f = Inr y \<longleftrightarrow> (\<exists>x. r = Inr x \<and> y = f x)"
  by (auto simp: on_ok_def split: sum.split)

lemma on_ok_Inl: "on_ok r f = Inl e \<longleftrightarrow> r = Inl e"
  by (auto simp: on_ok_def split: sum.split)

lemmas setters = set_capture_def set_detect_def set_export_def set_otlp_def

lemma apply_capture_frame:
  "apply_capture c key v = Inr c' \<Longrightarrow> cfg_detect c' = cfg_detect c \<and> cfg_export c' = cfg_export c \<and> cfg_otlp c' = cfg_otlp c"
  by (auto simp: apply_capture_def on_ok_Inr setters unknown_key_def split: if_splits)

lemma apply_detect_frame:
  "apply_detect c key v = Inr c' \<Longrightarrow> cfg_capture c' = cfg_capture c \<and> cfg_export c' = cfg_export c \<and> cfg_otlp c' = cfg_otlp c"
  by (auto simp: apply_detect_def on_ok_Inr setters unknown_key_def split: if_splits)

lemma apply_export_frame:
  "apply_export c key v = Inr c' \<Longrightarrow> cfg_capture c' = cfg_capture c \<and> cfg_detect c' = cfg_detect c \<and> cfg_otlp c' = cfg_otlp c"
  by (auto simp: apply_export_def on_ok_Inr setters unknown_key_def split: if_splits)

lemma apply_otlp_frame:
  "apply_otlp c key v = Inr c' \<Longrightarrow> cfg_capture c' = cfg_capture c \<and> cfg_detect c' = cfg_detect c \<and> cfg_export c' = cfg_export c"
  by (auto simp: apply_otlp_def on_ok_Inr setters unknown_key_def split: if_splits)

lemma apply_key_local:
  assumes "apply_key c sec key v = Inr c'"
  shows "sec \<in> {''capture'', ''detect'', ''export'', ''otlp''}"
    and "sec \<noteq> ''capture'' \<Longrightarrow> cfg_capture c' = cfg_capture c"
    and "sec \<noteq> ''detect'' \<Longrightarrow> cfg_detect c' = cfg_detect c"
    and "sec \<noteq> ''export'' \<Longrightarrow> cfg_export c' = cfg_export c"
    and "sec \<noteq> ''otlp'' \<Longrightarrow> cfg_otlp c' = cfg_otlp c"
  using assms
  by (auto simp: apply_key_def unknown_key_def split: if_splits
      dest: apply_capture_frame apply_detect_frame apply_export_frame apply_otlp_frame)

section \<open>Where errors are reported\<close>

definition line_error :: "nat \<Rightarrow> error \<Rightarrow> bool" where
  "line_error n e \<longleftrightarrow> (\<exists>m. e = Config_err (''line '' @ show_nat (n + 1) @ '': '' @ m))"

lemma parse_line_error: "parse_line n l st = Inl e \<Longrightarrow> line_error n e"
  by (auto simp: parse_line_def line_error_def Let_def split: prod.splits if_splits option.splits sum.splits)

lemma parse_lines_append:
  "parse_lines n (xs @ ys) st = (case parse_lines n xs st of
      Inl e \<Rightarrow> Inl e | Inr st' \<Rightarrow> parse_lines (n + length xs) ys st')"
  by (induction xs arbitrary: n st) (simp_all split: sum.split)

lemma parse_lines_error:
  "parse_lines n ls st = Inl e \<Longrightarrow>
   \<exists>pre l post st'. ls = pre @ l # post \<and> parse_lines n pre st = Inr st' \<and>
     parse_line (n + length pre) l st' = Inl e"
proof (induction ls arbitrary: n st)
  case (Cons l ls)
  show ?case
  proof (cases "parse_line n l st")
    case (Inl e')
    with Cons.prems show ?thesis by (intro exI [of _ "[]"] exI [of _ l] exI [of _ ls] exI [of _ st]) simp
  next
    case (Inr st1)
    with Cons.prems have "parse_lines (n + 1) ls st1 = Inl e" by simp
    from Cons.IH [OF this] obtain pre l' post st' where
      "ls = pre @ l' # post" "parse_lines (n + 1) pre st1 = Inr st'" "parse_line (n + 1 + length pre) l' st' = Inl e"
      by blast
    with Inr show ?thesis by (intro exI [of _ "l # pre"] exI [of _ l'] exI [of _ post]) simp
  qed
qed simp

lemma from_str_error:
  assumes "from_str text = Inl e"
  shows "\<exists>pre l post st. lines text = pre @ l # post \<and> parse_lines 0 pre (default_config, '''') = Inr st \<and>
    parse_line (length pre) l st = Inl e \<and> line_error (length pre) e"
proof -
  from assms have "parse_lines 0 (lines text) (default_config, '''') = Inl e"
    by (simp add: from_str_def on_ok_Inl)
  from parse_lines_error [OF this] obtain pre l post st where
    "lines text = pre @ l # post" "parse_lines 0 pre (default_config, '''') = Inr st"
    "parse_line (length pre) l st = Inl e" by auto
  with parse_line_error [of "length pre" l st e] show ?thesis by blast
qed

section \<open>Numbers\<close>

lemma parse_u64_show: "parse_u64 (show_nat (unat n)) = Inr n"
proof -
  have "unat n < 2 ^ 64" using unsigned_less [of n] by simp
  then show ?thesis by (simp add: parse_u64_def parse_uint_show)
qed

lemma parse_u32_show: "parse_u32 (show_nat (unat n)) = Inr n"
proof -
  have "unat n < 2 ^ 32" using unsigned_less [of n] by simp
  then show ?thesis by (simp add: parse_u32_def parse_uint_show)
qed

text \<open>A number never wraps: a literal out of range is an error.\<close>

lemma parse_u64_value: "parse_u64 s = Inr n \<Longrightarrow> parse_uint 64 s = Some (unat n)"
proof -
  assume a: "parse_u64 s = Inr n"
  then obtain k where k: "parse_uint 64 s = Some k" "n = of_nat k"
    by (auto simp: parse_u64_def split: option.splits)
  then have "k < 2 ^ 64" by (auto simp: parse_uint_def Let_def split: if_splits option.splits)
  with k show ?thesis by (simp add: unsigned_of_nat take_bit_nat_eq_self)
qed

section \<open>Properties\<close>

text \<open>C32: a configuration that does not parse is rejected at its first bad line: the lines before it are
  accepted, and the message names the number of that line, counted from one.\<close>

theorem config_error_located:
  "case from_str s of Inr cfg \<Rightarrow> True | Inl e \<Rightarrow>
     (\<exists>pre l post st m. lines s = pre @ l # post \<and> parse_lines 0 pre (default_config, '''') = Inr st \<and>
        parse_line (length pre) l st = Inl e \<and> e = Config_err (''line '' @ show_nat (length pre + 1) @ '': '' @ m))"
  using from_str_error [of s] by (auto simp: line_error_def split: sum.split)

end
