(* ===== verification/Export_Laws.thy ===== *)
theory Export_Laws
  imports Export
begin

text \<open>
  The outputs: an NDJSON stream splits back into its lines, and an HTTP response announces the length of
  its body. The JSON that the lines and the push contain is read back in \<open>Json_Read\<close>.
\<close>

section \<open>NDJSON\<close>

lemma lines_concat:
  assumes "list_all (\<lambda>l. CHR 0x0A \<notin> set l \<and> \<not> suffix [CHR 0x0D] l) ls"
  shows "lines (concat (map (\<lambda>l. l @ nl) ls)) = ls"
proof -
  have "split_on (CHR 0x0A) (concat (map (\<lambda>l. l @ nl) ls)) = ls @ [[]]"
    using assms by (induction ls) (simp_all add: nl_def split_on_append)
  moreover have "lines_aux (ls @ [[]]) = ls"
    using assms
  proof (induction ls)
    case (Cons l ls)
    then show ?case by (cases "ls @ [[]]") auto
  qed simp
  ultimately show ?thesis by (simp add: lines_def)
qed

lemma plain_no_newline: "plain s \<Longrightarrow> CHR 0x0A \<notin> set s"
  by (auto simp: plain_def list_all_iff plain_char_def)

lemma to_json_one_line: "CHR 0x0A \<notin> set (to_json e)"
  using plain_no_newline [OF plain_show_nat] plain_no_newline [OF plain_kind_str] plain_no_newline [OF plain_severity_str]
    plain_no_newline [OF plain_proto_str] plain_no_newline [OF plain_show_endpoint] plain_no_newline [OF plain_fmt_fixed]
    json_escape_no_newline
  by (simp add: to_json_def)

lemma to_json_no_cr: "\<not> suffix [CHR 0x0D] (to_json e)"
  by (simp add: to_json_def suffix_def)

lemma lines_ndjson: "lines (concat (map (\<lambda>ev. to_json ev @ nl) evs)) = map to_json evs"
  using lines_concat [of "map to_json evs"]
  by (simp add: list_all_iff to_json_one_line to_json_no_cr comp_def)

lemma esc_json_escape: "esc s = json_escape s"
proof -
  have "esc_char = json_escape_char" by (rule ext) simp
  then show ?thesis by (simp only: esc_def json_escape_def)
qed

section \<open>The HTTP response\<close>

definition ascii :: "string \<Rightarrow> bool" where
  "ascii s \<longleftrightarrow> list_all (\<lambda>c. (of_char c :: nat) < 128) s"

lemma lossy_ascii: "ascii s \<Longrightarrow> length s \<le> n \<Longrightarrow> lossy_aux n s = s"
proof (induction n arbitrary: s)
  case (Suc n)
  then show ?case by (cases s) (auto simp: ascii_def utf8_width_def Let_def)
qed (simp add: ascii_def)

lemma ascii_valid: "ascii s \<Longrightarrow> utf8_valid s"
  by (simp add: utf8_valid_def from_utf8_lossy_def lossy_ascii)

lemma ascii_read_line: "ascii s \<Longrightarrow> ascii (fst (read_line s)) \<and> ascii (snd (read_line s))"
  by (auto simp: ascii_def list_all_iff read_line_def Let_def dest: in_set_takeD in_set_dropD)

lemma conn_line_ascii: "conn_read c = None \<Longrightarrow> ascii s \<Longrightarrow> conn_line c s = Inr (read_line s)"
  using ascii_read_line [of s] by (auto simp: conn_line_def ascii_valid split: prod.split)

lemma drain_ascii: "conn_read c = None \<Longrightarrow> ascii s \<Longrightarrow> drain_headers c s = Inr ()"
proof (induction c s rule: drain_headers.induct)
  case (1 c s)
  obtain line rest where rl: "read_line s = (line, rest)" by (cases "read_line s")
  have l: "conn_line c s = Inr (line, rest)" using conn_line_ascii [OF "1.prems"] rl by simp
  have "ascii rest" using ascii_read_line [OF "1.prems"(2)] rl by simp
  with "1.IH" [OF l refl] "1.prems"(1) l show ?case by (subst drain_headers.simps) simp
qed

lemma handle_conn_ascii:
  assumes "conn_clone c = None" "conn_read c = None" "conn_write c = None" "ascii (conn_bytes c)"
  shows "handle_conn reg c = Inr (http_response (route reg (request_path (fst (read_line (conn_bytes c))))))"
  using assms drain_ascii [OF assms(2), of "snd (read_line (conn_bytes c))"] ascii_read_line [OF assms(4)]
  by (simp add: handle_conn_def conn_line_ascii case_prod_beta)

text \<open>A connection that fails, at any point, leaves the answers to the others as they are.\<close>

lemma accept_loop_filter:
  "accept_loop cs = List.map_filter (\<lambda>x. case x of Inl e \<Rightarrow> None | Inr (reg, c) \<Rightarrow>
     (case handle_conn reg c of Inl e \<Rightarrow> None | Inr resp \<Rightarrow> Some resp)) cs"
  by (induction cs rule: accept_loop.induct) (simp_all add: map_filter_simps split: sum.split)

text \<open>The push loop: every turn sends the metrics of the registry it finds, and a turn that fails sends
  nothing or a part and does not end the loop.\<close>

lemma push_turn_posts:
  "w_posts (push_turn p env reg now w) =
     w_posts w @ filter (\<lambda>s. s \<noteq> []) [fst (build_and_post env (p_target p) reg (p_attrs p) (p_start_ns p) now)]"
  by (simp add: push_turn_def send_post_def eprintln_def case_prod_beta Let_def split: sum.split)

lemma push_loop_posts:
  "w_posts (push_loop p wakes w) = w_posts w @ filter (\<lambda>s. s \<noteq> [])
     (map (\<lambda>(now, reg, env). fst (build_and_post env (p_target p) reg (p_attrs p) (p_start_ns p) now)) wakes)"
  by (induction p wakes w rule: push_loop.induct) (simp_all add: push_turn_posts)

section \<open>Properties\<close>

text \<open>C28: the event stream is newline-delimited JSON: whatever the details of the events, the standard output
  of the sink splits back into exactly one line per event, in the order they were emitted.\<close>

theorem ndjson_one_line_per_event:
  "lines (w_stdout (fold (emit SinkStdout) evs (w\<lparr>w_stdout := ''''\<rparr>))) = map to_json evs"
proof -
  have "w_stdout (fold (emit SinkStdout) evs w) = w_stdout w @ concat (map (\<lambda>ev. to_json ev @ nl) evs)" for w
    by (induction evs arbitrary: w) (simp_all add: emit_def Let_def)
  then show ?thesis by (simp add: lines_ndjson)
qed

text \<open>C18: a response of the metrics endpoint is framed: for a request of ASCII text on a connection that
  does not fail, with any number of header lines and whether or not the request is complete, it has a
  status line, the type and the exact length of its body, an empty line, and the body that the path of
  the request selects.\<close>

theorem http_response_framed:
  assumes "conn_clone c = None" "conn_read c = None" "conn_write c = None" "ascii (conn_bytes c)"
  shows "\<exists>status ctype body. handle_conn reg c = Inr (
     ''HTTP/1.1 '' @ status @ crlf @ ''Content-Type: '' @ ctype @ crlf @ ''Content-Length: '' @ show_nat (length body) @ crlf @
     ''Connection: close'' @ crlf @ crlf @ body) \<and>
     (status, ctype, body) = route reg (request_path (fst (read_line (conn_bytes c))))"
  unfolding handle_conn_ascii [OF assms]
  by (cases "route reg (request_path (fst (read_line (conn_bytes c))))") (simp add: http_response_def)

theorem http_response_framed_witness:
  "\<exists>status ctype body. handle_conn registry_new
     \<lparr>conn_clone = None, conn_bytes = ''GET /healthz HTTP/1.1'' @ crlf @ ''Host: node'' @ crlf @ crlf, conn_read = None, conn_write = None\<rparr> =
     Inr (''HTTP/1.1 '' @ status @ crlf @ ''Content-Type: '' @ ctype @ crlf @ ''Content-Length: '' @ show_nat (length body) @ crlf @
       ''Connection: close'' @ crlf @ crlf @ body) \<and> body = ''ok'' @ nl"
proof -
  let ?b = "''GET /healthz HTTP/1.1'' @ crlf @ ''Host: node'' @ crlf @ crlf"
  have a: "ascii ?b" by (simp add: ascii_def crlf_def)
  have g: "list_all graphic ''GET''" "list_all graphic ''/healthz''" by (simp_all add: graphic_def)
  have "tokens [] (''GET'' @ CHR '' '' # ''/healthz'' @ CHR '' '' # s) = ''GET'' # ''/healthz'' # tokens [] s" for s
    unfolding tokens_word [OF g(1)] tokens_word [OF g(2)] tokens_blank by simp
  then have "request_path (fst (read_line ?b)) = ''/healthz''"
    by (simp add: request_path_def split_whitespace_def read_line_def crlf_def)
  then have "route registry_new (request_path (fst (read_line ?b))) = (''200 OK'', ''text/plain'', ''ok'' @ nl)"
    by (simp add: route_def)
  with http_response_framed [of "\<lparr>conn_clone = None, conn_bytes = ?b, conn_read = None, conn_write = None\<rparr>" registry_new] a
  show ?thesis unfolding conn.simps by (metis prod.inject)
qed

end
