(* ===== verification/Kernel_Program.thy ===== *)
theory Kernel_Program
  imports Capture_Laws
begin

unbundle bit_operations_syntax

text \<open>
  \<^verbatim>\<open>bpf/l4scope.bpf.c\<close>: the program that runs in the kernel on every frame of an interface, and the
  record it hands to user space. A pointer into the packet is an offset from \<open>skb->data\<close>, and an
  access that is not inside the packet has no value, so that the bounds checks of the program are what
  makes it total. The two parsers, this one and \<^verbatim>\<open>parse.rs\<close>, are compared on arbitrary bytes.
\<close>

section \<open>The program\<close>

record sk_buff =
  skb_data :: bytes
  skb_ifindex :: u32

text \<open>What the helpers answer: the monotonic clock, and whether the ring has room for a record.\<close>

record kernel_env =
  ke_ktime :: u64
  ke_reserve :: bool

definition TC_ACT_OK :: nat where "TC_ACT_OK = 0"

text \<open>Loads from the packet, with the byte order of the network.\<close>

definition load8 :: "nat \<Rightarrow> sk_buff \<Rightarrow> u8 option" where
  "load8 p skb = get_at p (skb_data skb)"

definition load16 :: "nat \<Rightarrow> sk_buff \<Rightarrow> u16 option" where
  "load16 p skb = be16 (drop p (skb_data skb))"

definition load32 :: "nat \<Rightarrow> sk_buff \<Rightarrow> u32 option" where
  "load32 p skb = be32 (drop p (skb_data skb))"

definition load_bytes :: "nat \<Rightarrow> nat \<Rightarrow> sk_buff \<Rightarrow> bytes option" where
  "load_bytes p n skb = get_range p (p + n) (skb_data skb)"

text \<open>\<open>emit_l4\<close>: \<open>None\<close> is an access outside the packet, \<open>Some None\<close> that nothing is submitted.\<close>

definition emit_l4 ::
  "kernel_env \<Rightarrow> sk_buff \<Rightarrow> nat \<Rightarrow> u8 \<Rightarrow> u16 \<Rightarrow> u8 \<Rightarrow> u8 \<Rightarrow> nat \<Rightarrow> nat \<Rightarrow> nat \<Rightarrow> bpf_l4_event option option" where
  "emit_l4 env skb l4 proto tot_payload family ttl saddr daddr addr_len =
     (if \<not> ke_reserve env then Some None
      else do {
        sa \<leftarrow> load_bytes saddr addr_len skb;
        da \<leftarrow> load_bytes daddr addr_len skb;
        let e = \<lparr>be_ts = ke_ktime env, be_saddr = sa @ replicate (16 - addr_len) 0,
          be_daddr = da @ replicate (16 - addr_len) 0, be_sport = 0, be_dport = 0, be_seq = 0, be_ack = 0,
          be_window = 0, be_payload_len = 0, be_family = family, be_proto = proto, be_flags = 0, be_ttl = ttl,
          be_iface = skb_ifindex skb\<rparr>;
        if proto = IPPROTO_TCP then
          if l4 + 20 > length (skb_data skb) then Some None
          else do {
            b \<leftarrow> load8 (l4 + 12) skb;
            let doff = (ucast (drop_bit 4 b) * 4 :: u32);
            sport \<leftarrow> load16 l4 skb;
            dport \<leftarrow> load16 (l4 + 2) skb;
            sq \<leftarrow> load32 (l4 + 4) skb;
            ak \<leftarrow> load32 (l4 + 8) skb;
            window \<leftarrow> load16 (l4 + 14) skb;
            flags \<leftarrow> load8 (l4 + 13) skb;
            Some (Some (e\<lparr>be_sport := sport, be_dport := dport, be_seq := sq, be_ack := ak, be_window := ucast window,
              be_flags := flags AND 0x3f,
              be_payload_len := (if ucast tot_payload > doff then ucast tot_payload - doff else 0)\<rparr>)) }
        else
          if l4 + 8 > length (skb_data skb) then Some None
          else do {
            sport \<leftarrow> load16 l4 skb;
            dport \<leftarrow> load16 (l4 + 2) skb;
            ulen \<leftarrow> load16 (l4 + 4) skb;
            Some (Some (e\<lparr>be_sport := sport, be_dport := dport,
              be_payload_len := (if ulen > 8 then ucast (ulen - 8) else 0)\<rparr>)) } })"

text \<open>\<open>handle\<close>: the Ethernet header has 14 bytes, the fixed IPv4 header 20, the IPv6 header 40.\<close>

definition handle_ipv4 :: "kernel_env \<Rightarrow> sk_buff \<Rightarrow> bpf_l4_event option option" where
  "handle_ipv4 env skb =
     (if 14 + 20 > length (skb_data skb) then Some None
      else do {
        proto \<leftarrow> load8 (14 + 9) skb;
        if proto \<noteq> IPPROTO_TCP \<and> proto \<noteq> IPPROTO_UDP then Some None
        else do {
          b \<leftarrow> load8 14 skb;
          let ihl = (ucast (b AND 0x0f) * 4 :: u32);
          tot \<leftarrow> load16 (14 + 2) skb;
          ttl \<leftarrow> load8 (14 + 8) skb;
          let payload = (if ucast tot > ihl then ucast (ucast tot - ihl) else 0 :: u16);
          emit_l4 env skb (14 + unat ihl) proto payload 4 ttl (14 + 12) (14 + 16) 4 } })"

definition handle_ipv6 :: "kernel_env \<Rightarrow> sk_buff \<Rightarrow> bpf_l4_event option option" where
  "handle_ipv6 env skb =
     (if 14 + 40 > length (skb_data skb) then Some None
      else do {
        nh \<leftarrow> load8 (14 + 6) skb;
        if nh \<noteq> IPPROTO_TCP \<and> nh \<noteq> IPPROTO_UDP then Some None
        else do {
          payload \<leftarrow> load16 (14 + 4) skb;
          hop \<leftarrow> load8 (14 + 7) skb;
          emit_l4 env skb (14 + 40) nh payload 6 hop (14 + 8) (14 + 24) 16 } })"

definition handle :: "kernel_env \<Rightarrow> sk_buff \<Rightarrow> (nat \<times> bpf_l4_event option) option" where
  "handle env skb =
     (if 14 > length (skb_data skb) then Some (TC_ACT_OK, None)
      else do {
        h_proto \<leftarrow> load16 12 skb;
        e \<leftarrow> (if h_proto = ETH_P_IP then handle_ipv4 env skb
              else if h_proto = ETH_P_IPV6 then handle_ipv6 env skb
              else Some None);
        Some (TC_ACT_OK, e) })"

definition l4scope_tc :: "kernel_env \<Rightarrow> sk_buff \<Rightarrow> (nat \<times> bpf_l4_event option) option" where
  "l4scope_tc env skb = handle env skb"

section \<open>The bounds checks suffice\<close>

lemma load8_in: "p < length (skb_data skb) \<Longrightarrow> load8 p skb = Some (skb_data skb ! p)"
  by (simp add: load8_def get_at_def)

lemma load_words_in:
  "p + 2 \<le> length (skb_data skb) \<Longrightarrow> \<exists>w. load16 p skb = Some w"
  "p + 4 \<le> length (skb_data skb) \<Longrightarrow> \<exists>v. load32 p skb = Some v"
  by (simp_all add: load16_def load32_def be16_def be32_def get_at_def)

lemma load_bytes_in:
  "p + n \<le> length (skb_data skb) \<Longrightarrow> load_bytes p n skb = Some (take n (drop p (skb_data skb)))"
  by (simp add: load_bytes_def get_range_def)

lemma emit_l4_total:
  assumes "saddr + n \<le> length (skb_data skb)" "daddr + n \<le> length (skb_data skb)"
  shows "\<exists>e. emit_l4 env skb l4 proto tot family ttl saddr daddr n = Some e"
proof -
  let ?n = "length (skb_data skb)"
  have "l4 + 20 \<le> ?n \<Longrightarrow> \<exists>a b c d e. load16 l4 skb = Some a \<and> load16 (l4 + 2) skb = Some b \<and>
      load32 (l4 + 4) skb = Some c \<and> load32 (l4 + 8) skb = Some d \<and> load16 (l4 + 14) skb = Some e"
    using load_words_in(1) [of l4 skb] load_words_in(1) [of "l4 + 2" skb] load_words_in(2) [of "l4 + 4" skb]
      load_words_in(2) [of "l4 + 8" skb] load_words_in(1) [of "l4 + 14" skb] by auto
  moreover have "l4 + 8 \<le> ?n \<Longrightarrow> \<exists>a b c. load16 l4 skb = Some a \<and> load16 (l4 + 2) skb = Some b \<and> load16 (l4 + 4) skb = Some c"
    using load_words_in(1) [of l4 skb] load_words_in(1) [of "l4 + 2" skb] load_words_in(1) [of "l4 + 4" skb] by auto
  ultimately show ?thesis
    using assms by (auto simp: emit_l4_def load_bytes_in load8_in Let_def)
qed

lemma handle_total: "\<exists>e. handle env skb = Some (TC_ACT_OK, e)"
proof -
  have "handle_ipv4 env skb \<noteq> None"
  proof (cases "34 \<le> length (skb_data skb)")
    case True
    then obtain tot where "load16 16 skb = Some tot" using load_words_in(1) [of 16 skb] by auto
    with True show ?thesis by (auto simp: handle_ipv4_def load8_in Let_def emit_l4_total)
  qed (simp add: handle_ipv4_def)
  moreover have "handle_ipv6 env skb \<noteq> None"
  proof (cases "54 \<le> length (skb_data skb)")
    case True
    then obtain len where "load16 18 skb = Some len" using load_words_in(1) [of 18 skb] by auto
    with True show ?thesis by (auto simp: handle_ipv6_def load8_in Let_def emit_l4_total)
  qed (simp add: handle_ipv6_def)
  moreover have "14 \<le> length (skb_data skb) \<Longrightarrow> \<exists>w. load16 12 skb = Some w" using load_words_in(1) [of 12 skb] by simp
  ultimately show ?thesis by (auto simp: handle_def)
qed

section \<open>Agreement with the parser in user space\<close>

lemma ebpf_decode_build:
  assumes "be_proto ev = IPPROTO_TCP \<and> pr = Tcp \<or> be_proto ev = IPPROTO_UDP \<and> pr = Udp"
    "be_family ev = 4 \<and> src = V4 (ipv4_new (be_saddr ev ! 0) (be_saddr ev ! 1) (be_saddr ev ! 2) (be_saddr ev ! 3)) \<and>
       dst = V4 (ipv4_new (be_daddr ev ! 0) (be_daddr ev ! 1) (be_daddr ev ! 2) (be_daddr ev ! 3)) \<or>
     be_family ev = 6 \<and> src = V6 (from_be (be_saddr ev)) \<and> dst = V6 (from_be (be_daddr ev))"
  shows "ebpf_decode off ev = Some (build src (be_sport ev) dst (be_dport ev) pr (TcpFlags (be_flags ev))
    (be_seq ev) (be_ack ev) (be_window ev) (be_payload_len ev) (be_ttl ev) (off + be_ts ev) (be_iface ev))"
  using assms by (auto simp: ebpf_decode_def build_def IPPROTO_TCP_def IPPROTO_UDP_def Let_def split: prod.split)

text \<open>The data offset of a segment, in bytes, and the payload length in the two arithmetics.\<close>

definition data_offset :: "bytes \<Rightarrow> nat" where
  "data_offset l4 = unat (drop_bit 4 (l4 ! 12)) * 4"

lemma unat_nibble4: "unat (ucast (drop_bit 4 (b :: u8)) * 4 :: u32) = unat (drop_bit 4 b) * 4"
proof -
  have "unat b < 256" using unsigned_less [of b] by simp
  then have "unat (drop_bit 4 b) < 16" by (simp add: unat_div drop_bit_eq_div div_less_iff_less_mult)
  then show ?thesis by (simp add: unat_word_ariths unsigned_ucast_eq take_bit_nat_eq_self)
qed

lemma unat_low_nibble4: "unat (ucast (b AND 0x0f :: u8) * 4 :: u32) = unat (b AND 0x0f) * 4"
proof -
  have "b AND 0x0f \<le> 0x0f" by (rule word_and_le1)
  then have "unat (b AND 0x0f) \<le> 15" by (simp add: word_le_nat_alt)
  then show ?thesis by (simp add: unat_word_ariths unsigned_ucast_eq take_bit_nat_eq_self)
qed

lemma clipped_sub: "(if ucast (w :: u16) > m then ucast w - m else 0 :: u32) = of_nat (unat w - unat m)"
proof -
  have "unat w < 2 ^ 16" using unsigned_less [of w] by simp
  then have w: "unat (ucast w :: u32) = unat w" by (simp add: unsigned_ucast_eq take_bit_nat_eq_self)
  show ?thesis
  proof (cases "m < ucast w")
    case True
    then have "unat (ucast w - m) = unat w - unat m" by (simp add: unat_sub word_less_nat_alt less_imp_le w)
    moreover have "ucast w - m = of_nat (unat (ucast w - m))" by simp
    ultimately show ?thesis using True by simp
  next
    case False
    then show ?thesis by (simp add: word_less_nat_alt w)
  qed
qed

lemma clipped_sub16:
  "unat (if ucast (w :: u16) > m then ucast (ucast w - m :: u32) else 0 :: u16) = unat w - unat m"
proof -
  have w: "unat w < 2 ^ 16" using unsigned_less [of w] by simp
  have u: "unat (of_nat (unat w - unat m) :: u32) = unat w - unat m"
    using w by (simp add: unsigned_of_nat take_bit_nat_eq_self)
  have "(if ucast w > m then ucast (ucast w - m :: u32) else 0 :: u16) = ucast (if ucast w > m then ucast w - m else 0 :: u32)"
    by simp
  also have "\<dots> = ucast (of_nat (unat w - unat m) :: u32)" by (simp only: clipped_sub)
  also have "unat (ucast (of_nat (unat w - unat m) :: u32) :: u16) = unat w - unat m"
    using w by (simp add: unsigned_ucast_eq u take_bit_nat_eq_self)
  finally show ?thesis .
qed

text \<open>What user space makes of the answer of the program.\<close>

definition decoded :: "u64 \<Rightarrow> bpf_l4_event option option \<Rightarrow> packet_meta option" where
  "decoded off r = (case r of Some (Some ev) \<Rightarrow> ebpf_decode off ev | _ \<Rightarrow> None)"

lemma decoded_simps [simp]:
  "decoded off None = None" "decoded off (Some None) = None" "decoded off (Some (Some ev)) = ebpf_decode off ev"
  by (simp_all add: decoded_def)

definition addrs_at :: "sk_buff \<Rightarrow> u8 \<Rightarrow> nat \<Rightarrow> nat \<Rightarrow> nat \<Rightarrow> ip_addr \<Rightarrow> ip_addr \<Rightarrow> bool" where
  "addrs_at skb family saddr daddr n src dst \<longleftrightarrow>
     saddr + n \<le> length (skb_data skb) \<and> daddr + n \<le> length (skb_data skb) \<and>
     (let a = subslice saddr (saddr + n) (skb_data skb); b = subslice daddr (daddr + n) (skb_data skb) in
      family = 4 \<and> n = 4 \<and> src = V4 (ipv4_new (a ! 0) (a ! 1) (a ! 2) (a ! 3)) \<and>
        dst = V4 (ipv4_new (b ! 0) (b ! 1) (b ! 2) (b ! 3)) \<or>
      family = 6 \<and> n = 16 \<and> src = V6 (from_be a) \<and> dst = V6 (from_be b))"

lemma addrs_at_len:
  "addrs_at skb family saddr daddr n src dst \<Longrightarrow> saddr + n \<le> length (skb_data skb) \<and> daddr + n \<le> length (skb_data skb)"
  by (simp add: addrs_at_def)

lemma addrs_at_decode:
  assumes "addrs_at skb family saddr daddr n src dst" "be_family ev = family"
    "be_saddr ev = subslice saddr (saddr + n) (skb_data skb) @ replicate (16 - n) 0"
    "be_daddr ev = subslice daddr (daddr + n) (skb_data skb) @ replicate (16 - n) 0"
  shows "be_family ev = 4 \<and> src = V4 (ipv4_new (be_saddr ev ! 0) (be_saddr ev ! 1) (be_saddr ev ! 2) (be_saddr ev ! 3)) \<and>
       dst = V4 (ipv4_new (be_daddr ev ! 0) (be_daddr ev ! 1) (be_daddr ev ! 2) (be_daddr ev ! 3)) \<or>
     be_family ev = 6 \<and> src = V6 (from_be (be_saddr ev)) \<and> dst = V6 (from_be (be_daddr ev))"
proof -
  have "length (subslice saddr (saddr + n) (skb_data skb)) = n" "length (subslice daddr (daddr + n) (skb_data skb)) = n"
    using addrs_at_len [OF assms(1)] by (auto simp: subslice_def)
  with assms show ?thesis unfolding addrs_at_def Let_def by (elim conjE disjE) (simp_all add: nth_append)
qed

lemma be_words_Some:
  "i + 2 \<le> length d \<Longrightarrow> \<exists>w. be16 (drop i d) = Some w" "i + 4 \<le> length d \<Longrightarrow> \<exists>v. be32 (drop i d) = Some v"
  by (simp_all add: be16_def be32_def get_at_def)

lemma tcp_words:
  assumes "20 \<le> length d"
  obtains sp dp sq ak win where "be16 d = Some sp" "be16 (drop 2 d) = Some dp" "be32 (drop 4 d) = Some sq"
    "be32 (drop 8 d) = Some ak" "be16 (drop 14 d) = Some win"
  using assms be_words_Some(1) [of 0 d] be_words_Some(1) [of 2 d] be_words_Some(2) [of 4 d]
    be_words_Some(2) [of 8 d] be_words_Some(1) [of 14 d] by auto

lemma emit_tcp:
  assumes "ke_reserve env" "addrs_at skb family saddr daddr n src dst"
    "l4 + 20 \<le> length (skb_data skb) \<Longrightarrow> 20 \<le> data_offset (drop l4 (skb_data skb))"
  shows "decoded off (emit_l4 env skb l4 IPPROTO_TCP tot family ttl saddr daddr n) =
    finish IPPROTO_TCP src dst ttl (drop l4 (skb_data skb)) (unat tot) (off + ke_ktime env) (skb_ifindex skb)"
proof (cases "l4 + 20 \<le> length (skb_data skb)")
  case False
  with assms show ?thesis
    by (auto simp: emit_l4_def finish_def load_bytes_in addrs_at_def Let_def)
next
  case True
  let ?d = "drop l4 (skb_data skb)"
  have "20 \<le> length ?d" using True by simp
  then obtain sp dp sq ak win where w: "be16 ?d = Some sp" "be16 (drop 2 ?d) = Some dp" "be32 (drop 4 ?d) = Some sq"
    "be32 (drop 8 ?d) = Some ak" "be16 (drop 14 ?d) = Some win" by (rule tcp_words)
  have ld: "load16 l4 skb = Some sp" "load16 (Suc (Suc l4)) skb = Some dp" "load32 (l4 + 4) skb = Some sq"
    "load32 (l4 + 8) skb = Some ak" "load16 (l4 + 14) skb = Some win"
    using w by (simp_all add: load16_def load32_def add.commute)
  obtain b c where bc: "load8 (l4 + 12) skb = Some b" "load8 (l4 + 13) skb = Some c" "?d ! 12 = b" "?d ! 13 = c"
    using True by (simp add: load8_in)
  have pl: "(if ucast (drop_bit 4 b) * 4 < (ucast tot :: u32) then ucast tot - ucast (drop_bit 4 b) * 4 else 0 :: u32) =
      of_nat (unat tot - data_offset ?d)"
    unfolding clipped_sub unat_nibble4 data_offset_def bc ..
  let ?ev = "\<lparr>be_ts = ke_ktime env, be_saddr = subslice saddr (saddr + n) (skb_data skb) @ replicate (16 - n) 0,
    be_daddr = subslice daddr (daddr + n) (skb_data skb) @ replicate (16 - n) 0, be_sport = sp, be_dport = dp, be_seq = sq,
    be_ack = ak, be_window = ucast win, be_payload_len = of_nat (unat tot - data_offset ?d), be_family = family,
    be_proto = IPPROTO_TCP, be_flags = c AND 0x3f, be_ttl = ttl, be_iface = skb_ifindex skb\<rparr>"
  have "emit_l4 env skb l4 IPPROTO_TCP tot family ttl saddr daddr n = Some (Some ?ev)"
    using assms(1) True addrs_at_len [OF assms(2)]
    by (simp add: emit_l4_def ld bc(1,2) pl load_bytes_in subslice_def Let_def)
  then have "decoded off (emit_l4 env skb l4 IPPROTO_TCP tot family ttl saddr daddr n) = ebpf_decode off ?ev" by simp
  also have "\<dots> = Some (build src sp dst dp Tcp (TcpFlags (c AND 0x3f)) sq ak (ucast win)
      (of_nat (unat tot - data_offset ?d)) ttl (off + ke_ktime env) (skb_ifindex skb))"
    using addrs_at_decode [OF assms(2), of ?ev] by (subst ebpf_decode_build [where pr = Tcp]) simp_all
  also have "\<dots> = finish IPPROTO_TCP src dst ttl ?d (unat tot) (off + ke_ktime env) (skb_ifindex skb)"
    using True assms(3) w bc by (simp add: finish_def data_offset_def Let_def)
  finally show ?thesis .
qed

lemma emit_udp:
  assumes "ke_reserve env" "addrs_at skb family saddr daddr n src dst"
  shows "decoded off (emit_l4 env skb l4 IPPROTO_UDP tot family ttl saddr daddr n) =
    finish IPPROTO_UDP src dst ttl (drop l4 (skb_data skb)) k (off + ke_ktime env) (skb_ifindex skb)"
proof (cases "l4 + 8 \<le> length (skb_data skb)")
  case False
  with assms(1) addrs_at_len [OF assms(2)] show ?thesis
    by (auto simp: emit_l4_def finish_def load_bytes_in Let_def IPPROTO_TCP_def IPPROTO_UDP_def)
next
  case True
  let ?d = "drop l4 (skb_data skb)"
  have "8 \<le> length ?d" using True by simp
  then obtain sp dp ulen where w: "be16 ?d = Some sp" "be16 (drop 2 ?d) = Some dp" "be16 (drop 4 ?d) = Some ulen"
    using be_words_Some(1) [of 0 ?d] be_words_Some(1) [of 2 ?d] be_words_Some(1) [of 4 ?d] by auto
  have ld: "load16 l4 skb = Some sp" "load16 (Suc (Suc l4)) skb = Some dp" "load16 (l4 + 4) skb = Some ulen"
    using w by (simp_all add: load16_def add.commute)
  have pl: "(if 8 < ulen then ucast (ulen - 8) else 0 :: u32) = saturating_sub (ucast ulen) 8"
  proof -
    have "unat ulen < 2 ^ 16" using unsigned_less [of ulen] by simp
    then have u: "unat (ucast x :: u32) = unat x" if "x \<le> ulen" for x
      using that by (simp add: unsigned_ucast_eq word_le_nat_alt take_bit_nat_eq_self)
    have "unat (ulen - 8) = unat ulen - 8" if "8 < ulen"
      using that by (simp add: unat_sub word_less_nat_alt word_le_nat_alt)
    moreover have "ulen - 8 \<le> ulen" if "8 < ulen" using that by (simp add: word_le_nat_alt unat_sub word_less_nat_alt)
    ultimately show ?thesis
      by (auto simp: word_unat_eq_iff unat_saturating_sub u word_less_nat_alt)
  qed
  let ?ev = "\<lparr>be_ts = ke_ktime env, be_saddr = subslice saddr (saddr + n) (skb_data skb) @ replicate (16 - n) 0,
    be_daddr = subslice daddr (daddr + n) (skb_data skb) @ replicate (16 - n) 0, be_sport = sp, be_dport = dp, be_seq = 0,
    be_ack = 0, be_window = 0, be_payload_len = saturating_sub (ucast ulen) 8, be_family = family,
    be_proto = IPPROTO_UDP, be_flags = 0, be_ttl = ttl, be_iface = skb_ifindex skb\<rparr>"
  have "emit_l4 env skb l4 IPPROTO_UDP tot family ttl saddr daddr n = Some (Some ?ev)"
    using assms(1) True addrs_at_len [OF assms(2)]
    by (simp add: emit_l4_def ld pl load_bytes_in subslice_def Let_def) (simp add: IPPROTO_TCP_def IPPROTO_UDP_def)
  then have "decoded off (emit_l4 env skb l4 IPPROTO_UDP tot family ttl saddr daddr n) = ebpf_decode off ?ev" by simp
  also have "\<dots> = Some (build src sp dst dp Udp (TcpFlags 0) 0 0 0 (saturating_sub (ucast ulen) 8) ttl
      (off + ke_ktime env) (skb_ifindex skb))"
    using addrs_at_decode [OF assms(2), of ?ev] by (subst ebpf_decode_build [where pr = Udp]) simp_all
  also have "\<dots> = finish IPPROTO_UDP src dst ttl ?d k (off + ke_ktime env) (skb_ifindex skb)"
    using True w by (simp add: finish_def IPPROTO_TCP_def IPPROTO_UDP_def)
  finally show ?thesis .
qed

text \<open>The frames on which the two must agree: no VLAN tag and no IPv6 extension header, which only user
  space walks; header lengths of at least the fixed headers, which only user space checks; and a TCP
  segment that was captured as far as its IP header announces, since only user space clamps its length.
  Everything else in the bytes is arbitrary.\<close>

definition plain_segment :: "bytes \<Rightarrow> bool" where
  "plain_segment l4 \<longleftrightarrow> (20 \<le> length l4 \<longrightarrow> 20 \<le> data_offset l4)"

definition plain_ipv4 :: "bytes \<Rightarrow> bool" where
  "plain_ipv4 d \<longleftrightarrow> (20 \<le> length d \<longrightarrow> 5 \<le> unat (d ! 0 AND 0x0f) \<and>
     (d ! 9 = IPPROTO_TCP \<longrightarrow> (case be16 (drop 2 d) of Some m \<Rightarrow> unat m \<le> length d | None \<Rightarrow> False) \<and>
       plain_segment (drop (unat (d ! 0 AND 0x0f) * 4) d)))"

definition plain_ipv6 :: "bytes \<Rightarrow> bool" where
  "plain_ipv6 d \<longleftrightarrow> (40 \<le> length d \<longrightarrow> d ! 6 \<notin> {0, 43, 44, 51, 60} \<and>
     (d ! 6 = IPPROTO_TCP \<longrightarrow> 
       (case be16 (drop 4 d) of Some n \<Rightarrow> 40 + unat n \<le> length d | None \<Rightarrow> False) \<and> plain_segment (drop 40 d)))"

definition plain_frame :: "bytes \<Rightarrow> bool" where
  "plain_frame data \<longleftrightarrow> be16 (drop 12 data) \<notin> {Some ETH_P_VLAN, Some ETH_P_QINQ} \<and>
     (be16 (drop 12 data) = Some ETH_P_IP \<longrightarrow> plain_ipv4 (drop 14 data)) \<and>
     (be16 (drop 12 data) = Some ETH_P_IPV6 \<longrightarrow> plain_ipv6 (drop 14 data))"

lemma finish_Nil [simp]: "finish p src dst ttl [] n ts iface = None"
  by (simp add: finish_def)

lemma finish_other: "p \<noteq> IPPROTO_TCP \<Longrightarrow> p \<noteq> IPPROTO_UDP \<Longrightarrow> finish p src dst ttl l4 n ts iface = None"
  by (simp add: finish_def)

lemma handle_ipv4_parse:
  assumes "ke_reserve env" "plain_ipv4 (drop 14 (skb_data skb))"
  shows "decoded off (handle_ipv4 env skb) = parse_ipv4 (drop 14 (skb_data skb)) (off + ke_ktime env) (skb_ifindex skb)"
proof (cases "34 \<le> length (skb_data skb)")
  case False
  then have "length (drop 14 (skb_data skb)) < 20" by simp
  with False show ?thesis by (simp add: handle_ipv4_def parse_ipv4_def)
next
  case True
  define d where "d = drop 14 (skb_data skb)"
  have d: "length d = length (skb_data skb) - 14" "20 \<le> length d" "\<And>i. d ! i = skb_data skb ! (14 + i)"
    using True by (simp_all add: d_def)
  obtain tl where tl: "be16 (drop 2 d) = Some tl" using be_words_Some(1) [of 2 d] d(2) by auto
  then have ld: "load16 16 skb = Some tl" by (simp add: load16_def d_def)
  define ihl where "ihl = unat (d ! 0 AND 0x0f) * 4"
  have ih: "20 \<le> ihl" "ihl \<le> 60" "unat (ucast (d ! 0 AND 0x0f) * 4 :: u32) = ihl"
    using assms(2) d(2) word_and_le1 [of "d ! 0" "0x0f"] unat_low_nibble4 [of "d ! 0"]
    by (auto simp: plain_ipv4_def ihl_def word_le_nat_alt simp flip: d_def)
  let ?src = "V4 (ipv4_new (d ! 12) (d ! 13) (d ! 14) (d ! 15))"
  let ?dst = "V4 (ipv4_new (d ! 16) (d ! 17) (d ! 18) (d ! 19))"
  have a: "addrs_at skb 4 26 30 4 ?src ?dst"
    using True by (simp add: addrs_at_def subslice_def d(3))
  let ?tot = "if ucast tl > (ucast (d ! 0 AND 0x0f) * 4 :: u32) then ucast (ucast tl - ucast (d ! 0 AND 0x0f) * 4 :: u32) else 0 :: u16"
  have h: "handle_ipv4 env skb = (if d ! 9 \<noteq> IPPROTO_TCP \<and> d ! 9 \<noteq> IPPROTO_UDP then Some None
      else emit_l4 env skb (14 + ihl) (d ! 9) ?tot 4 (d ! 8) 26 30 4)"
    using True ih(3) by (simp add: handle_ipv4_def load8_in ld d(3) Let_def)
  have p: "parse_ipv4 d ts iface = (if length d < ihl then None
      else finish (d ! 9) ?src ?dst (d ! 8) (drop ihl d) (min (unat tl - ihl) (length d - ihl)) ts iface)" for ts iface
    using d(2) ih(1) tl by (simp add: parse_ipv4_def Let_def flip: ihl_def)
  have dr: "drop (14 + ihl) (skb_data skb) = drop ihl d" by (simp add: d_def add.commute)
  have tot: "unat ?tot = unat tl - ihl" using clipped_sub16 [of "ucast (d ! 0 AND 0x0f) * 4" tl] ih(3) by simp
  consider "d ! 9 = IPPROTO_TCP" | "d ! 9 = IPPROTO_UDP" | "d ! 9 \<noteq> IPPROTO_TCP" "d ! 9 \<noteq> IPPROTO_UDP" by blast
  then have "decoded off (handle_ipv4 env skb) = parse_ipv4 d (off + ke_ktime env) (skb_ifindex skb)"
  proof cases
    case 1
    then have pl: "unat tl \<le> length d" "plain_segment (drop ihl d)"
      using assms(2) d(2) tl by (simp_all add: plain_ipv4_def flip: d_def ihl_def)
    have "14 + ihl + 20 \<le> length (skb_data skb) \<Longrightarrow> 20 \<le> data_offset (drop (14 + ihl) (skb_data skb))"
      using pl(2) d(1) unfolding dr plain_segment_def by simp
    from emit_tcp [OF assms(1) a this, of off ?tot "d ! 8"] have
      "decoded off (handle_ipv4 env skb) =
        finish IPPROTO_TCP ?src ?dst (d ! 8) (drop ihl d) (unat tl - ihl) (off + ke_ktime env) (skb_ifindex skb)"
      unfolding h dr tot using 1 by simp
    then show ?thesis unfolding p using 1 pl(1) by (simp add: min_def)
  next
    case 2
    have "decoded off (handle_ipv4 env skb) = finish IPPROTO_UDP ?src ?dst (d ! 8) (drop ihl d)
        (min (unat tl - ihl) (length d - ihl)) (off + ke_ktime env) (skb_ifindex skb)"
      unfolding h emit_udp [OF assms(1) a, of off "14 + ihl" ?tot "d ! 8", unfolded dr, symmetric] using 2 by simp
    then show ?thesis unfolding p using 2 by simp
  next
    case 3
    then show ?thesis unfolding h p by (simp add: finish_other)
  qed
  then show ?thesis by (simp add: d_def)
qed

lemma ext_walk_none:
  "nxt \<notin> {IPPROTO_TCP, IPPROTO_UDP, 0, 43, 44, 51, 60} \<Longrightarrow> ext_walk (Suc n) d e nxt off = None"
  by simp

lemma handle_ipv6_parse:
  assumes "ke_reserve env" "plain_ipv6 (drop 14 (skb_data skb))"
  shows "decoded off (handle_ipv6 env skb) = parse_ipv6 (drop 14 (skb_data skb)) (off + ke_ktime env) (skb_ifindex skb)"
proof (cases "54 \<le> length (skb_data skb)")
  case False
  then have "length (drop 14 (skb_data skb)) < 40" by simp
  with False show ?thesis by (simp add: handle_ipv6_def parse_ipv6_def)
next
  case True
  define d where "d = drop 14 (skb_data skb)"
  have d: "length d = length (skb_data skb) - 14" "40 \<le> length d" "\<And>i. d ! i = skb_data skb ! (14 + i)"
    using True by (simp_all add: d_def)
  obtain pl where pl: "be16 (drop 4 d) = Some pl" using be_words_Some(1) [of 4 d] d(2) by auto
  then have ld: "load16 18 skb = Some pl" by (simp add: load16_def d_def)
  let ?src = "V6 (from_be (subslice 8 24 d))" and ?dst = "V6 (from_be (subslice 24 40 d))"
  have a: "addrs_at skb 6 22 38 16 ?src ?dst"
    using True by (simp add: addrs_at_def subslice_def d_def)
  have h: "handle_ipv6 env skb = (if d ! 6 \<noteq> IPPROTO_TCP \<and> d ! 6 \<noteq> IPPROTO_UDP then Some None
      else emit_l4 env skb 54 (d ! 6) pl 6 (d ! 7) 22 38 16)"
    using True by (simp add: handle_ipv6_def load8_in ld d(3))
  have p: "parse_ipv6 d ts iface = (if d ! 6 \<noteq> IPPROTO_TCP \<and> d ! 6 \<noteq> IPPROTO_UDP then None
      else finish (d ! 6) ?src ?dst (d ! 7) (drop 40 d) (min (40 + unat pl) (length d) - 40) ts iface)" for ts iface
  proof -
    have "ext_walk 8 d e (d ! 6) 40 = (if d ! 6 \<noteq> IPPROTO_TCP \<and> d ! 6 \<noteq> IPPROTO_UDP then None else Some (d ! 6, 40))" for e
      using assms(2) d(2) ext_walk_none [of "d ! 6" 7] ext_walk_direct [of "d ! 6" 8]
      by (auto simp: plain_ipv6_def simp del: ext_walk.simps simp flip: d_def)
    with d(2) pl show ?thesis by (simp add: parse_ipv6_def get_from_def del: ext_walk.simps)
  qed
  have dr: "drop 54 (skb_data skb) = drop 40 d" by (simp add: d_def)
  consider "d ! 6 = IPPROTO_TCP" | "d ! 6 = IPPROTO_UDP" | "d ! 6 \<noteq> IPPROTO_TCP" "d ! 6 \<noteq> IPPROTO_UDP" by blast
  then have "decoded off (handle_ipv6 env skb) = parse_ipv6 d (off + ke_ktime env) (skb_ifindex skb)"
  proof cases
    case 1
    then have q: "40 + unat pl \<le> length d" "plain_segment (drop 40 d)"
      using assms(2) d(2) pl by (simp_all add: plain_ipv6_def flip: d_def)
    have "54 + 20 \<le> length (skb_data skb) \<Longrightarrow> 20 \<le> data_offset (drop 54 (skb_data skb))"
      using q(2) d(1) unfolding dr plain_segment_def by simp
    from emit_tcp [OF assms(1) a this, of off pl "d ! 7"] show ?thesis
      unfolding h p dr using 1 q(1) by (simp add: min_def)
  next
    case 2
    then show ?thesis
      unfolding h p using emit_udp [OF assms(1) a, of off 54 pl "d ! 7", unfolded dr] by simp
  next
    case 3
    then show ?thesis unfolding h p by simp
  qed
  then show ?thesis by (simp add: d_def)
qed

lemma strip_link_untagged:
  assumes "be16 (drop 12 data) = Some et" "et \<noteq> ETH_P_VLAN" "et \<noteq> ETH_P_QINQ"
  shows "strip_link DLT_EN10MB data = Some (et, drop 14 data)"
proof -
  have "14 \<le> length data" using assms(1) by (auto simp: be16_def get_at_def split: if_splits)
  moreover have "vlan_walk 2 data et 14 = Some (et, 14)"
    using assms(2,3) by (simp add: numeral_2_eq_2)
  ultimately show ?thesis using assms(1) by (simp add: strip_link_def get_from_def)
qed

lemma kernel_agrees:
  assumes "ke_reserve env" "plain_frame (skb_data skb)"
  shows "decoded off (map_option snd (l4scope_tc env skb)) =
    parse_frame DLT_EN10MB (skb_data skb) (off + ke_ktime env) (skb_ifindex skb)"
proof (cases "be16 (drop 12 (skb_data skb))")
  case None
  then have "length (skb_data skb) < 14" by (auto simp: be16_def get_at_def split: if_splits)
  with None show ?thesis
    by (auto simp: l4scope_tc_def handle_def parse_frame_def strip_link_def get_from_def split: option.splits)
next
  case (Some et)
  then have len: "14 \<le> length (skb_data skb)" by (auto simp: be16_def get_at_def split: if_splits)
  have et: "et \<noteq> ETH_P_VLAN" "et \<noteq> ETH_P_QINQ" using assms(2) Some by (simp_all add: plain_frame_def)
  have "map_option snd (l4scope_tc env skb) = (if et = ETH_P_IP then handle_ipv4 env skb
      else if et = ETH_P_IPV6 then handle_ipv6 env skb else Some None)"
    using len Some by (auto simp: l4scope_tc_def handle_def load16_def split: option.splits)
      (cases "handle_ipv4 env skb"; cases "handle_ipv6 env skb"; simp)+
  then show ?thesis
    using assms Some handle_ipv4_parse [OF assms(1)] handle_ipv6_parse [OF assms(1)]
    by (simp add: parse_frame_def strip_link_untagged [OF Some et] plain_frame_def)
qed

section \<open>Through the ring\<close>

text \<open>The record as the kernel writes it: the fields of the C structure in the byte order of the host, and
  the padding that was cleared with the rest.\<close>

definition to_native :: "bool \<Rightarrow> nat \<Rightarrow> 'a::len word \<Rightarrow> bytes" where
  "to_native little n w = (if little then rev (to_be n w) else to_be n w)"

definition write_bpf_event :: "bool \<Rightarrow> bpf_l4_event \<Rightarrow> bytes" where
  "write_bpf_event little e =
     to_native little 8 (be_ts e) @ be_saddr e @ be_daddr e @ to_native little 2 (be_sport e) @
     to_native little 2 (be_dport e) @ to_native little 4 (be_seq e) @ to_native little 4 (be_ack e) @
     to_native little 4 (be_window e) @ to_native little 4 (be_payload_len e) @
     [be_family e, be_proto e, be_flags e, be_ttl e] @ to_native little 4 (be_iface e) @ replicate 4 0"

lemma length_to_native [simp]: "length (to_native little n w) = n"
  by (simp add: to_native_def)

lemma native_to_native: "LENGTH('a::len) = 8 * n \<Longrightarrow> native little (to_native little n (w :: 'a word)) = w"
  by (simp add: native_def to_native_def from_le_def from_be_to_be)

lemma bpf_event_roundtrip:
  assumes "length (be_saddr e) = 16" "length (be_daddr e) = 16"
  shows "read_bpf_event little (write_bpf_event little e) = e" "length (write_bpf_event little e) = BPF_EVENT_SIZE"
  using assms by (simp_all add: read_bpf_event_def write_bpf_event_def subslice_def native_to_native nth_append BPF_EVENT_SIZE_def)

lemma emit_addr_length:
  "emit_l4 env skb l4 proto tot family ttl saddr daddr n = Some (Some e) \<Longrightarrow> n \<le> 16 \<Longrightarrow>
   length (be_saddr e) = 16 \<and> length (be_daddr e) = 16"
  by (auto simp: emit_l4_def load_bytes_def get_range_def Let_def bind_eq_Some_conv split: if_splits)

lemma tc_addr_length:
  assumes "l4scope_tc env skb = Some (act, Some e)"
  shows "length (be_saddr e) = 16 \<and> length (be_daddr e) = 16"
  using assms
  by (auto simp: l4scope_tc_def handle_def handle_ipv4_def handle_ipv6_def Let_def bind_eq_Some_conv
      dest: emit_addr_length split: if_splits)

lemma emit_kind:
  "emit_l4 env skb l4 proto tot family ttl saddr daddr n = Some (Some e) \<Longrightarrow> be_proto e = proto \<and> be_family e = family"
  by (auto simp: emit_l4_def Let_def bind_eq_Some_conv split: if_splits)

lemma tc_decodes:
  assumes "l4scope_tc env skb = Some (act, Some e)"
  shows "ebpf_decode off e \<noteq> None"
proof -
  have "be_proto e \<in> {IPPROTO_TCP, IPPROTO_UDP} \<and> be_family e \<in> {4, 6}"
    using assms by (auto simp: l4scope_tc_def handle_def handle_ipv4_def handle_ipv6_def Let_def bind_eq_Some_conv
        dest!: emit_kind split: if_splits)
  then show ?thesis using ebpf_decode_build [of e] by blast
qed

text \<open>What one frame adds to the ring.\<close>

definition ring_of :: "kernel_env \<Rightarrow> bool \<Rightarrow> sk_buff \<Rightarrow> ring_item list" where
  "ring_of env little skb = (case l4scope_tc env skb of
      Some (_, Some e) \<Rightarrow> [RingRecord (write_bpf_event little e)] | _ \<Rightarrow> [])"

lemma ebpf_loop_ring_of:
  "ebpf_loop off little (ring_of env little skb @ rs) =
     (case decoded off (map_option snd (l4scope_tc env skb)) of
        Some p \<Rightarrow> Some (rs, Inr (Some p)) | None \<Rightarrow> ebpf_loop off little rs)"
proof -
  obtain e where e: "l4scope_tc env skb = Some (TC_ACT_OK, e)" using handle_total [of env skb] by (auto simp: l4scope_tc_def)
  show ?thesis
  proof (cases e)
    case (Some ev)
    with e tc_addr_length [of env skb TC_ACT_OK ev] show ?thesis
      by (simp add: ring_of_def bpf_event_roundtrip)
  qed (simp add: ring_of_def e)
qed

section \<open>Properties\<close>

text \<open>C33: the program in the kernel is safe on every packet: no access leaves the packet, whatever its bytes,
  its length, and the header lengths it announces, and the packet is always let through. If it writes a
  record, the record has the size user space expects, is read back unchanged in either byte order, and
  is accepted by the decoder.\<close>

theorem kernel_program_safe:
  "\<exists>e. l4scope_tc env skb = Some (TC_ACT_OK, e) \<and>
     (case e of None \<Rightarrow> True | Some ev \<Rightarrow> length (write_bpf_event little ev) = BPF_EVENT_SIZE \<and>
        read_bpf_event little (write_bpf_event little ev) = ev \<and> ebpf_decode off ev \<noteq> None)"
proof -
  obtain e where e: "l4scope_tc env skb = Some (TC_ACT_OK, e)" using handle_total [of env skb] by (auto simp: l4scope_tc_def)
  show ?thesis
  proof (cases e)
    case (Some ev)
    with e show ?thesis
      using tc_addr_length [of env skb TC_ACT_OK ev] tc_decodes [of env skb TC_ACT_OK ev] by (simp add: bpf_event_roundtrip)
  qed (simp add: e)
qed

text \<open>C35: the two parsers agree. For a frame with arbitrary bytes, but without VLAN tag and extension
  headers, with header lengths in range and captured in full, what user space reads from the ring
  after the program in the kernel has seen the frame is exactly what the parser in user space makes of
  the frame itself: the same packet, or none and the next record.\<close>

theorem backend_parity:
  assumes "ke_reserve env" "plain_frame (skb_data skb)"
  shows "ebpf_loop off little (ring_of env little skb @ rs) =
    (case parse_frame DLT_EN10MB (skb_data skb) (off + ke_ktime env) (skb_ifindex skb) of
       Some p \<Rightarrow> Some (rs, Inr (Some p)) | None \<Rightarrow> ebpf_loop off little rs)"
  unfolding ebpf_loop_ring_of kernel_agrees [OF assms] ..

theorem backend_parity_witness:
  "ebpf_loop 400 True (ring_of \<lparr>ke_ktime = 100, ke_reserve = True\<rparr> True
     \<lparr>skb_data = eth_bytes (replicate 12 7) [] ETH_P_IP (ipv4_packet 0 1 0 64 IPPROTO_TCP 0 1 2 []
        (tcp_segment 5000 80 77 99 0x10 512 0 [] [7, 8])), skb_ifindex = 3\<rparr> @ []) =
   Some ([], Inr (Some (build (V4 1) 5000 (V4 2) 80 Tcp (TcpFlags 0x10) 77 99 512 2 64 500 3)))"
proof -
  let ?l3 = "ipv4_packet 0 1 0 64 IPPROTO_TCP 0 1 2 [] (tcp_segment 5000 80 77 99 0x10 512 0 [] [7, 8])"
  let ?f = "eth_bytes (replicate 12 7) [] ETH_P_IP ?l3"
  let ?skb = "\<lparr>skb_data = ?f, skb_ifindex = 3\<rparr>"
  have d: "drop 12 ?f = to_be16 ETH_P_IP @ ?l3" "drop 14 ?f = ?l3"
    by (simp_all add: eth_bytes_def)
  have l: "?l3 ! 0 = 0x45" "drop 20 ?l3 = tcp_segment 5000 80 77 99 0x10 512 0 [] [7, 8]" "be16 (drop 2 ?l3) = Some 42"
    "length ?l3 = 42" "tcp_segment 5000 80 77 99 0x10 512 0 [] [7, 8] ! 12 = 0x50"
    by (simp_all add: ipv4_packet_def ipv4_bytes_def tcp_segment_def tcp_bytes_def nth_append)
  have b: "be16 (drop 12 ?f) = Some ETH_P_IP" unfolding d by (rule be16_to_be16)
  have "plain_ipv4 ?l3" by (simp add: plain_ipv4_def l plain_segment_def data_offset_def)
  then have "plain_frame (skb_data ?skb)"
    unfolding plain_frame_def sk_buff.simps b d by (simp add: ETH_P_IP_def ETH_P_IPV6_def ETH_P_VLAN_def ETH_P_QINQ_def)
  moreover have "parse_frame DLT_EN10MB ?f 500 3 = Some (build (V4 1) 5000 (V4 2) 80 Tcp (TcpFlags 0x10) 77 99 512 2 64 500 3)"
    using tcp4_frame_parsed [of "Eth (replicate 12 7) []" "[]" "[]" "[7, 8]" 0 1 0 64 0 1 2 5000 80 77 99 "0x10" 512 0 "[]" 500 3]
    by (simp add: opts_ok_def)
  ultimately show ?thesis
    using backend_parity [of "\<lparr>ke_ktime = 100, ke_reserve = True\<rparr>" ?skb 400 True "[]"] by simp
qed

end
