(* ===== verification/Threads.thy ===== *)
theory Threads
  imports Agent_Laws Export_Laws
begin

text \<open>
  The three threads of the program. The main thread records packets, events and gauges; the thread of
  \<^verbatim>\<open>http.rs\<close> answers scrapes; the thread of \<^verbatim>\<open>otlp.rs\<close> wakes up and pushes. They share the registry of
  \<^verbatim>\<open>metrics.rs\<close>, a mutex around the counters. Each write to a counter is a step of its own, so that a
  reader could see a half-recorded event if the mutex did not prevent it.
\<close>

section \<open>The threads\<close>

text \<open>The single writes of a call, in the order of the code.\<close>

fun writes :: "reg_op \<Rightarrow> (metrics \<Rightarrow> metrics) list" where
  "writes (SeenPacket pod_ip) =
     (\<lambda>m. m\<lparr>packets_total := packets_total m + 1\<rparr>) #
     (case pod_ip of Some ip \<Rightarrow> [\<lambda>m. m\<lparr>pod_packets := bump ip (pod_packets m)\<rparr>] | None \<Rightarrow> [])"
| "writes (SeenEvent ev pod_ip) =
     (let k = kind_str (ev_kind ev); s = severity_str (ev_severity ev) in
      [\<lambda>m. m\<lparr>events_total := events_total m + 1\<rparr>, \<lambda>m. m\<lparr>event_counts := bump (k, s) (event_counts m)\<rparr>] @
      (case pod_ip of Some ip \<Rightarrow> [\<lambda>m. m\<lparr>pod_event_counts := bump (ip, k, s) (pod_event_counts m)\<rparr>] | None \<Rightarrow> []))"
| "writes (Gauges active half rstr newr) =
     [\<lambda>m. m\<lparr>m_active_flows := active\<rparr>, \<lambda>m. m\<lparr>m_half_open_max := half\<rparr>,
      \<lambda>m. m\<lparr>m_rst_per_sec := rstr\<rparr>, \<lambda>m. m\<lparr>m_new_flow_per_sec := newr\<rparr>]"

definition store :: "(metrics \<Rightarrow> metrics) \<Rightarrow> registry \<Rightarrow> registry" where
  "store u r = r\<lparr>reg_metrics := u (reg_metrics r)\<rparr>"

text \<open>A connection whose answer needs the registry; the others are answered without the lock.\<close>

definition scrapes :: "Export.conn \<Rightarrow> bool" where
  "scrapes c \<longleftrightarrow> conn_clone c = None \<and>
     (case conn_line c (conn_bytes c) of Inl e \<Rightarrow> False
      | Inr (request_line, rest) \<Rightarrow> (case drain_headers c rest of Inl e \<Rightarrow> False
          | Inr _ \<Rightarrow> prefix ''/metrics'' (request_path request_line)))"

definition answer :: "Export.conn \<Rightarrow> registry \<Rightarrow> string list" where
  "answer c reg = (case handle_conn reg c of Inl e \<Rightarrow> [] | Inr resp \<Rightarrow> [resp])"

datatype thread = Main | Server | Pusher

text \<open>A reader waits, holds the lock, or has released it with what it read.\<close>

datatype phase = Idle | Reading | Copied registry

record system =
  sy_reg :: registry
  sy_holder :: "thread option"
  sy_calls :: "reg_op list"
  sy_writes :: "(metrics \<Rightarrow> metrics) list"
  sy_server :: phase
  sy_conns :: "(string + Export.conn) list"
  sy_replies :: "string list"
  sy_pusher :: phase
  sy_wakes :: "(u64 \<times> (string \<Rightarrow> u16 \<Rightarrow> net)) list"
  sy_world :: world

definition system_start :: "reg_op list \<Rightarrow> (string + Export.conn) list \<Rightarrow> (u64 \<times> (string \<Rightarrow> u16 \<Rightarrow> net)) list \<Rightarrow> world \<Rightarrow> system" where
  "system_start calls conns wakes w =
     \<lparr>sy_reg = registry_new, sy_holder = None, sy_calls = calls, sy_writes = [], sy_server = Idle, sy_conns = conns,
      sy_replies = [], sy_pusher = Idle, sy_wakes = wakes, sy_world = w\<rparr>"

inductive system_step :: "pusher \<Rightarrow> system \<Rightarrow> system \<Rightarrow> bool" for p where
  main_lock: "sy_holder s = None \<Longrightarrow> sy_calls s = c # cs \<Longrightarrow> system_step p s
    (s\<lparr>sy_holder := Some Main, sy_writes := (if reg_poisoned (sy_reg s) then [] else writes c)\<rparr>)"
| main_write: "sy_holder s = Some Main \<Longrightarrow> sy_writes s = u # us \<Longrightarrow> system_step p s
    (s\<lparr>sy_reg := store u (sy_reg s), sy_writes := us\<rparr>)"
| main_unlock: "sy_holder s = Some Main \<Longrightarrow> sy_writes s = [] \<Longrightarrow> system_step p s
    (s\<lparr>sy_holder := None, sy_calls := tl (sy_calls s)\<rparr>)"
| serve_error: "sy_server s = Idle \<Longrightarrow> sy_conns s = Inl e # cs \<Longrightarrow> system_step p s (s\<lparr>sy_conns := cs\<rparr>)"
| serve_plain: "sy_server s = Idle \<Longrightarrow> sy_conns s = Inr c # cs \<Longrightarrow> \<not> scrapes c \<Longrightarrow> system_step p s
    (s\<lparr>sy_conns := cs, sy_replies := sy_replies s @ answer c (sy_reg s)\<rparr>)"
| serve_lock: "sy_server s = Idle \<Longrightarrow> sy_conns s = Inr c # cs \<Longrightarrow> scrapes c \<Longrightarrow> sy_holder s = None \<Longrightarrow> system_step p s
    (s\<lparr>sy_holder := Some Server, sy_server := Reading\<rparr>)"
| serve_read: "sy_server s = Reading \<Longrightarrow> sy_conns s = Inr c # cs \<Longrightarrow> sy_holder s = Some Server \<Longrightarrow> system_step p s
    (s\<lparr>sy_holder := None, sy_server := Copied (sy_reg s)\<rparr>)"
| serve_reply: "sy_server s = Copied r \<Longrightarrow> sy_conns s = Inr c # cs \<Longrightarrow> system_step p s
    (s\<lparr>sy_server := Idle, sy_conns := cs, sy_replies := sy_replies s @ answer c r\<rparr>)"
| push_lock: "sy_pusher s = Idle \<Longrightarrow> sy_wakes s = (now, env) # ws \<Longrightarrow> sy_holder s = None \<Longrightarrow> system_step p s
    (s\<lparr>sy_holder := Some Pusher, sy_pusher := Reading\<rparr>)"
| push_read: "sy_pusher s = Reading \<Longrightarrow> sy_wakes s = (now, env) # ws \<Longrightarrow> sy_holder s = Some Pusher \<Longrightarrow> system_step p s
    (s\<lparr>sy_holder := None, sy_pusher := Copied (sy_reg s)\<rparr>)"
| push_post: "sy_pusher s = Copied r \<Longrightarrow> sy_wakes s = (now, env) # ws \<Longrightarrow> system_step p s
    (s\<lparr>sy_pusher := Idle, sy_wakes := ws, sy_world := push_turn p env r now (sy_world s)\<rparr>)"

section \<open>Calls as sequences of writes\<close>

definition after :: "reg_op list \<Rightarrow> registry" where
  "after ops = fold reg_step ops registry_new"

lemma after_Nil [simp]: "after [] = registry_new"
  by (simp add: after_def)

lemma after_poisoned [simp]: "\<not> reg_poisoned (after ops)"
  using log_fields [of registry_new ops] by (simp add: after_def)

lemma after_Suc: "k < length ops \<Longrightarrow> after (take (Suc k) ops) = reg_step (ops ! k) (after (take k ops))"
  by (simp add: after_def take_Suc_conv_app_nth)

lemma writes_call: "\<not> reg_poisoned r \<Longrightarrow> fold store (writes op) r = reg_step op r"
  by (cases op) (simp_all add: record_defs store_def Let_def split: option.split)

lemma answer_plain: "\<not> scrapes c \<Longrightarrow> answer c r = answer c r'"
  by (auto simp: scrapes_def answer_def handle_conn_def route_def split: option.splits sum.splits if_splits)

lemma accept_loop_append: "accept_loop (xs @ ys) = accept_loop xs @ accept_loop ys"
  by (induction xs rule: accept_loop.induct) (simp_all split: sum.split)

lemma push_loop_append: "push_loop p (xs @ ys) w = push_loop p ys (push_loop p xs w)"
  by (induction p xs w rule: push_loop.induct) simp_all

section \<open>Mutual exclusion\<close>

text \<open>\<open>lock_ok\<close>: \<open>k\<close> calls are complete; while the main thread holds the lock the next one is partly written,
  and otherwise the registry is that of the complete calls. Whoever reads holds the lock, and
  a reader that is not waiting is busy with the head of its input.\<close>

definition lock_ok :: "reg_op list \<Rightarrow> nat \<Rightarrow> system \<Rightarrow> bool" where
  "lock_ok calls k s \<longleftrightarrow> k \<le> length calls \<and> sy_calls s = drop k calls \<and>
     (if sy_holder s = Some Main
      then k < length calls \<and> (\<exists>us. writes (calls ! k) = us @ sy_writes s \<and> sy_reg s = fold store us (after (take k calls)))
      else sy_writes s = [] \<and> sy_reg s = after (take k calls)) \<and>
     (sy_holder s = Some Server \<longleftrightarrow> sy_server s = Reading) \<and> (sy_holder s = Some Pusher \<longleftrightarrow> sy_pusher s = Reading) \<and>
     (sy_server s \<noteq> Idle \<longrightarrow> (\<exists>c cs. sy_conns s = Inr c # cs)) \<and> (sy_pusher s \<noteq> Idle \<longrightarrow> sy_wakes s \<noteq> [])"

text \<open>\<open>copies_ok\<close>: the numbers of complete calls a reader has found so far never decrease, and what it has
  in hand is the registry after some number of calls that is not below them.\<close>

definition copies_ok :: "reg_op list \<Rightarrow> nat \<Rightarrow> nat list \<Rightarrow> phase \<Rightarrow> bool" where
  "copies_ok calls k ns ph \<longleftrightarrow> sorted ns \<and> (\<forall>n \<in> set ns. n \<le> k) \<and>
     (\<forall>r. ph = Copied r \<longrightarrow> (\<exists>n \<le> k. (\<forall>m \<in> set ns. m \<le> n) \<and> r = after (take n calls)))"

lemma copies_ok_mono: "copies_ok calls k ns ph \<Longrightarrow> k \<le> k' \<Longrightarrow> copies_ok calls k' ns ph"
  unfolding copies_ok_def by (metis le_trans)

lemma copies_ok_copy: "copies_ok calls k ns ph \<Longrightarrow> r = after (take k calls) \<Longrightarrow> copies_ok calls k ns (Copied r)"
  unfolding copies_ok_def by blast

lemma copies_ok_wait: "copies_ok calls k ns ph \<Longrightarrow> ph' = Idle \<or> ph' = Reading \<Longrightarrow> copies_ok calls k ns ph'"
  unfolding copies_ok_def by auto

lemma copies_ok_now: "copies_ok calls k ns ph \<Longrightarrow> copies_ok calls k (ns @ [k]) Idle"
  by (auto simp: copies_ok_def sorted_append)

lemma copies_ok_use:
  assumes "copies_ok calls k ns (Copied r)"
  obtains n where "r = after (take n calls)" "copies_ok calls k (ns @ [n]) Idle"
  using assms by (auto simp: copies_ok_def sorted_append)

lemma copies_ok_sorted: "copies_ok calls k ns ph \<Longrightarrow> sorted ns" "copies_ok calls k ns ph \<Longrightarrow> \<forall>n \<in> set ns. n \<le> k"
  by (simp_all add: copies_ok_def)

text \<open>What a reader has done is what its loop does on the registries it found: \<open>loop\<close> is that loop over all
  turns, \<open>turn\<close> a single one.\<close>

definition reader_ok ::
  "(registry \<Rightarrow> 'i \<Rightarrow> 'x) \<Rightarrow> ('x list \<Rightarrow> 'o) \<Rightarrow> reg_op list \<Rightarrow> 'i list \<Rightarrow> nat \<Rightarrow> phase \<Rightarrow> 'i list \<Rightarrow> 'o \<Rightarrow> bool" where
  "reader_ok found loop calls inp k ph rest out \<longleftrightarrow> (\<exists>xs ns. inp = xs @ rest \<and> length ns = length xs \<and>
     copies_ok calls k ns ph \<and> out = loop (map2 (\<lambda>n. found (after (take n calls))) ns xs))"

locale registry_reader =
  fixes found :: "registry \<Rightarrow> 'i \<Rightarrow> 'x"
    and loop :: "'x list \<Rightarrow> 'o"
    and turn :: "'x \<Rightarrow> 'o \<Rightarrow> 'o"
  assumes loop_snoc: "loop (xs @ [x]) = turn x (loop xs)"
begin

lemma start: "reader_ok found loop calls inp 0 Idle inp (loop [])"
  unfolding reader_ok_def copies_ok_def by (intro exI [of _ "[]"]) simp

lemma frame: "reader_ok found loop calls inp k ph rest out \<Longrightarrow> k \<le> k' \<Longrightarrow> reader_ok found loop calls inp k' ph rest out"
  unfolding reader_ok_def using copies_ok_mono by blast

lemma take_lock: "reader_ok found loop calls inp k ph rest out \<Longrightarrow> reader_ok found loop calls inp k Reading rest out"
  unfolding reader_ok_def using copies_ok_wait by blast

lemma copy: "reader_ok found loop calls inp k ph rest out \<Longrightarrow> reader_ok found loop calls inp k (Copied (after (take k calls))) rest out"
  unfolding reader_ok_def using copies_ok_copy by blast

lemma turn_at:
  assumes "inp = xs @ i # rest" "length ns = length xs" "copies_ok calls k (ns @ [n]) Idle"
    "out = loop (map2 (\<lambda>n. found (after (take n calls))) ns xs)"
  shows "reader_ok found loop calls inp k Idle rest (turn (found (after (take n calls)) i) out)"
  unfolding reader_ok_def using assms
  by (intro exI [of _ "xs @ [i]"] exI [of _ "ns @ [n]"]) (simp add: loop_snoc)

lemma turn_now:
  assumes "reader_ok found loop calls inp k ph (i # rest) out" "out' = turn (found (after (take k calls)) i) out"
  shows "reader_ok found loop calls inp k Idle rest out'"
proof -
  from assms(1) obtain xs ns where "inp = xs @ i # rest" "length ns = length xs" "copies_ok calls k ns ph"
    "out = loop (map2 (\<lambda>n. found (after (take n calls))) ns xs)" unfolding reader_ok_def by blast
  with turn_at copies_ok_now assms(2) show ?thesis by blast
qed

lemma turn_copied:
  assumes "reader_ok found loop calls inp k (Copied r) (i # rest) out"
  shows "reader_ok found loop calls inp k Idle rest (turn (found r i) out)"
proof -
  from assms obtain xs ns where x: "inp = xs @ i # rest" "length ns = length xs" "copies_ok calls k ns (Copied r)"
    "out = loop (map2 (\<lambda>n. found (after (take n calls))) ns xs)" unfolding reader_ok_def by blast
  from copies_ok_use [OF x(3)] obtain n where "r = after (take n calls)" "copies_ok calls k (ns @ [n]) Idle" .
  with turn_at [OF x(1,2) _ x(4)] show ?thesis by blast
qed

end

definition conn_found :: "registry \<Rightarrow> string + Export.conn \<Rightarrow> string + registry \<times> Export.conn" where
  "conn_found r = map_sum id (Pair r)"

definition wake_found :: "registry \<Rightarrow> u64 \<times> (string \<Rightarrow> u16 \<Rightarrow> net) \<Rightarrow> u64 \<times> registry \<times> (string \<Rightarrow> u16 \<Rightarrow> net)" where
  "wake_found r x = (fst x, r, snd x)"

interpretation sv: registry_reader conn_found accept_loop "\<lambda>x rs. rs @ accept_loop [x]"
  by unfold_locales (simp add: accept_loop_append)

interpretation pu: registry_reader wake_found "\<lambda>xs. push_loop p xs w" "\<lambda>x w. push_loop p [x] w" for p w
  by unfold_locales (simp add: push_loop_append)

lemma answer_loop: "accept_loop [conn_found r (Inr c)] = answer c r" "accept_loop [conn_found r (Inl e)] = []"
  by (simp_all add: conn_found_def answer_def split: sum.split)

lemma turn_loop: "push_loop p [wake_found r (now, env)] w = push_turn p env r now w"
  by (simp add: wake_found_def)

section \<open>Every interleaving\<close>

definition system_inv ::
  "pusher \<Rightarrow> reg_op list \<Rightarrow> (string + Export.conn) list \<Rightarrow> (u64 \<times> (string \<Rightarrow> u16 \<Rightarrow> net)) list \<Rightarrow> world \<Rightarrow> nat \<Rightarrow> system \<Rightarrow> bool" where
  "system_inv p calls conns wakes w k s \<longleftrightarrow> lock_ok calls k s \<and>
     reader_ok conn_found accept_loop calls conns k (sy_server s) (sy_conns s) (sy_replies s) \<and>
     reader_ok wake_found (\<lambda>xs. push_loop p xs w) calls wakes k (sy_pusher s) (sy_wakes s) (sy_world s)"

lemma system_inv_start: "system_inv p calls conns wakes w 0 (system_start calls conns wakes w)"
  using sv.start [of calls conns] pu.start [of p w calls wakes]
  by (simp add: system_inv_def lock_ok_def system_start_def)

lemma lock_free: "lock_ok calls k s \<Longrightarrow> sy_holder s \<noteq> Some Main \<Longrightarrow> sy_reg s = after (take k calls)"
  by (simp add: lock_ok_def)

lemma main_unlock_ok:
  assumes "lock_ok calls k s" "sy_holder s = Some Main" "sy_writes s = []"
  shows "lock_ok calls (Suc k) (s\<lparr>sy_holder := None, sy_calls := tl (sy_calls s)\<rparr>)"
  using assms by (auto simp: lock_ok_def after_Suc writes_call drop_Suc tl_drop)

lemma main_write_ok:
  assumes "lock_ok calls k s" "sy_holder s = Some Main" "sy_writes s = u # us"
  shows "lock_ok calls k (s\<lparr>sy_reg := store u (sy_reg s), sy_writes := us\<rparr>)"
proof -
  from assms obtain vs where "writes (calls ! k) = vs @ u # us" "sy_reg s = fold store vs (after (take k calls))"
    by (auto simp: lock_ok_def)
  with assms show ?thesis by (auto simp: lock_ok_def intro!: exI [of _ "vs @ [u]"])
qed

lemma main_lock_ok:
  assumes "lock_ok calls k s" "sy_holder s = None" "sy_calls s = c # cs"
  shows "lock_ok calls k (s\<lparr>sy_holder := Some Main, sy_writes := (if reg_poisoned (sy_reg s) then [] else writes c)\<rparr>)"
proof -
  from assms have d: "drop k calls = c # cs" "sy_reg s = after (take k calls)" by (simp_all add: lock_ok_def)
  have k: "k < length calls" using d(1) by (metis drop_all list.distinct(1) not_le)
  with d(1) have "calls ! k = c" by (metis hd_drop_conv_nth list.sel(1))
  with assms d k show ?thesis by (auto simp: lock_ok_def intro!: exI [of _ "[]"])
qed

lemma server_read_ok:
  "lock_ok calls k s \<Longrightarrow> sy_holder s = Some Server \<Longrightarrow> lock_ok calls k (s\<lparr>sy_holder := None, sy_server := Copied r\<rparr>)"
  by (auto simp: lock_ok_def)

lemma pusher_read_ok:
  "lock_ok calls k s \<Longrightarrow> sy_holder s = Some Pusher \<Longrightarrow> lock_ok calls k (s\<lparr>sy_holder := None, sy_pusher := Copied r\<rparr>)"
  by (auto simp: lock_ok_def)

text \<open>Steps of a reader leave the accounts of the main thread alone, and a step keeps every account or, when
  the main thread leaves its critical section, advances it by one call.\<close>

lemma system_step_inv:
  assumes "system_step p s s'" "system_inv p calls conns wakes w k s"
  shows "\<exists>k'. system_inv p calls conns wakes w k' s'"
  using assms(1)
proof cases
  case (main_lock c cs)
  then show ?thesis using assms(2) main_lock_ok unfolding system_inv_def by (intro exI [of _ k]) simp
next
  case (main_write u us)
  then show ?thesis using assms(2) main_write_ok unfolding system_inv_def by (intro exI [of _ k]) simp
next
  case main_unlock
  then show ?thesis using assms(2) main_unlock_ok sv.frame [of calls conns k _ _ _ "Suc k"] pu.frame [of p w calls wakes k _ _ _ "Suc k"]
    unfolding system_inv_def by (intro exI [of _ "Suc k"]) simp
next
  case (serve_error e cs)
  then show ?thesis using assms(2) sv.turn_now [of calls conns k Idle "Inl e" cs "sy_replies s"]
    unfolding system_inv_def by (intro exI [of _ k]) (simp add: lock_ok_def answer_loop)
next
  case (serve_plain c cs)
  then show ?thesis using assms(2) sv.turn_now [of calls conns k Idle "Inr c" cs "sy_replies s"]
      answer_plain [of c "sy_reg s" "after (take k calls)"]
    unfolding system_inv_def by (intro exI [of _ k]) (simp add: lock_ok_def answer_loop)
next
  case (serve_lock c cs)
  then show ?thesis using assms(2) sv.take_lock unfolding system_inv_def by (intro exI [of _ k]) (auto simp: lock_ok_def)
next
  case (serve_read c cs)
  then have l: "lock_ok calls k (s\<lparr>sy_holder := None, sy_server := Copied (sy_reg s)\<rparr>)" and r: "sy_reg s = after (take k calls)"
    using assms(2) lock_free [of calls k s] by (simp_all add: system_inv_def server_read_ok)
  show ?thesis using serve_read l assms(2) sv.copy [of calls conns k Reading "sy_conns s" "sy_replies s"]
    unfolding system_inv_def r by (intro exI [of _ k]) simp
next
  case (serve_reply r c cs)
  then show ?thesis using assms(2) sv.turn_copied [of calls conns k r "Inr c" cs "sy_replies s"]
    unfolding system_inv_def by (intro exI [of _ k]) (auto simp: lock_ok_def answer_loop)
next
  case (push_lock now env ws)
  then show ?thesis using assms(2) pu.take_lock unfolding system_inv_def by (intro exI [of _ k]) (auto simp: lock_ok_def)
next
  case (push_read now env ws)
  then have l: "lock_ok calls k (s\<lparr>sy_holder := None, sy_pusher := Copied (sy_reg s)\<rparr>)" and r: "sy_reg s = after (take k calls)"
    using assms(2) lock_free [of calls k s] by (simp_all add: system_inv_def pusher_read_ok)
  show ?thesis using push_read l assms(2) pu.copy [of p w calls wakes k Reading "sy_wakes s" "sy_world s"]
    unfolding system_inv_def r by (intro exI [of _ k]) simp
next
  case (push_post r now env ws)
  then show ?thesis using assms(2) pu.turn_copied [of p w calls wakes k r "(now, env)" ws "sy_world s"]
    unfolding system_inv_def by (intro exI [of _ k]) (auto simp: lock_ok_def turn_loop)
qed

lemma reachable_inv:
  assumes "(system_step p)\<^sup>*\<^sup>* (system_start calls conns wakes w) s"
  obtains k where "system_inv p calls conns wakes w k s"
proof -
  from assms have "\<exists>k. system_inv p calls conns wakes w k s"
  proof (induction rule: rtranclp_induct)
    case base
    show ?case using system_inv_start by blast
  qed (blast intro: system_step_inv)
  then show thesis using that by blast
qed

text \<open>No deadlock: while anything is left to do, some thread can take a step.\<close>

lemma system_progress:
  assumes "system_inv p calls conns wakes w k s" "sy_calls s \<noteq> [] \<or> sy_conns s \<noteq> [] \<or> sy_wakes s \<noteq> []"
  shows "\<exists>s'. system_step p s s'"
proof (cases "sy_holder s")
  case (Some t)
  have l: "lock_ok calls k s" using assms(1) by (simp add: system_inv_def)
  show ?thesis
  proof (cases t)
    case Main
    with Some show ?thesis by (cases "sy_writes s") (auto intro: system_step.intros)
  next
    case Server
    with Some l show ?thesis by (auto simp: lock_ok_def intro: serve_read)
  next
    case Pusher
    with Some l obtain x ws where "sy_pusher s = Reading" "sy_wakes s = x # ws" by (auto simp: lock_ok_def neq_Nil_conv)
    with Some Pusher show ?thesis by (cases x) (auto intro: push_read)
  qed
next
  case None
  have l: "lock_ok calls k s" using assms(1) by (simp add: system_inv_def)
  consider c cs where "sy_calls s = c # cs" | c cs where "sy_conns s = c # cs" | x ws where "sy_wakes s = x # ws"
    using assms(2) by (meson neq_Nil_conv)
  then show ?thesis
  proof cases
    case 1
    with None show ?thesis by (blast intro: main_lock)
  next
    case (2 c cs)
    show ?thesis
    proof (cases "sy_server s")
      case Idle
      with 2 None show ?thesis by (cases c) (blast intro: serve_error serve_plain serve_lock)+
    next
      case Reading
      with l None show ?thesis by (simp add: lock_ok_def)
    next
      case (Copied r)
      with l 2 show ?thesis by (auto simp: lock_ok_def intro: serve_reply)
    qed
  next
    case (3 x ws)
    show ?thesis
    proof (cases "sy_pusher s")
      case Idle
      with 3 None show ?thesis by (cases x) (blast intro: push_lock)
    next
      case Reading
      with l None show ?thesis by (simp add: lock_ok_def)
    next
      case (Copied r)
      with 3 show ?thesis by (cases x) (blast intro: push_post)
    qed
  qed
qed

text \<open>Every execution ends: what is left to do decreases with every step.\<close>

fun phase_rank :: "phase \<Rightarrow> nat" where
  "phase_rank Idle = 0" | "phase_rank Reading = 1" | "phase_rank (Copied r) = 2"

definition calls_left :: "reg_op list \<Rightarrow> nat" where
  "calls_left cs = (\<Sum>c\<leftarrow>cs. length (writes c) + 2)"

definition work_left :: "system \<Rightarrow> nat" where
  "work_left s =
     (if sy_holder s = Some Main then length (sy_writes s) + 1 + calls_left (tl (sy_calls s)) else calls_left (sy_calls s)) +
     (3 * length (sy_conns s) - phase_rank (sy_server s)) + (3 * length (sy_wakes s) - phase_rank (sy_pusher s))"

lemma work_decreases: "system_step p s s' \<Longrightarrow> work_left s' < work_left s"
  by (induction rule: system_step.induct) (auto simp: work_left_def calls_left_def split: if_splits)

lemma system_terminates: "wfp (\<lambda>s' s. system_step p s s')"
  by (rule wfp_if_convertible_to_nat [of _ work_left]) (rule work_decreases)

lemma system_inv_done:
  assumes "system_inv p calls conns wakes w k s" "sy_calls s = []"
  shows "sy_reg s = after calls"
  using assms by (auto simp: system_inv_def lock_ok_def split: if_splits)

lemma system_step_iff:
  assumes "system_inv p calls conns wakes w k s"
  shows "(\<exists>s'. system_step p s s') \<longleftrightarrow> sy_calls s \<noteq> [] \<or> sy_conns s \<noteq> [] \<or> sy_wakes s \<noteq> []"
proof
  assume "\<exists>s'. system_step p s s'"
  then show "sy_calls s \<noteq> [] \<or> sy_conns s \<noteq> [] \<or> sy_wakes s \<noteq> []"
    using assms by (auto simp: system_inv_def lock_ok_def elim!: system_step.cases)
qed (rule system_progress [OF assms])

lemma system_inv_logs:
  assumes "system_inv p calls conns wakes w k s"
  shows "\<exists>k cs ms ws ns. k \<le> length calls \<and> sy_calls s = drop k calls \<and>
      (sy_holder s \<noteq> Some Main \<longrightarrow> sy_reg s = fold reg_step (take k calls) registry_new) \<and>
      conns = cs @ sy_conns s \<and> length ms = length cs \<and> sorted ms \<and> (\<forall>n \<in> set ms. n \<le> k) \<and>
      sy_replies s = accept_loop (map2 (\<lambda>n. conn_found (fold reg_step (take n calls) registry_new)) ms cs) \<and>
      wakes = ws @ sy_wakes s \<and> length ns = length ws \<and> sorted ns \<and> (\<forall>n \<in> set ns. n \<le> k) \<and>
      sy_world s = push_loop p (map2 (\<lambda>n. wake_found (fold reg_step (take n calls) registry_new)) ns ws) w"
proof -
  have l: "k \<le> length calls" "sy_calls s = drop k calls" "sy_holder s \<noteq> Some Main \<longrightarrow> sy_reg s = after (take k calls)"
    using assms by (simp_all add: system_inv_def lock_ok_def)
  from assms obtain cs ms where c: "conns = cs @ sy_conns s" "length ms = length cs" "copies_ok calls k ms (sy_server s)"
    "sy_replies s = accept_loop (map2 (\<lambda>n. conn_found (after (take n calls))) ms cs)"
    unfolding system_inv_def reader_ok_def by blast
  from assms obtain ws ns where w: "wakes = ws @ sy_wakes s" "length ns = length ws" "copies_ok calls k ns (sy_pusher s)"
    "sy_world s = push_loop p (map2 (\<lambda>n. wake_found (after (take n calls))) ns ws) w"
    unfolding system_inv_def reader_ok_def by blast
  show ?thesis
    using l c(1,2,4) w(1,2,4) copies_ok_sorted [OF c(3)] copies_ok_sorted [OF w(3)] unfolding after_def
    by (intro exI [of _ k] exI [of _ cs] exI [of _ ms] exI [of _ ws] exI [of _ ns] conjI) assumption+
qed

section \<open>The calls of the main thread\<close>

definition event_calls :: "pod_matcher option \<Rightarrow> l4_event list \<Rightarrow> reg_op list" where
  "event_calls pods evs = map (\<lambda>ev. SeenEvent ev (pod_of pods (ev_key ev))) evs"

definition gauge_call :: "engine \<Rightarrow> u64 \<Rightarrow> reg_op" where
  "gauge_call eng now =
     (let s = stats eng now in Gauges (of_nat (active_flows s)) (ucast (st_half_open_max s)) (rst_per_sec s) (new_flow_per_sec s))"

text \<open>The calls for one packet, the \<open>n\<close>-th, for the packets of a source, and with those of the final sweep.\<close>

definition packet_calls :: "pod_matcher option \<Rightarrow> u64 \<Rightarrow> engine \<Rightarrow> packet_meta \<Rightarrow> reg_op list" where
  "packet_calls pods n eng p =
     SeenPacket (pod_of pods (pkt_key p)) # event_calls pods (snd (process eng p)) @
     (if n mod 512 = 0 then [gauge_call (fst (process eng p)) (ts_nanos p)] else [])"

fun loop_calls :: "pod_matcher option \<Rightarrow> u64 \<Rightarrow> engine \<Rightarrow> packet_meta list \<Rightarrow> reg_op list" where
  "loop_calls pods n eng [] = []"
| "loop_calls pods n eng (p # ps) = packet_calls pods (n + 1) eng p @ loop_calls pods (n + 1) (fst (process eng p)) ps"

definition agent_calls :: "pod_matcher option \<Rightarrow> engine \<Rightarrow> packet_meta list \<Rightarrow> reg_op list" where
  "agent_calls pods eng ps =
     (let now = last_ts_of ps 0; (eng', evs) = sweep (fst (engine_run eng (map Packet ps))) now
      in loop_calls pods 0 eng ps @ event_calls pods evs @ [gauge_call eng' now])"

lemma update_gauges_call:
  "ag_registry (update_gauges ag) = reg_step (gauge_call (ag_engine ag) (ag_last_ts ag)) (ag_registry ag)"
  by (simp add: update_gauges_def gauge_call_def Let_def)

lemma agent_packet_calls:
  "ag_registry (agent_packet quiet pods p ag) = fold reg_step (packet_calls pods (ag_packets ag + 1) (ag_engine ag) p) (ag_registry ag)"
  "ag_packets (agent_packet quiet pods p ag) = ag_packets ag + 1"
  by (simp_all add: agent_packet_def packet_calls_def event_calls_def case_prod_beta Let_def update_gauges_call pod_of_def
      del: reg_step.simps) simp

lemma agent_loop_calls:
  "yields s ps e \<Longrightarrow> ag_source ag = s \<Longrightarrow> agent_loop quiet pods ag = Some ag' \<Longrightarrow>
   ag_registry ag' = fold reg_step (loop_calls pods (ag_packets ag) (ag_engine ag) ps) (ag_registry ag)"
proof (induction arbitrary: ag rule: yields.induct)
  case (clean_end s s')
  then show ?case by (subst (asm) agent_loop.simps) auto
next
  case (failed s s' e)
  then show ?case by (subst (asm) agent_loop.simps) auto
next
  case (packet s s' p ps e)
  let ?ag = "agent_packet quiet pods p (ag\<lparr>ag_source := s'\<rparr>)"
  have "agent_loop quiet pods ?ag = Some ag'"
    using packet.hyps(1) packet.prems by (subst (asm) agent_loop.simps) simp
  with packet.IH [of ?ag] show ?case by (simp add: agent_packet_source agent_packet_calls agent_packet_engine)
qed

lemma agent_finish_calls:
  "ag_registry (agent_finish quiet pods ag) = fold reg_step (event_calls pods (snd (sweep (ag_engine ag) (ag_last_ts ag))) @
     [gauge_call (fst (sweep (ag_engine ag) (ag_last_ts ag))) (ag_last_ts ag)]) (ag_registry ag)"
  by (simp add: agent_finish_def case_prod_beta Let_def update_gauges_call event_calls_def del: reg_step.simps)

lemma agent_registry_calls:
  assumes "yields (ag_source ag) ps e" "ag_registry ag = registry_new" "ag_packets ag = 0" "ag_last_ts ag = 0"
  shows "\<exists>ag'. agent_loop quiet pods ag = Some ag' \<and>
    ag_registry (agent_finish quiet pods ag') = after (agent_calls pods (ag_engine ag) ps)"
proof -
  from agent_loop_yields [OF assms(1) refl] obtain ag' where a: "agent_loop quiet pods ag = Some ag'" "run_of ag ps ag'" by blast
  from agent_loop_calls [OF assms(1) refl a(1)] a assms show ?thesis
    by (auto simp: agent_finish_calls agent_calls_def after_def run_of_def case_prod_beta Let_def)
qed

section \<open>Properties\<close>

text \<open>C17: the threads of the program see whole calls only. Take any source that ends, any connections to the
  metrics endpoint and any wake-ups of the push, and interleave, write by write, the calls of the main
  thread on the registry with the two readers. In every state reached, some number \<open>k\<close> of the calls is
  complete, and unless the main thread is inside a call the registry is exactly that of these calls;
  the answers given and the requests pushed are those of the sequential loops on registries that the
  main thread had after complete calls, in an order that never goes back. Some thread can continue
  exactly as long as something is left to do, every execution ends, and once the main thread is done the
  registry is the one that the sequential model of the agent computes.\<close>

theorem threads_see_whole_calls:
  assumes "yields (ag_source ag) ps err" "ag_registry ag = registry_new" "ag_packets ag = 0" "ag_last_ts ag = 0"
    "calls = agent_calls pods (ag_engine ag) ps" "(system_step p)\<^sup>*\<^sup>* (system_start calls conns wakes w) s"
  shows "(\<exists>k cs ms ws ns. k \<le> length calls \<and> sy_calls s = drop k calls \<and>
      (sy_holder s \<noteq> Some Main \<longrightarrow> sy_reg s = fold reg_step (take k calls) registry_new) \<and>
      conns = cs @ sy_conns s \<and> length ms = length cs \<and> sorted ms \<and> (\<forall>n \<in> set ms. n \<le> k) \<and>
      sy_replies s = accept_loop (map2 (\<lambda>n. conn_found (fold reg_step (take n calls) registry_new)) ms cs) \<and>
      wakes = ws @ sy_wakes s \<and> length ns = length ws \<and> sorted ns \<and> (\<forall>n \<in> set ns. n \<le> k) \<and>
      sy_world s = push_loop p (map2 (\<lambda>n. wake_found (fold reg_step (take n calls) registry_new)) ns ws) w) \<and>
    ((\<exists>s'. system_step p s s') \<longleftrightarrow> sy_calls s \<noteq> [] \<or> sy_conns s \<noteq> [] \<or> sy_wakes s \<noteq> []) \<and>
    wfp (\<lambda>s' s. system_step p s s') \<and>
    (sy_calls s = [] \<longrightarrow> (\<exists>ag'. agent_loop quiet pods ag = Some ag' \<and> ag_registry (agent_finish quiet pods ag') = sy_reg s))"
proof -
  obtain k where k: "system_inv p calls conns wakes w k s" using reachable_inv [OF assms(6)] .
  have run: "sy_calls s = [] \<Longrightarrow> \<exists>ag'. agent_loop quiet pods ag = Some ag' \<and> ag_registry (agent_finish quiet pods ag') = sy_reg s"
    using agent_registry_calls [OF assms(1-4), of quiet pods] system_inv_done [OF k] assms(5) by simp
  show ?thesis using system_inv_logs [OF k] run system_terminates [of p] system_step_iff [OF k] by (intro conjI impI)
qed

text \<open>A host with one packet and one failing connection: after the first call of the main thread the registry
  counts the packet.\<close>

definition example_agent :: "packet_meta \<Rightarrow> agent" where
  "example_agent q =
     \<lparr>ag_registry = registry_new, ag_sink = SinkOff, ag_summary = [], ag_packets = 0, ag_last_ts = 0,
      ag_engine = engine_new default_detect, ag_source = SynthSource \<lparr>syn_packets = [q], syn_idx = 0\<rparr>, ag_world = world_empty\<rparr>"

definition example_pusher :: pusher where
  "example_pusher = \<lparr>p_target = \<lparr>t_host = ''localhost'', t_port = 4318, t_path = ''/v1/metrics'', t_headers = []\<rparr>,
     p_interval_secs = 15, p_start_ns = 0, p_attrs = []\<rparr>"

theorem threads_see_whole_calls_witness:
  "\<exists>s. (system_step example_pusher)\<^sup>*\<^sup>* (system_start (agent_calls None (engine_new default_detect)
      [example_packet 5 Forward SYN 6 0 0]) [Inl ''reset''] [] world_empty) s \<and> sy_holder s = None \<and>
    packets_total (reg_metrics (sy_reg s)) = 1 \<and> (\<exists>s'. system_step example_pusher s s')"
proof -
  let ?q = "example_packet 5 Forward SYN 6 0 0" and ?p = example_pusher
  define calls where "calls = agent_calls None (engine_new default_detect) [?q]"
  obtain rest where c: "calls = SeenPacket None # rest" 
    by (simp add: calls_def agent_calls_def packet_calls_def pod_of_def case_prod_beta Let_def)
  let ?s0 = "system_start calls [Inl ''reset''] [] world_empty"
  let ?s1 = "?s0\<lparr>sy_holder := Some Main, sy_writes := writes (SeenPacket None)\<rparr>"
  let ?s2 = "?s1\<lparr>sy_reg := store (hd (writes (SeenPacket None))) registry_new, sy_writes := []\<rparr>"
  let ?s3 = "?s2\<lparr>sy_holder := None, sy_calls := tl (sy_calls ?s2)\<rparr>"
  have "system_step ?p ?s0 ?s1" using main_lock [of ?s0 "SeenPacket None" rest ?p] c by (simp add: system_start_def)
  moreover have "system_step ?p ?s1 ?s2" using main_write [of ?s1 _ "[]" ?p] by (simp add: system_start_def)
  moreover have "system_step ?p ?s2 ?s3" by (rule main_unlock) simp_all
  moreover define s3 where "s3 = ?s3"
  ultimately have r: "(system_step ?p)\<^sup>*\<^sup>* ?s0 s3" by (meson r_into_rtranclp rtranclp.rtrancl_into_rtrancl)
  have f: "sy_holder s3 = None" "sy_calls s3 = rest" "sy_conns s3 \<noteq> []" by (simp_all add: s3_def c system_start_def)
  have y: "yields (ag_source (example_agent ?q)) [?q] None"
    using yields_synthetic [of "\<lparr>syn_packets = [?q], syn_idx = 0\<rparr>"] by (simp add: example_agent_def)
  have a: "ag_registry (example_agent ?q) = registry_new" "ag_packets (example_agent ?q) = 0" "ag_last_ts (example_agent ?q) = 0"
    "calls = agent_calls None (ag_engine (example_agent ?q)) [?q]" by (simp_all add: calls_def example_agent_def)
  note t = threads_see_whole_calls [OF y a r, of True]
  from t obtain k where k: "k \<le> length calls" "sy_calls s3 = drop k calls"
      "sy_holder s3 \<noteq> Some Main \<longrightarrow> sy_reg s3 = fold reg_step (take k calls) registry_new"
    by (elim conjE exE) (rule that; assumption)
  have st: "\<exists>s'. system_step ?p s3 s'" using t [THEN conjunct2, THEN conjunct1] f(3) by blast
  have "k = 1" using k(1) arg_cong [OF k(2), of length] f(2) by (simp add: c)
  then have "packets_total (reg_metrics (sy_reg s3)) = 1" using k(3) f(1) by (simp add: c record_defs)
  with r st f(1) show ?thesis unfolding calls_def [symmetric] by blast
qed

end
