(* ===== verification/Build_Script.thy ===== *)
theory Build_Script
  imports Export
begin

text \<open>
  \<^verbatim>\<open>l4scope-capture/build.rs\<close>: with the feature \<^verbatim>\<open>ebpf\<close> the build runs clang on the BPF program and stops
  with a panic when it cannot; otherwise it does nothing. The environment and the compiler are
  arguments; a variable has bytes that may not be UTF-8.
\<close>

section \<open>The script\<close>

datatype var_error = NotPresent | NotUnicode string

definition var :: "(string \<Rightarrow> string option) \<Rightarrow> string \<Rightarrow> var_error + string" where
  "var env_vars k = (case env_vars k of None \<Rightarrow> Inl NotPresent
    | Some v \<Rightarrow> if utf8_valid v then Inr v else Inl (NotUnicode v))"

text \<open>\<open>PathBuf::join\<close> on a Unix host.\<close>

definition path_join :: "string \<Rightarrow> string \<Rightarrow> string" where
  "path_join a b = (if prefix ''/'' b then b else if a = [] \<or> last a = CHR ''/'' then a @ b else a @ ''/'' @ b)"

text \<open>The panics of the script: an environment variable that cannot be read, a foreign architecture, clang that
  cannot be run, and clang that fails.\<close>

datatype build_panic = UnwrapErr var_error | UnsupportedArch string | ClangMissing string | ClangFailed string

record build_run =
  br_stdout :: "string list"
  br_commands :: "string list list"
  br_result :: "build_panic + unit"

definition target_arch :: "(string \<Rightarrow> string option) \<Rightarrow> build_panic + string" where
  "target_arch env_vars = (case var env_vars ''CARGO_CFG_TARGET_ARCH'' of
      Inr a \<Rightarrow> if a = ''x86_64'' then Inr ''x86'' else if a = ''aarch64'' then Inr ''arm64'' else Inl (UnsupportedArch a)
    | Inl _ \<Rightarrow> Inr ''x86'')"

definition clang_command :: "string \<Rightarrow> string \<Rightarrow> string \<Rightarrow> string \<Rightarrow> string list" where
  "clang_command arch bpf_dir src out =
     [''clang'', ''-O2'', ''-g'', ''-target'', ''bpf'', ''-D__TARGET_ARCH_'' @ arch, ''-I'', bpf_dir, ''-c'', src, ''-o'', out]"

text \<open>\<open>clang\<close> answers with the error of starting it or whether it succeeded.\<close>

definition build_main :: "(string \<Rightarrow> string option) \<Rightarrow> (string list \<Rightarrow> string + bool) \<Rightarrow> build_run" where
  "build_main env_vars clang =
     (if env_vars ''CARGO_FEATURE_EBPF'' = None then \<lparr>br_stdout = [], br_commands = [], br_result = Inr ()\<rparr>
      else case var env_vars ''CARGO_MANIFEST_DIR'' of
        Inl e \<Rightarrow> \<lparr>br_stdout = [], br_commands = [], br_result = Inl (UnwrapErr e)\<rparr>
      | Inr manifest \<Rightarrow>
          (let bpf_dir = path_join manifest ''../../bpf''; src = path_join bpf_dir ''l4scope.bpf.c'' in
           case var env_vars ''OUT_DIR'' of
             Inl e \<Rightarrow> \<lparr>br_stdout = [], br_commands = [], br_result = Inl (UnwrapErr e)\<rparr>
           | Inr out_dir \<Rightarrow>
               (let out = path_join out_dir ''l4scope.bpf.o'';
                    printed = [''cargo:rerun-if-changed='' @ src,
                      ''cargo:rerun-if-changed='' @ path_join bpf_dir ''vmlinux.h''] in
                case target_arch env_vars of
                  Inl e \<Rightarrow> \<lparr>br_stdout = printed, br_commands = [], br_result = Inl e\<rparr>
                | Inr arch \<Rightarrow>
                    (let cmd = clang_command arch bpf_dir src out in
                     \<lparr>br_stdout = printed, br_commands = [cmd],
                      br_result = (case clang cmd of
                          Inl e \<Rightarrow> Inl (ClangMissing e)
                        | Inr ok \<Rightarrow> if ok then Inr () else Inl (ClangFailed src))\<rparr>))))"

section \<open>What the build does\<close>

text \<open>The build runs at most one command, the compiler on the BPF program, and only with the feature enabled;
  it succeeds with the feature exactly when the compiler ran and reported success.\<close>

lemma build_disabled: "env_vars ''CARGO_FEATURE_EBPF'' = None \<Longrightarrow>
    br_result (build_main env_vars clang) = Inr () \<and> br_commands (build_main env_vars clang) = []"
  by (simp add: build_main_def)

lemma build_enabled:
  assumes "env_vars ''CARGO_FEATURE_EBPF'' \<noteq> None"
  shows "br_result (build_main env_vars clang) = Inr () \<longleftrightarrow>
    (\<exists>cmd. br_commands (build_main env_vars clang) = [cmd] \<and> hd cmd = ''clang'' \<and> clang cmd = Inr True)"
  using assms by (auto simp: build_main_def clang_command_def Let_def split: sum.splits if_splits)

lemma build_output_dir:
  assumes "br_commands (build_main env_vars clang) = [cmd]" "var env_vars ''OUT_DIR'' = Inr d" "d \<noteq> []" "last d \<noteq> CHR ''/''"
  shows "last cmd = d @ ''/l4scope.bpf.o''"
  using assms by (auto simp: build_main_def clang_command_def path_join_def Let_def split: sum.splits if_splits)

end
