(* ===== verification/Address_Text.thy ===== *)
theory Address_Text
  imports Attribution
begin

unbundle bit_operations_syntax

text \<open>
  Printing and reading of addresses: what the standard library writes for an address, compressed or
  mapped IPv6 forms included, the reader of \<^verbatim>\<open>attribution.rs\<close> takes back, alone and in a list of networks.
\<close>

section \<open>Numbers\<close>

lemma to_digit_digit: "d < radix \<Longrightarrow> radix \<le> 16 \<Longrightarrow> to_digit radix (digit_char d) = Some d"
  by (simp add: to_digit_def hex_val_def digit_char_def Let_def of_char_of)

lemma digit_char_zero: "d < 16 \<Longrightarrow> digit_char d = CHR ''0'' \<Longrightarrow> d = 0"
  using to_digit_digit [of d 16] by (simp add: to_digit_def hex_val_def)

lemma show_base_set: "2 \<le> b \<Longrightarrow> \<forall>c \<in> set (show_base b n). \<exists>d < b. c = digit_char d"
proof (induction n rule: less_induct)
  case (less n)
  show ?case
  proof (cases "n < b")
    case False
    then have "n div b < n" using less.prems by simp
    from less.IH [OF this less.prems] have "\<forall>c \<in> set (show_base b (n div b)). \<exists>d < b. c = digit_char d" .
    moreover have "\<exists>d < b. digit_char (n mod b) = digit_char d" using less.prems by (intro exI [of _ "n mod b"]) simp
    ultimately show ?thesis using False less.prems by (subst show_base.simps) auto
  qed (use less.prems in \<open>subst show_base.simps, auto\<close>)
qed

lemma show_base_value:
  "2 \<le> b \<Longrightarrow> b \<le> 16 \<Longrightarrow> foldl (\<lambda>acc c. acc * b + the (to_digit b c)) 0 (show_base b n) = n"
proof (induction n rule: less_induct)
  case (less n)
  show ?case
  proof (cases "n < b")
    case True
    with less.prems show ?thesis by (subst show_base.simps) (simp add: to_digit_digit)
  next
    case False
    then have "foldl (\<lambda>acc c. acc * b + the (to_digit b c)) 0 (show_base b (n div b)) = n div b" using less by simp
    with False less.prems show ?thesis by (subst show_base.simps) (simp add: to_digit_digit)
  qed
qed

lemma show_base_length: "2 \<le> b \<Longrightarrow> n < b ^ Suc k \<Longrightarrow> length (show_base b n) \<le> Suc k"
proof (induction k arbitrary: n)
  case 0
  then show ?case by (subst show_base.simps) simp
next
  case (Suc k)
  then have "n div b < b ^ Suc k" by (simp add: div_less_iff_less_mult mult.commute)
  with Suc show ?case by (subst show_base.simps) simp
qed

lemma show_base_lead: "2 \<le> b \<Longrightarrow> b \<le> 16 \<Longrightarrow> 0 < n \<Longrightarrow> hd (show_base b n) \<noteq> CHR ''0''"
proof (induction n rule: less_induct)
  case (less n)
  show ?case
  proof (cases "n < b")
    case True
    with less.prems digit_char_zero [of n] show ?thesis by (subst show_base.simps) auto
  next
    case False
    then have "0 < n div b" "n div b < n" using less.prems by (simp_all add: div_greater_zero_iff)
    with less have "hd (show_base b (n div b)) \<noteq> CHR ''0''" by blast
    with False less.prems show ?thesis by (subst show_base.simps) (simp add: show_base_ne)
  qed
qed

text \<open>A printed number is read back, up to the first character that is no digit.\<close>

lemma read_number_show:
  assumes b: "2 \<le> b" "b \<le> 16" and n: "n < bound" "bound \<le> b ^ Suc k"
    and rest: "rest = [] \<or> to_digit b (hd rest) = None"
  shows "read_number b (Suc k) zp bound (show_base b n @ rest) = Some (n, rest)"
proof -
  let ?s = "show_base b n"
  have all: "\<forall>c \<in> set ?s. to_digit b c \<noteq> None" using show_base_set [OF b(1), of n] b by (auto simp: to_digit_digit)
  have "takeWhile (\<lambda>c. to_digit b c \<noteq> None) rest = []" using rest by (cases rest) auto
  then have tw: "takeWhile (\<lambda>c. to_digit b c \<noteq> None) (?s @ rest) = ?s" using all by (subst takeWhile_append2) auto
  have len: "length ?s \<le> Suc k" using n by (intro show_base_length [OF b(1)]) simp
  have lead: "hd ?s = CHR ''0'' \<Longrightarrow> length ?s = 1" using show_base_lead [OF b, of n] b by (cases "n = 0") (auto simp: show_base.simps [of b 0])
  show ?thesis unfolding read_number_def tw Let_def using len lead n b by (auto simp: show_base_ne show_base_value)
qed

lemma read_octet_show:
  "rest = [] \<or> to_digit 10 (hd rest) = None \<Longrightarrow> read_number 10 3 False 256 (show_nat (unat (x :: u8)) @ rest) = Some (unat x, rest)"
proof -
  assume r: "rest = [] \<or> to_digit 10 (hd rest) = None"
  have "unat x < 256" using unsigned_less [of x] by simp
  from read_number_show [OF _ _ this _ r, of 2 False] show ?thesis by (simp add: show_nat_def)
qed

lemma read_group_show:
  "rest = [] \<or> to_digit 16 (hd rest) = None \<Longrightarrow> read_number 16 4 True 65536 (show_hex (unat (x :: u16)) @ rest) = Some (unat x, rest)"
proof -
  assume r: "rest = [] \<or> to_digit 16 (hd rest) = None"
  have "unat x < 65536" using unsigned_less [of x] by simp
  from read_number_show [OF _ _ this _ r, of 3 True] show ?thesis by (simp add: show_hex_def)
qed

section \<open>IPv4\<close>

lemma no_digit [simp]: "to_digit b (CHR ''.'') = None" "to_digit b (CHR '':'') = None"
  by (simp_all add: to_digit_def hex_val_def)

lemma read_octets_show:
  "rest = [] \<or> to_digit 10 (hd rest) = None \<Longrightarrow>
   read_octets 0 4 (join ''.'' (map (\<lambda>b. show_nat (unat b)) [a, b, c, d]) @ rest) = Some ([a, b, c, d], rest)"
proof -
  assume r: "rest = [] \<or> to_digit 10 (hd rest) = None"
  have "read_octets 0 (Suc (Suc (Suc (Suc 0)))) (join ''.'' (map (\<lambda>b. show_nat (unat b)) [a, b, c, d]) @ rest) =
      Some ([a, b, c, d], rest)"
    using r by (simp add: read_separator_def read_given_def read_octet_show)
  then show ?thesis by (simp add: eval_nat_numeral)
qed

lemma read_show_ipv4:
  assumes "rest = [] \<or> to_digit 10 (hd rest) = None"
  shows "read_ipv4_addr (show_ipv4 w @ rest) = Some (w, rest)"
proof -
  obtain a b c d where o: "ipv4_octets w = [a, b, c, d]" by (simp add: ipv4_octets_def)
  from ipv4_new_octets [OF this] read_octets_show [OF assms, of a b c d] show ?thesis
    by (simp add: show_ipv4_def read_ipv4_addr_def o del: join.simps)
qed

text \<open>A text whose leading decimal digits are not followed by a dot is no IPv4 address.\<close>

lemma read_ipv4_none:
  assumes "\<not> prefix ''.'' (dropWhile (\<lambda>c. to_digit 10 c \<noteq> None) s)"
  shows "read_ipv4_addr s = None"
proof -
  define t where "t = dropWhile (\<lambda>c. to_digit 10 c \<noteq> None) s"
  have "v = None \<or> (\<exists>n. v = Some (n, t))" if "v = read_number 10 3 False 256 s" for v
    unfolding that read_number_def Let_def t_def by (simp add: dropWhile_eq_drop)
  moreover have "read_given (CHR ''.'') t = None"
    using assms [folded t_def] by (cases t) (auto simp: read_given_def)
  ultimately have "read_octets 0 (Suc (Suc (Suc (Suc 0)))) s = None"
    by (auto simp: read_separator_def split: option.split)
  then show ?thesis by (simp add: read_ipv4_addr_def eval_nat_numeral)
qed

section \<open>IPv6\<close>

text \<open>The text of groups behind the first one, and what may follow the last one.\<close>

definition more_groups :: "u16 list \<Rightarrow> string" where
  "more_groups gs = concat (map (\<lambda>g. CHR '':'' # show_hex (unat g)) gs)"

lemma more_groups_simps [simp]: "more_groups [] = []" "more_groups (g # gs) = CHR '':'' # show_hex (unat g) @ more_groups gs"
  by (simp_all add: more_groups_def)

lemma show_segments_Cons: "show_segments (g # gs) = show_hex (unat g) @ more_groups gs"
  by (induction gs arbitrary: g) (simp_all add: show_segments_def)

lemma show_segments_Nil: "show_segments [] = []"
  by (simp add: show_segments_def)

definition group_end :: "string \<Rightarrow> bool" where
  "group_end s \<longleftrightarrow> s = [] \<or> prefix ''::'' s"

lemma group_end_more: "group_end rest \<Longrightarrow> more_groups gs @ rest = [] \<or> hd (more_groups gs @ rest) = CHR '':''"
  by (cases gs) (auto simp: group_end_def prefix_def)

lemma hex_no_dot: "c \<in> set (show_hex n) \<Longrightarrow> c \<noteq> CHR ''.''"
proof -
  assume "c \<in> set (show_hex n)"
  then obtain d where "d < 16" "c = digit_char d" using show_base_set [of 16 n] by (auto simp: show_hex_def)
  then have "to_digit 16 c = Some d" by (simp add: to_digit_digit)
  then show "c \<noteq> CHR ''.''" by auto
qed

lemma read_ipv4_hex:
  assumes "rest = [] \<or> hd rest = CHR '':''"
  shows "read_ipv4_addr (show_hex n @ rest) = None" "read_ipv4_addr rest = None"
proof -
  have r: "\<not> prefix ''.'' (dropWhile (\<lambda>c. to_digit 10 c \<noteq> None) rest)" using assms by (cases rest) auto
  then show "read_ipv4_addr rest = None" by (rule read_ipv4_none)
  have "\<not> prefix ''.'' (dropWhile (\<lambda>c. to_digit 10 c \<noteq> None) (xs @ rest))" if "\<forall>c \<in> set xs. c \<noteq> CHR ''.''" for xs
    using that r by (induction xs) auto
  then show "read_ipv4_addr (show_hex n @ rest) = None" using hex_no_dot by (intro read_ipv4_none) blast
qed

lemma read_number_none: "rest = [] \<or> hd rest = CHR '':'' \<Longrightarrow> read_number 16 4 True 65536 rest = None"
  by (cases rest) (auto simp: read_number_def)

text \<open>Where the groups end, neither a group nor an IPv4 address is read.\<close>

lemma read_sep_end:
  assumes "group_end rest"
  shows "read_separator (CHR '':'') i read_ipv4_addr rest = None"
    "read_separator (CHR '':'') i (read_number 16 4 True 65536) rest = None"
proof -
  have "rest = [] \<or> hd rest = CHR '':''" "\<And>r. read_given (CHR '':'') rest = Some r \<Longrightarrow> hd r = CHR '':'' \<and> r \<noteq> []"
    using assms by (auto simp: group_end_def prefix_def read_given_def)
  then show "read_separator (CHR '':'') i read_ipv4_addr rest = None"
    "read_separator (CHR '':'') i (read_number 16 4 True 65536) rest = None"
    using read_ipv4_hex(2) read_number_none
    by (cases "read_given (CHR '':'') rest"; simp add: read_separator_def)+
qed

lemma read_groups_end: "group_end rest \<Longrightarrow> read_groups i n rest = ([], False, rest)"
  by (cases n) (simp_all add: read_sep_end)

lemma read_groups_more:
  "group_end rest \<Longrightarrow> length gs \<le> n \<Longrightarrow> read_groups (Suc i) n (more_groups gs @ rest) = (gs, False, rest)"
proof (induction gs arbitrary: n i)
  case Nil
  then show ?case by (simp add: read_groups_end)
next
  case (Cons g gs)
  then obtain m where m: "n = Suc m" by (cases n) auto
  have e: "more_groups gs @ rest = [] \<or> hd (more_groups gs @ rest) = CHR '':''" by (rule group_end_more [OF Cons.prems(1)])
  then have e': "more_groups gs @ rest = [] \<or> to_digit 16 (hd (more_groups gs @ rest)) = None" by auto
  have "read_separator (CHR '':'') (Suc i) read_ipv4_addr (more_groups (g # gs) @ rest) = None"
    using read_ipv4_hex(1) [OF e] by (simp add: read_separator_def read_given_def)
  moreover have "read_separator (CHR '':'') (Suc i) (read_number 16 4 True 65536) (more_groups (g # gs) @ rest) =
      Some (unat g, more_groups gs @ rest)"
    using read_group_show [OF e'] by (simp add: read_separator_def read_given_def)
  ultimately show ?case using Cons.IH [OF Cons.prems(1), of m "Suc i"] Cons.prems(2) by (auto simp: m)
qed

lemma read_groups_show:
  assumes "group_end rest" "length gs \<le> n"
  shows "read_groups 0 n (show_segments gs @ rest) = (gs, False, rest)"
proof (cases gs)
  case Nil
  then show ?thesis using assms by (simp add: show_segments_Nil read_groups_end)
next
  case (Cons g gs')
  then obtain m where m: "n = Suc m" using assms(2) by (cases n) auto
  have e: "more_groups gs' @ rest = [] \<or> hd (more_groups gs' @ rest) = CHR '':''" by (rule group_end_more [OF assms(1)])
  then have e': "more_groups gs' @ rest = [] \<or> to_digit 16 (hd (more_groups gs' @ rest)) = None" by auto
  show ?thesis
    using read_ipv4_hex(1) [OF e, of "unat g"] read_group_show [OF e', of g] read_groups_more [OF assms(1), of gs' m 0] assms(2)
    by (auto simp: Cons m show_segments_Cons read_separator_def)
qed

text \<open>The run of zeros that the text leaves out.\<close>

lemma zero_run_zeros:
  assumes "\<forall>j. fst cur \<le> j \<and> j < fst cur + snd cur \<longrightarrow> ss ! j = 0" "\<forall>j. fst best \<le> j \<and> j < fst best + snd best \<longrightarrow> ss ! j = 0"
    "snd cur > 0 \<longrightarrow> fst cur + snd cur = i" "fst best + snd best \<le> length ss" "i \<le> length ss" "zero_run i cur best (drop i ss) = (st, n)"
  shows "(\<forall>j. st \<le> j \<and> j < st + n \<longrightarrow> ss ! j = 0) \<and> st + n \<le> length ss"
  using assms
proof (induction "length ss - i" arbitrary: i cur best)
  case 0
  then show ?case by auto
next
  case (Suc k)
  then have i: "i < length ss" "drop i ss = ss ! i # drop (Suc i) ss" by (simp_all add: Cons_nth_drop_Suc)
  show ?case
  proof (cases "ss ! i = 0")
    case False
    with Suc.prems i Suc.hyps(2) show ?thesis by (intro Suc.hyps(1) [of "Suc i" "(0, 0)" best]) auto
  next
    case True
    define cur' where "cur' = (if snd cur = 0 then i else fst cur, snd cur + 1)"
    have c: "\<forall>j. fst cur' \<le> j \<and> j < fst cur' + snd cur' \<longrightarrow> ss ! j = 0" "fst cur' + snd cur' = Suc i"
      using Suc.prems(1,3) True by (auto simp: cur'_def less_Suc_eq)
    define best' where "best' = (if snd cur' > snd best then cur' else best)"
    have b: "\<forall>j. fst best' \<le> j \<and> j < fst best' + snd best' \<longrightarrow> ss ! j = 0" "fst best' + snd best' \<le> length ss"
      using c Suc.prems(2,4) i(1) by (auto simp: best'_def)
    have "zero_run (Suc i) cur' best' (drop (Suc i) ss) = (st, n)"
      using Suc.prems(6) True by (auto simp: i(2) cur'_def best'_def Let_def split: if_splits)
    from Suc.hyps(1) [OF _ c(1) b(1) _ b(2) _ this] c(2) i(1) Suc.hyps(2) show ?thesis by simp
  qed
qed

lemma zero_run_split:
  assumes "zero_run 0 (0, 0) (0, 0) ss = (st, n)"
  shows "ss = take st ss @ replicate n 0 @ drop (st + n) ss" "st + n \<le> length ss"
proof -
  from zero_run_zeros [of "(0, 0)" ss "(0, 0)" 0 st n] assms
  have z: "\<And>j. st \<le> j \<Longrightarrow> j < st + n \<Longrightarrow> ss ! j = 0" "st + n \<le> length ss" by simp_all
  then have "take n (drop st ss) = replicate n 0" by (intro nth_equalityI) simp_all
  then have "drop st ss = replicate n 0 @ drop (st + n) ss"
    using append_take_drop_id [of n "drop st ss"] by (simp add: add.commute)
  then show "ss = take st ss @ replicate n 0 @ drop (st + n) ss" using append_take_drop_id [of st ss] by simp
qed (use zero_run_zeros [of "(0, 0)" ss "(0, 0)" 0 st n] assms in simp)

lemma length_ipv6_segments [simp]: "length (ipv6_segments w) = 8"
  by (simp add: ipv6_segments_def)

lemma push_low_group: "push_bit 16 (drop_bit 16 w) OR ucast (ucast w :: u16) = (w :: u128)"
  by (rule bit_word_eqI) (auto simp: bit_simps)

lemma ipv6_segments_prefix:
  "k \<le> 8 \<Longrightarrow> ipv6_of_segments (take k (ipv6_segments w)) = drop_bit (16 * (8 - k)) w"
proof (induction k)
  case 0
  then show ?case by (simp add: ipv6_of_segments_def drop_bit_word_beyond)
next
  case (Suc k)
  define x where "x = drop_bit (16 * (7 - k)) w"
  have "16 * (8 - k) = 16 + 16 * (7 - k)" using Suc.prems by simp
  then have d: "drop_bit (16 * (8 - k)) w = drop_bit 16 x" by (simp only: x_def drop_bit_drop_bit)
  have "take (Suc k) (ipv6_segments w) = take k (ipv6_segments w) @ [ucast x]"
    using Suc.prems by (simp add: take_Suc_conv_app_nth) (simp add: ipv6_segments_def x_def)
  then show ?case
    using Suc d push_low_group [of x] by (simp add: ipv6_of_segments_def x_def [symmetric])
qed

lemma ipv6_of_segments_id: "ipv6_of_segments (ipv6_segments w) = w"
  using ipv6_segments_prefix [of 8 w] by simp

text \<open>The three forms of the text: an IPv4 address at the end, a run of zeros left out, all groups.\<close>

lemma read_ipv6_full: "length ss = 8 \<Longrightarrow> read_ipv6_addr (show_segments ss) = Some (ipv6_of_segments ss, [])"
  using read_groups_show [of "[]" ss 8] by (simp add: read_ipv6_addr_def group_end_def)

lemma read_ipv6_short:
  assumes "length xs + length ys < 7"
  shows "read_ipv6_addr (show_segments xs @ ''::'' @ show_segments ys) =
    Some (ipv6_of_segments (xs @ replicate (8 - length xs - length ys) 0 @ ys), [])"
proof -
  have "read_groups 0 8 (show_segments xs @ ''::'' @ show_segments ys) = (xs, False, ''::'' @ show_segments ys)"
    using assms by (intro read_groups_show) (simp_all add: group_end_def)
  moreover have "read_groups 0 (7 - length xs) (show_segments ys) = (ys, False, [])"
    using read_groups_show [of "[]" ys "7 - length xs"] assms by (simp add: group_end_def)
  ultimately show ?thesis using assms by (simp add: read_ipv6_addr_def read_given_def)
qed

lemma ipv6_segments_mapped:
  assumes "drop_bit 32 w = 0xFFFF"
  shows "ipv6_segments w = replicate 5 0 @ [0xFFFF, ucast (drop_bit 16 (ucast w :: u32)), ucast (ucast w :: u32)]"
proof -
  have d: "drop_bit (32 + k) w = drop_bit k 0xFFFF" for k using assms by (metis add.commute drop_bit_drop_bit)
  have u: "(ucast (drop_bit 16 w) :: u16) = ucast (drop_bit 16 (ucast w :: u32))" "(ucast w :: u16) = ucast (ucast w :: u32)"
    by (rule bit_word_eqI; auto simp: bit_simps)+
  have z: "drop_bit 112 w = 0" "drop_bit 96 w = 0" "drop_bit 80 w = 0" "drop_bit 64 w = 0" "drop_bit 48 w = 0"
    using d [of 80] d [of 64] d [of 48] d [of 32] d [of 16] by simp_all
  have "ipv6_segments w = [ucast (drop_bit 112 w), ucast (drop_bit 96 w), ucast (drop_bit 80 w), ucast (drop_bit 64 w),
      ucast (drop_bit 48 w), ucast (drop_bit 32 w), ucast (drop_bit 16 w), ucast w]"
    by (simp add: ipv6_segments_def upt_rec)
  moreover have "replicate 5 (0 :: u16) = [0, 0, 0, 0, 0]" by (simp add: numeral_eq_Suc)
  ultimately show ?thesis unfolding z assms u by simp
qed

lemma read_ipv6_mapped:
  assumes "drop_bit 32 w = 0xFFFF"
  shows "read_ipv6_addr (''::ffff:'' @ show_ipv4 (ucast w)) = Some (w, [])"
proof -
  have h: "read_groups 0 8 (''::ffff:'' @ show_ipv4 (ucast w)) = ([], False, ''::ffff:'' @ show_ipv4 (ucast w))"
    by (rule read_groups_end) (simp add: group_end_def)
  have f: "show_hex (unat (0xFFFF :: u16)) = ''ffff''" 
  proof -
    have "digit_char 15 = CHR ''f''" by code_simp
    then show ?thesis by (simp add: show_hex_def show_base.simps [of 16])
  qed
  have s: "(6::nat) = Suc 5" "(7::nat) = Suc 6" by simp_all
  let ?r = "CHR '':'' # show_ipv4 (ucast w)"
  have g: "read_ipv4_addr (''ffff'' @ ?r) = None" "read_number 16 4 True 65536 (''ffff'' @ ?r) = Some (0xFFFF, ?r)"
    using read_ipv4_hex(1) [of ?r "unat (0xFFFF :: u16)"] read_group_show [of ?r "0xFFFF"] unfolding f by simp_all
  have t: "read_groups 1 6 ?r = ([ucast (drop_bit 16 (ucast w :: u32)), ucast (ucast w :: u32)], True, [])"
    unfolding s(1) read_groups.simps using read_show_ipv4 [of "[]" "ucast w"] by (simp add: read_separator_def read_given_def)
  have "read_groups 0 7 (''ffff'' @ ?r) = ([0xFFFF, ucast (drop_bit 16 (ucast w :: u32)), ucast (ucast w :: u32)], True, [])"
    unfolding s(2) read_groups.simps using g t by (simp add: read_separator_def)
  moreover have "ipv6_of_segments (replicate 5 0 @ [0xFFFF, ucast (drop_bit 16 (ucast w :: u32)), ucast (ucast w :: u32)]) = w"
    using ipv6_of_segments_id [of w] unfolding ipv6_segments_mapped [OF assms] .
  ultimately show ?thesis unfolding read_ipv6_addr_def h by (simp add: read_given_def)
qed

lemma parse_show_ip: "parse_ip (show_ip a) = Some a"
proof (cases a)
  case (V4 w)
  then show ?thesis using read_show_ipv4 [of "[]" w] by (simp add: parse_ip_def)
next
  case (V6 w)
  let ?ss = "ipv6_segments w"
  obtain st n where z: "zero_run 0 (0, 0) (0, 0) ?ss = (st, n)" by fastforce
  have no4: "read_ipv4_addr (show_segments xs @ rest) = None" if "group_end rest" for xs rest
    using that read_ipv4_hex group_end_more [OF that]
    by (cases xs) (simp_all add: show_segments_Nil show_segments_Cons, auto simp: group_end_def prefix_def)
  consider "drop_bit 32 w = 0xFFFF" | "drop_bit 32 w \<noteq> 0xFFFF" "n > 1" | "drop_bit 32 w \<noteq> 0xFFFF" "\<not> n > 1" by blast
  then have "read_ipv4_addr (show_ipv6 w) = None \<and> read_ipv6_addr (show_ipv6 w) = Some (w, [])"
  proof cases
    case 1
    then show ?thesis using read_ipv6_mapped [OF 1] no4 [of "''::ffff:'' @ show_ipv4 (ucast w)" "[]"]
      by (simp add: show_ipv6_def group_end_def show_segments_Nil)
  next
    case 2
    let ?xs = "take st ?ss" and ?ys = "drop (st + n) ?ss"
    from zero_run_split [OF z] have s: "?ss = ?xs @ replicate n 0 @ ?ys" "st + n \<le> 8" by simp_all
    then have "length ?xs + length ?ys < 7" "8 - length ?xs - length ?ys = n" using 2(2) by simp_all
    with read_ipv6_short [of ?xs ?ys] s(1) ipv6_of_segments_id [of w]
    have "read_ipv6_addr (show_segments ?xs @ ''::'' @ show_segments ?ys) = Some (w, [])" by simp
    with 2 z no4 [of "''::'' @ show_segments ?ys" ?xs] show ?thesis by (simp add: show_ipv6_def group_end_def Let_def)
  next
    case 3
    with z no4 [of "[]" ?ss] read_ipv6_full [of ?ss] ipv6_of_segments_id [of w] show ?thesis
      by (simp add: show_ipv6_def group_end_def)
  qed
  with V6 show ?thesis by (simp add: parse_ip_def)
qed

section \<open>A list of networks\<close>

text \<open>The characters of a network: digits, the dot, the colon and the slash; none of them is trimmed.\<close>

definition cidr_char :: "char \<Rightarrow> bool" where
  "cidr_char c \<longleftrightarrow> (of_char c :: nat) \<in> {46..58} \<union> {97..102}"

abbreviation addr_char :: "char \<Rightarrow> bool" where
  "addr_char c \<equiv> cidr_char c \<and> c \<noteq> CHR ''/''"

lemma cidr_graphic: "cidr_char c \<Longrightarrow> graphic c"
  by (auto simp: cidr_char_def graphic_def Let_def)

lemma trim_cidr: "list_all cidr_char s \<Longrightarrow> trim s = s"
  by (rule trim_graphic) (cases s, auto simp: list_all_iff intro: cidr_graphic)

lemma digit_char_addr: "d < 16 \<Longrightarrow> addr_char (digit_char d)"
proof -
  assume "d < 16"
  then have "(of_char (digit_char d) :: nat) = (if d < 10 then 48 + d else 87 + d)" by (simp add: digit_char_def of_char_of)
  then show ?thesis using \<open>d < 16\<close> by (auto simp: cidr_char_def split: if_splits)
qed

lemma show_base_addr: "2 \<le> b \<Longrightarrow> b \<le> 16 \<Longrightarrow> list_all addr_char (show_base b n)"
  unfolding list_all_iff using show_base_set [of b n] digit_char_addr by (metis less_le_trans)

lemma show_nat_addr: "list_all addr_char (show_nat n)" "list_all addr_char (show_hex n)"
  by (simp_all add: show_nat_def show_hex_def show_base_addr)

lemma list_all_join: "list_all P sep \<Longrightarrow> list_all (list_all P) xs \<Longrightarrow> list_all P (join sep xs)"
  by (induction sep xs rule: join.induct) simp_all

lemma show_ip_addr: "list_all addr_char (show_ip a)"
proof -
  have sep: "list_all addr_char ''.''" "list_all addr_char '':''" "list_all addr_char ''::''" "list_all addr_char ''::ffff:''"
    by (simp_all add: cidr_char_def)
  have v4: "list_all addr_char (show_ipv4 w)" for w
    unfolding show_ipv4_def using sep(1) show_nat_addr(1) by (intro list_all_join) (simp_all add: list.pred_map list_all_iff)
  have seg: "list_all addr_char (show_segments ss)" for ss
    unfolding show_segments_def using sep(2) show_nat_addr(2) by (intro list_all_join) (simp_all add: list_all_iff)
  show ?thesis
  proof (cases a)
    case (V6 w)
    then show ?thesis using v4 seg sep by (simp add: show_ipv6_def Let_def case_prod_beta)
  qed (simp add: v4)
qed

lemma addr_chars: "list_all addr_char s \<Longrightarrow> list_all cidr_char s \<and> CHR ''/'' \<notin> set s"
  by (auto simp: list_all_iff)

definition show_cidr :: "ip_addr \<times> u32 \<Rightarrow> string" where
  "show_cidr c = show_ip (fst c) @ ''/'' @ show_nat (unat (snd c))"

lemma show_cidr_chars: "list_all cidr_char (show_cidr c)"
  using addr_chars [OF show_ip_addr [of "fst c"]] addr_chars [OF show_nat_addr(1) [of "unat (snd c)"]]
  by (simp add: show_cidr_def cidr_char_def del: show_ip.simps)

lemma parse_show_cidr: "parse_cidr (show_cidr (a, p)) = Some (a, p)"
proof -
  let ?a = "show_ip a" and ?n = "show_nat (unat p)"
  have t: "trim (show_cidr (a, p)) = show_cidr (a, p)" "trim ?a = ?a" "trim ?n = ?n"
    using show_cidr_chars addr_chars show_ip_addr show_nat_addr(1) by (blast intro: trim_cidr)+
  have "CHR ''/'' \<notin> set ?a" using addr_chars [OF show_ip_addr] by blast
  then have "split_once (CHR ''/'') (show_cidr (a, p)) = Some (?a, ?n)"
    by (simp add: split_once_Some show_cidr_def del: show_ip.simps)
  moreover have "unat p < 2 ^ 32" using unsigned_less [of p] by simp
  moreover have "show_cidr (a, p) \<noteq> []" by (simp add: show_cidr_def)
  ultimately show ?thesis
    unfolding parse_cidr_def t(1) by (simp add: t parse_show_ip parse_uint_show del: show_ip.simps)
qed

lemma pod_matcher_show: "pod_matcher_new (join '','' (map show_cidr cs)) = cs"
proof (cases "cs = []")
  case True
  have "parse_cidr [] = None" by code_simp
  with True show ?thesis by (simp add: pod_matcher_new_def map_filter_simps)
next
  case False
  have "CHR '','' \<notin> set (show_cidr c)" for c
    using show_cidr_chars [of c] by (auto simp: list_all_iff cidr_char_def)
  then have "split_on (CHR '','') (join '','' (map show_cidr cs)) = map show_cidr cs"
    using False by (intro split_on_join) (simp_all add: list_all_iff)
  then have "pod_matcher_new (join '','' (map show_cidr cs)) = List.map_filter parse_cidr (map show_cidr cs)"
    by (simp add: pod_matcher_new_def)
  also have "\<dots> = cs" by (induction cs) (auto simp: map_filter_simps parse_show_cidr)
  finally show ?thesis .
qed

section \<open>Properties\<close>

text \<open>C31: a list of networks written as text, IPv4 in dotted form and IPv6 in any of its forms (the longest run
  of zero groups left out, an IPv4 address mapped into it, or all groups), each with its prefix
  length, is read back as the same networks in the same order.\<close>

theorem cidr_list_roundtrip:
  "pod_matcher_new (join '','' (map (\<lambda>(a, p). show_ip a @ ''/'' @ show_nat (unat p)) cs)) = cs"
proof -
  have "show_cidr = (\<lambda>(a, p). show_ip a @ ''/'' @ show_nat (unat p))" by (auto simp: show_cidr_def)
  with pod_matcher_show [of cs] show ?thesis by simp
qed

end
