(* ===== verification/Flow_Isolation.thy ===== *)
theory Flow_Isolation
  imports Engine_Alerts
begin

text \<open>
  Flows do not interfere. The engine keeps all flows of a host in one table and updates shared counters
  on every packet; here it is shown to be a product of independent machines, one per flow, each of which
  sees only the packets of its flow and the times of the sweeps. Only the three host-wide alerts read
  what flows share.
\<close>

section \<open>Blocks that do not read the counters\<close>

text \<open>A block is blind when neither the flow nor the delta it computes depends on the counters.\<close>

definition same_view :: "step_state \<Rightarrow> step_state \<Rightarrow> bool" where
  "same_view s t \<longleftrightarrow> fst s = fst t \<and> snd (snd s) = snd (snd t)"

definition blind :: "(step_state \<Rightarrow> step_state) \<Rightarrow> bool" where
  "blind stp \<longleftrightarrow> (\<forall>s t. same_view s t \<longrightarrow> same_view (stp s) (stp t))"

lemma blindD: "blind stp \<Longrightarrow> same_view s t \<Longrightarrow> same_view (stp s) (stp t)"
  unfolding blind_def by blast

lemma blindI:
  assumes "\<And>f d g g'. same_view (stp (f, g, d)) (stp (f, g', d))"
  shows "blind stp"
  using assms by (auto simp: blind_def same_view_def)

lemma blocks_blind:
  "blind (syn_only_step p)" "blind (syn_ack_step p)" "blind (rst_step p)" "blind (establish_step p)"
  "blind (fin_step p)" "blind (zero_window_step p)" "blind (data_step p)" "blind (dup_ack_step p)"
  by (rule blindI; simp add: same_view_def step_defs Let_def clear_half_open_eq split: option.split prod.split)+

lemma other_step_blind: "blind (other_step p)"
  by (auto simp: blind_def other_step_def intro!: blocks_blind [THEN blindD])

lemma tcp_step_blind: "blind (tcp_step p)"
  by (auto simp: blind_def tcp_step_def Let_def intro!: blocks_blind [THEN blindD] other_step_blind [THEN blindD])

lemma tcp_result_view:
  assumes "map_of (flows es) (pkt_key p) = map_of (flows es') (pkt_key p)"
  shows "same_view (tcp_result es p) (tcp_result es' p)"
  using assms by (auto simp: tcp_result_def pre_flow_def start_delta_def same_view_def Let_def
      intro!: tcp_step_blind [THEN blindD, unfolded same_view_def, THEN conjunct1]
        tcp_step_blind [THEN blindD, unfolded same_view_def, THEN conjunct2])

section \<open>The machine of one flow\<close>

datatype flow_fact = Seen packet_meta | Swept u64

text \<open>An engine state whose table holds this flow only, and the detectors that look at one flow.\<close>

definition lone :: "detect_config \<Rightarrow> flow_key \<Rightarrow> flow_state option \<Rightarrow> engine_state" where
  "lone cfg k fo = (engine_state_new cfg)\<lparr>flows := (case fo of None \<Rightarrow> [] | Some f \<Rightarrow> [(k, f)])\<rparr>"

definition own_detectors :: "detector list" where
  "own_detectors = [RetransmissionDetector, OutOfOrderDetector, DupAckDetector, ZeroWindowDetector, HighRttDetector,
     HandshakeFailureDetector]"

definition packet_ctx :: "engine_state \<Rightarrow> packet_meta \<Rightarrow> detect_ctx" where
  "packet_ctx es p = \<lparr>ctx_state = next_state es p, ctx_key = pkt_key p, ctx_delta = delta_of es p, ctx_now = ts_nanos p\<rparr>"

fun flow_machine :: "detect_config \<Rightarrow> flow_key \<Rightarrow> flow_state option \<Rightarrow> flow_fact \<Rightarrow> flow_state option \<times> l4_event list" where
  "flow_machine cfg k fo (Seen p) =
     (map_of (flows (next_state (lone cfg k fo) p)) k,
      snd (run_chain inspect (packet_ctx (lone cfg k fo) p) p own_detectors))"
| "flow_machine cfg k fo (Swept t) = (case fo of
      None \<Rightarrow> (None, [])
    | Some f \<Rightarrow>
        (if idle t (flow_ttl_secs cfg * NS_PER_SEC) f then None
         else Some (flag_due t (handshake_timeout_secs cfg * NS_PER_SEC) f),
         if timeout_due t (handshake_timeout_secs cfg * NS_PER_SEC) f then [timeout_event t k f] else []))"

text \<open>What one flow sees of a run: its own packets, and the sweeps. Of the packets of other flows only the
  time matters, because it decides when the table is swept.\<close>

fun flow_history :: "flow_key \<Rightarrow> u64 \<Rightarrow> action list \<Rightarrow> flow_fact list" where
  "flow_history k swept [] = []"
| "flow_history k swept (Packet p # acts) =
     (let due = (saturating_sub (ts_nanos p) swept \<ge> NS_PER_SEC) in
      (if pkt_key p = k then [Seen p] else []) @ (if due then [Swept (ts_nanos p)] else []) @
      flow_history k (if due then ts_nanos p else swept) acts)"
| "flow_history k swept (Sweep t # acts) = Swept t # flow_history k swept acts"

section \<open>Alerts on one flow\<close>

lemma map_of_lone: "map_of (flows (lone cfg k fo)) k = fo" "es_cfg (lone cfg k fo) = cfg"
  by (simp_all add: lone_def engine_state_new_def split: option.split)

lemma next_state_lone:
  assumes "map_of (flows es) (pkt_key p) = fo"
  shows "map_of (flows (next_state es p)) (pkt_key p) = map_of (flows (next_state (lone cfg (pkt_key p) fo) p)) (pkt_key p)"
    and "delta_of es p = delta_of (lone cfg (pkt_key p) fo) p"
  using tcp_result_view [of es p "lone cfg (pkt_key p) fo"] assms
  by (simp_all add: map_of_next_state map_of_lone delta_of_eq same_view_def)

lemma own_rules:
  assumes "ctx_flow c = ctx_flow c'" "ctx_delta c = ctx_delta c'" "ctx_now c = ctx_now c'" "ctx_key c = ctx_key c'"
    "ctx_cfg c = ctx_cfg c'"
  shows "snd (run_chain inspect c p own_detectors) = snd (run_chain inspect c' p own_detectors)"
proof -
  have "inspect_retransmission c = inspect_retransmission c'" "inspect_out_of_order c = inspect_out_of_order c'"
    "inspect_dup_ack c = inspect_dup_ack c'" "inspect_zero_window c = inspect_zero_window c'"
    "inspect_high_rtt c = inspect_high_rtt c'" "inspect_handshake_failure c = inspect_handshake_failure c'"
    using assms by (simp_all only: inspect_defs)
  then show ?thesis by (simp add: own_detectors_def)
qed

text \<open>The chain of the engine is the detectors of one flow, then the three host-wide ones.\<close>

definition std_chain :: "detector list \<Rightarrow> bool" where
  "std_chain ds \<longleftrightarrow> (\<exists>a b c. ds = own_detectors @ [RstStormDetector a, SynBacklogDetector b, ChurnDetector c])"

lemma run_chain_append:
  "run_chain insp c p (xs @ ys) =
     (fst (run_chain insp c p xs) @ fst (run_chain insp c p ys), snd (run_chain insp c p xs) @ snd (run_chain insp c p ys))"
  by (induction xs) (simp_all add: case_prod_beta Let_def split: option.split)

lemma std_chain_run: "std_chain ds \<Longrightarrow> std_chain (fst (run_chain inspect c p ds))"
  by (auto simp: std_chain_def own_detectors_def case_prod_beta Let_def map_prod_def)

abbreviation own :: "flow_key \<Rightarrow> l4_event \<Rightarrow> bool" where
  "own k ev \<equiv> ev_key ev = k \<and> \<not> host_wide (ev_kind ev)"

lemma kind_own: "kind_str kd \<in> set (map detector_name own_detectors) \<Longrightarrow> \<not> host_wide kd"
  by (cases kd) (simp_all add: own_detectors_def host_wide_def)

lemma own_events: "ev \<in> set (snd (run_chain inspect c p own_detectors)) \<Longrightarrow> \<not> host_wide (ev_kind ev)"
proof (rule kind_own)
  assume "ev \<in> set (snd (run_chain inspect c p own_detectors))"
  then have "kind_str (ev_kind ev) \<in> set (map (\<lambda>e. kind_str (ev_kind e)) (snd (run_chain inspect c p own_detectors)))" by simp
  then show "kind_str (ev_kind ev) \<in> set (map detector_name own_detectors)"
    by (rule list_emb_set [OF dc.chain_kinds]) simp
qed

lemma shared_events:
  assumes "ev \<in> set (snd (run_chain inspect c p [RstStormDetector a, SynBacklogDetector b, ChurnDetector d]))"
  shows "host_wide (ev_kind ev)"
proof -
  from assms have "kind_str (ev_kind ev) \<in> set (map (\<lambda>e. kind_str (ev_kind e))
      (snd (run_chain inspect c p [RstStormDetector a, SynBacklogDetector b, ChurnDetector d])))" by simp
  then have "kind_str (ev_kind ev) \<in> set (map detector_name [RstStormDetector a, SynBacklogDetector b, ChurnDetector d])"
    by (rule list_emb_set [OF dc.chain_kinds]) simp
  then show ?thesis by (cases "ev_kind ev") (simp_all add: host_wide_def)
qed

lemma chain_own:
  assumes "std_chain ds"
  shows "filter (own k) (snd (run_chain inspect c p ds)) =
    (if ctx_key c = k then snd (run_chain inspect c p own_detectors) else [])"
proof -
  from assms obtain a b d where ds: "ds = own_detectors @ [RstStormDetector a, SynBacklogDetector b, ChurnDetector d]"
    by (auto simp: std_chain_def)
  have "filter (own k) (snd (run_chain inspect c p [RstStormDetector a, SynBacklogDetector b, ChurnDetector d])) = []"
    by (auto simp: filter_empty_conv dest: shared_events simp del: run_chain.simps)
  moreover have "filter (own k) (snd (run_chain inspect c p own_detectors)) =
      (if ctx_key c = k then snd (run_chain inspect c p own_detectors) else [])"
    by (auto simp: filter_empty_conv filter_id_conv dest: own_events dc.chain_stamp)
  ultimately show ?thesis by (simp add: ds run_chain_append del: run_chain.simps)
qed

section \<open>The engine as a product\<close>

text \<open>The relation between an engine and the machine of the flow \<open>k\<close>.\<close>

definition flow_view :: "detect_config \<Rightarrow> flow_key \<Rightarrow> engine \<Rightarrow> flow_state option \<Rightarrow> u64 \<Rightarrow> bool" where
  "flow_view cfg k e fo swept \<longleftrightarrow> map_of (table e) k = fo \<and> last_sweep_ns e = swept \<and> es_cfg (eng_state e) = cfg \<and>
     sweep_interval_ns e = NS_PER_SEC \<and> keys_distinct (table e) \<and> std_chain (eng_detectors e)"

lemma flow_view_new: "flow_view cfg k (engine_new cfg) None 0"
  by (simp add: flow_view_def engine_new_def engine_state_new_def std_chain_def own_detectors_def default_detectors_def Let_def)

lemma ctx_own:
  assumes "flow_view cfg k e fo swept" "pkt_key p = k"
  shows "snd (run_chain inspect (ctx_of e p) p own_detectors) =
    snd (run_chain inspect (packet_ctx (lone cfg k fo) p) p own_detectors)"
proof (rule own_rules)
  have fo: "map_of (table e) (pkt_key p) = fo" "es_cfg (eng_state e) = cfg" using assms by (auto simp: flow_view_def)
  from next_state_lone [OF fo(1)] assms(2)
  show "ctx_flow (ctx_of e p) = ctx_flow (packet_ctx (lone cfg k fo) p)"
    "ctx_delta (ctx_of e p) = ctx_delta (packet_ctx (lone cfg k fo) p)"
    by (simp_all add: ctx_of_def packet_ctx_def ctx_flow_def)
  show "ctx_cfg (ctx_of e p) = ctx_cfg (packet_ctx (lone cfg k fo) p)"
    using fo(2) by (simp add: ctx_of_def packet_ctx_def ctx_cfg_def map_of_lone)
qed (simp_all add: ctx_of_def packet_ctx_def)

text \<open>The ingestion of a packet: a step of its own machine, and none of the others.\<close>

lemma mid_view:
  assumes v: "flow_view cfg k e fo swept"
    and fo': "fo' = (if pkt_key p = k then fst (flow_machine cfg k fo (Seen p)) else fo)"
  shows "flow_view cfg k (mid e p) fo' (if sweep_due e p then ts_nanos p else swept)"
    and "filter (own k) (snd (chain_run e p)) = (if pkt_key p = k then snd (flow_machine cfg k fo (Seen p)) else [])"
proof -
  have fo: "map_of (table e) k = fo" and std: "std_chain (eng_detectors e)" using v by (simp_all add: flow_view_def)
  have "map_of (flows (next_state (eng_state e) p)) k = fo'"
    using next_state_lone(1) [of "eng_state e" p fo cfg] fo by (auto simp: fo' map_of_next_state)
  with v std_chain_run [OF std] show "flow_view cfg k (mid e p) fo' (if sweep_due e p then ts_nanos p else swept)"
    by (simp add: flow_view_def chain_run_def) (simp add: mid_def)
  show "filter (own k) (snd (chain_run e p)) = (if pkt_key p = k then snd (flow_machine cfg k fo (Seen p)) else [])"
    using ctx_own [OF v] chain_own [OF std, of k "ctx_of e p" p] by (auto simp: chain_run_def ctx_of_def)
qed

text \<open>A sweep: a step of every machine.\<close>

lemma sweep_own:
  assumes "keys_distinct (table e)"
  shows "filter (own k) (snd (sweep e t)) = timeouts_for k (snd (sweep e t))"
  by (auto simp: sweep_events [OF assms] timeouts_for_def timeout_event_def l4_event_new_def host_wide_def intro!: filter_cong)

lemma sweep_view:
  assumes v: "flow_view cfg k e fo swept"
  shows "flow_view cfg k (fst (sweep e t)) (fst (flow_machine cfg k fo (Swept t))) swept"
    and "filter (own k) (snd (sweep e t)) = snd (flow_machine cfg k fo (Swept t))"
proof -
  have kd: "keys_distinct (table e)" and fo: "map_of (table e) k = fo"
    and c: "hto_ns (eng_state e) = handshake_timeout_secs cfg * NS_PER_SEC" "ttl_ns (eng_state e) = flow_ttl_secs cfg * NS_PER_SEC"
    using v by (simp_all add: flow_view_def hto_ns_def ttl_ns_def)
  show "filter (own k) (snd (sweep e t)) = snd (flow_machine cfg k fo (Swept t))"
    by (simp add: sweep_own [OF kd] timeouts_for_sweep [OF kd] fo c split: option.split)
  show "flow_view cfg k (fst (sweep e t)) (fst (flow_machine cfg k fo (Swept t))) swept"
    using v map_of_sweep [OF kd, of t k] sweep_keys [OF kd, of t] by (auto simp: flow_view_def c split: option.split)
qed

lemma flow_view_run:
  "flow_view cfg k e fo swept \<Longrightarrow>
   map_of (table (fst (engine_run e acts))) k = fst (run_machine (flow_machine cfg k) fo (flow_history k swept acts)) \<and>
   filter (own k) (snd (engine_run e acts)) = snd (run_machine (flow_machine cfg k) fo (flow_history k swept acts))"
proof (induction acts arbitrary: e fo swept)
  case Nil
  then show ?case by (simp add: flow_view_def)
next
  case (Cons a acts)
  show ?case
  proof (cases a)
    case (Sweep t)
    from sweep_view [OF Cons.prems, of t] Cons.IH [OF sweep_view(1) [OF Cons.prems, of t]] show ?thesis
      by (simp add: Sweep case_prod_beta Let_def del: flow_machine.simps)
  next
    case (Packet p)
    let ?due = "sweep_due e p"
    define fo1 where "fo1 = (if pkt_key p = k then fst (flow_machine cfg k fo (Seen p)) else fo)"
    define sw where "sw = (if ?due then ts_nanos p else swept)"
    note m = mid_view [OF Cons.prems fo1_def, folded sw_def]
    have due: "?due \<longleftrightarrow> saturating_sub (ts_nanos p) swept \<ge> NS_PER_SEC"
      using Cons.prems by (simp add: sweep_due_def flow_view_def)
    have h: "run_machine (flow_machine cfg k) fo (flow_history k swept (Packet p # acts)) =
        (let (s, o1) = run_machine (flow_machine cfg k) fo1 ((if ?due then [Swept (ts_nanos p)] else []) @ flow_history k sw acts)
         in (s, (if pkt_key p = k then snd (flow_machine cfg k fo (Seen p)) else []) @ o1))"
      by (simp add: due [symmetric] fo1_def sw_def case_prod_beta Let_def del: flow_machine.simps)
    show ?thesis
    proof (cases ?due)
      case True
      note s = sweep_view [OF m(1), of "ts_nanos p"]
      from Cons.IH [OF s(1)] s m(2) True show ?thesis
        unfolding Packet h by (simp add: process_eq case_prod_beta Let_def del: flow_machine.simps)
    next
      case False
      from Cons.IH [OF m(1)] m(2) False show ?thesis
        unfolding Packet h by (simp add: process_eq case_prod_beta Let_def del: flow_machine.simps)
    qed
  qed
qed

section \<open>Properties\<close>

text \<open>C16: flows do not interfere. Whatever packets of whatever flows the engine has seen, and whenever it swept
  the table, what it holds of a flow, and every event it has ever reported about that flow other than the
  three host-wide alerts, is what a machine computes that is given only the packets of this flow and
  the times of the sweeps; the packets of other flows count only through their timestamps.\<close>

theorem engine_is_product_of_flows:
  "map_of (table (fst (engine_run (engine_new cfg) acts))) k =
     fst (run_machine (flow_machine cfg k) None (flow_history k 0 acts)) \<and>
   filter (\<lambda>ev. ev_key ev = k \<and> ev_kind ev \<notin> {RstStorm, SynBacklog, ConnectionChurn}) (snd (engine_run (engine_new cfg) acts)) =
     snd (run_machine (flow_machine cfg k) None (flow_history k 0 acts))"
  using flow_view_run [OF flow_view_new [of cfg k], of acts] by (simp add: host_wide_def)

end
