(* ===== verification/Demo_Script.thy ===== *)
theory Demo_Script
  imports Flow_Isolation Capture_Laws
begin

text \<open>
  The demonstration: the traffic that \<^verbatim>\<open>synthetic.rs\<close> scripts, sent through the engine with the default
  thresholds. The script is split into its scenes, the flow of each scene is followed on its own by
  \<open>Flow_Isolation\<close>, and the host-wide alerts are decided by the rules of \<open>Engine_Alerts\<close>. Eight of the ten kinds
  of events are reported; out-of-order segments and connection churn are not.
\<close>

section \<open>The script\<close>

text \<open>The times of the script, in milliseconds from its start.\<close>

definition tick :: "nat \<Rightarrow> u64" where
  "tick n = 1700000000000000000 + of_nat (1000000 * n)"

lemma unat_tick: "n < 10 ^ 6 \<Longrightarrow> unat (tick n) = 1700000000000000000 + 1000000 * n"
proof -
  assume "n < 10 ^ 6"
  then have "tick n = of_nat (1700000000000000000 + 1000000 * n)" "1700000000000000000 + 1000000 * n < 2 ^ 64"
    by (simp_all add: tick_def)
  then show ?thesis by (simp only: unsigned_of_nat take_bit_nat_eq_self) (simp add: take_bit_nat_eq_self)
qed

abbreviation server :: ip_addr where "server \<equiv> v4 10 0 0 9"
abbreviation client :: ip_addr where "client \<equiv> v4 10 0 0 5"

definition slow_part :: "packet_meta list" where
  "slow_part =
     [pkt (tick 0) client 40001 server 443 Tcp SYN 1000 0 64240 0,
      pkt (tick 300) server 443 client 40001 Tcp (SYN OR ACK) 5000 1001 65160 0,
      pkt (tick 305) client 40001 server 443 Tcp ACK 1001 5001 64240 0]"

definition loss_part :: "packet_meta list" where
  "loss_part =
     [pkt (tick 400) client 40002 server 80 Tcp SYN 2000 0 64240 0,
      pkt (tick 401) server 80 client 40002 Tcp (SYN OR ACK) 9000 2001 65160 0,
      pkt (tick 402) client 40002 server 80 Tcp ACK 2001 9001 64240 0] @
     map (\<lambda>n. pkt (tick n) client 40002 server 80 Tcp (ACK OR PSH) 2001 9001 64240 200) [410, 610, 810, 1010] @
     map (\<lambda>n. pkt (tick n) server 80 client 40002 Tcp ACK 9001 2201 65160 0) [1300, 1305, 1310, 1315]"

definition stall_part :: "packet_meta list" where
  "stall_part =
     [pkt (tick 2000) client 40003 server 5432 Tcp SYN 3000 0 64240 0,
      pkt (tick 2001) server 5432 client 40003 Tcp (SYN OR ACK) 7000 3001 65160 0,
      pkt (tick 2002) client 40003 server 5432 Tcp ACK 3001 7001 64240 0,
      pkt (tick 2050) client 40003 server 5432 Tcp ACK 3001 7001 0 0]"

definition refused :: "nat \<Rightarrow> packet_meta list" where
  "refused i =
     [pkt (tick (3000 + 10 * i)) (v4 10 0 1 (of_nat (i mod 250) + 1)) (50000 + of_nat i) server 8080 Tcp SYN (4000 + of_nat i) 0 64240 0,
      pkt (tick (3001 + 10 * i)) server 8080 (v4 10 0 1 (of_nat (i mod 250) + 1)) (50000 + of_nat i) Tcp (RST OR ACK) 0 (4001 + of_nat i) 0 0]"

definition half :: "nat \<Rightarrow> packet_meta" where
  "half i = pkt (tick (5000 + i)) (v4 10 0 2 (of_nat (i mod 250) + 1)) (60000 + of_nat i) server 3306 Tcp SYN (6000 + of_nat i) 0 64240 0"

definition late :: packet_meta where
  "late = pkt (tick 15000) client 40009 server 22 Tcp SYN 7000 0 64240 0"

lemma build_script_parts:
  "build_script = slow_part @ loss_part @ stall_part @ concat (map refused [0..<40]) @ map half [0..<80] @ [late]"
proof -
  have s: "1700000000 * SEC + 3 * SEC + of_nat i * 10 * MS = tick (3000 + 10 * i)"
    "tick (3000 + 10 * i) + MS = tick (3001 + 10 * i)"
    "1700000000 * SEC + 5 * SEC + of_nat i * MS = tick (5000 + i)" for i
    by (simp_all add: tick_def SEC_def MS_def algebra_simps)
  have u: "[0..<4] = [0, 1, 2, 3]" by (simp add: upt_rec)
  show ?thesis
    unfolding build_script_def Let_def s refused_def [symmetric] half_def [symmetric] u
    by (simp add: slow_part_def loss_part_def stall_part_def late_def)
      (simp add: tick_def SEC_def MS_def)
qed

section \<open>Flows of the client\<close>

definition near :: "u16 \<Rightarrow> u16 \<Rightarrow> flow_key" where
  "near cp sp = \<lparr>low = \<lparr>ep_ip = client, ep_port = cp\<rparr>, high = \<lparr>ep_ip = server, ep_port = sp\<rparr>, key_proto = Tcp\<rparr>"

lemma near_pkt:
  "pkt t client cp server sp Tcp fl sq ak w n = \<lparr>ts_nanos = t, pkt_key = near cp sp, pkt_dir = Forward, pkt_proto = Tcp,
     pkt_flags = TcpFlags fl, pkt_seq = sq, pkt_ack = ak, pkt_window = w, payload_len = n, pkt_ttl = 64, pkt_iface = 0\<rparr>"
  "pkt t server sp client cp Tcp fl sq ak w n = \<lparr>ts_nanos = t, pkt_key = near cp sp, pkt_dir = Reverse, pkt_proto = Tcp,
     pkt_flags = TcpFlags fl, pkt_seq = sq, pkt_ack = ak, pkt_window = w, payload_len = n, pkt_ttl = 64, pkt_iface = 0\<rparr>"
proof -
  have ips: "client = V4 0x0A000005" "server = V4 0x0A000009" by (simp_all add: v4_def ipv4_new_def)
  have "client < server" "\<not> server < client" "server \<noteq> client" unfolding ips by (simp_all add: less_ip_addr_def)
  then show "pkt t client cp server sp Tcp fl sq ak w n = \<lparr>ts_nanos = t, pkt_key = near cp sp, pkt_dir = Forward, pkt_proto = Tcp,
     pkt_flags = TcpFlags fl, pkt_seq = sq, pkt_ack = ak, pkt_window = w, payload_len = n, pkt_ttl = 64, pkt_iface = 0\<rparr>"
    "pkt t server sp client cp Tcp fl sq ak w n = \<lparr>ts_nanos = t, pkt_key = near cp sp, pkt_dir = Reverse, pkt_proto = Tcp,
     pkt_flags = TcpFlags fl, pkt_seq = sq, pkt_ack = ak, pkt_window = w, payload_len = n, pkt_ttl = 64, pkt_iface = 0\<rparr>"
    by (simp_all add: pkt_def canonical_def near_def less_eq_endpoint_ext_def Let_def)
qed

text \<open>What a packet makes of its flow: the flow and what the detectors see of it.\<close>

definition observe :: "flow_state option \<Rightarrow> packet_meta \<Rightarrow> flow_state \<times> packet_delta" where
  "observe fo p = (fst (tcp_result (lone default_detect (pkt_key p) fo) p), delta_of (lone default_detect (pkt_key p) fo) p)"

lemmas observe_eval = observe_def delta_of_eq tcp_result_def tcp_step_def other_step_def step_defs pre_flow_def map_of_lone
  flow_state_new_def start_delta_def packet_delta_default_def clear_half_open_eq guess_service_def endpoints_def
  flag_defs seq_diff_def


section \<open>What one packet reports\<close>

lemma flow_machine_seen:
  assumes "pkt_key p = k"
  shows "fst (flow_machine default_detect k fo (Seen p)) = Some (fst (observe fo p))"
  using assms by (simp add: map_of_next_state observe_def)

lemma packet_ctx_observe:
  "ctx_delta (packet_ctx (lone default_detect (pkt_key p) fo) p) = snd (observe fo p)"
  "ctx_flow (packet_ctx (lone default_detect (pkt_key p) fo) p) = Some (fst (observe fo p))"
  "ctx_cfg (packet_ctx (lone default_detect (pkt_key p) fo) p) = default_detect"
  by (simp_all add: packet_ctx_def ctx_flow_def ctx_cfg_def observe_def map_of_next_state map_of_lone)

abbreviation kinds :: "l4_event list \<Rightarrow> event_kind set" where
  "kinds evs \<equiv> ev_kind ` set evs"

lemma chain_kinds_iff:
  "kd \<in> kinds (snd (run_chain insp c p ds)) \<longleftrightarrow> (\<exists>d\<in>set ds. \<exists>e. snd (insp d c p) = Some e \<and> ev_kind e = kd)"
  by (induction ds) (auto simp: case_prod_beta Let_def split: option.splits)

lemma event_kind_new [simp]: "ev_kind (l4_event_new t kd s k v m) = kd"
  by (simp add: l4_event_new_def)

definition fires :: "packet_delta \<Rightarrow> flow_state \<Rightarrow> event_kind \<Rightarrow> bool" where
  "fires d f kd = (case kd of
      Retransmission \<Rightarrow> is_retransmit d \<and> \<not> f64_lt (retransmit_ratio f) (f64_of_rat 0.05)
    | OutOfOrder \<Rightarrow> is_out_of_order d
    | DuplicateAck \<Rightarrow> is_dup_ack d \<and> dup_ack_count d = 3
    | ZeroWindow \<Rightarrow> zero_window_edge d
    | HighRtt \<Rightarrow> (case rtt_sample_ns d of None \<Rightarrow> False
        | Some rtt \<Rightarrow> 250000000 \<le> rtt)
    | HandshakeFailure \<Rightarrow> handshake_refused d
    | _ \<Rightarrow> False)"

lemma own_rule_kinds:
  fixes c :: detect_ctx
  assumes "ctx_delta c = d" "ctx_flow c = Some f" "ctx_cfg c = default_detect"
  shows "(\<exists>e. inspect_retransmission c = Some e \<and> ev_kind e = kd) \<longleftrightarrow> kd = Retransmission \<and> fires d f kd"
    "(\<exists>e. inspect_out_of_order c = Some e \<and> ev_kind e = kd) \<longleftrightarrow> kd = OutOfOrder \<and> fires d f kd"
    "(\<exists>e. inspect_dup_ack c = Some e \<and> ev_kind e = kd) \<longleftrightarrow> kd = DuplicateAck \<and> fires d f kd"
    "(\<exists>e. inspect_zero_window c = Some e \<and> ev_kind e = kd) \<longleftrightarrow> kd = ZeroWindow \<and> fires d f kd"
    "(\<exists>e. inspect_high_rtt c = Some e \<and> ev_kind e = kd) \<longleftrightarrow> kd = HighRtt \<and> fires d f kd"
    "(\<exists>e. inspect_handshake_failure c = Some e \<and> ev_kind e = kd) \<longleftrightarrow> kd = HandshakeFailure \<and> fires d f kd"
proof -
  have rtt: "f64_lt (f64_mul (ns_to_secs_f64 n) (f64_of_rat 1000)) (f64_of_rat 250) \<longleftrightarrow> n < 250000000" for n
    using rtt_ms_250 [of n] by (simp add: rtt_ms_def f64_of_rat_numeral)
  show "(\<exists>e. inspect_retransmission c = Some e \<and> ev_kind e = kd) \<longleftrightarrow> kd = Retransmission \<and> fires d f kd"
    by (auto simp: inspect_retransmission_def assms Let_def fires_def default_detect_def)
  show "(\<exists>e. inspect_out_of_order c = Some e \<and> ev_kind e = kd) \<longleftrightarrow> kd = OutOfOrder \<and> fires d f kd"
    by (auto simp: inspect_out_of_order_def assms fires_def)
  show "(\<exists>e. inspect_dup_ack c = Some e \<and> ev_kind e = kd) \<longleftrightarrow> kd = DuplicateAck \<and> fires d f kd"
    by (auto simp: inspect_dup_ack_def assms Let_def fires_def default_detect_def)
  show "(\<exists>e. inspect_zero_window c = Some e \<and> ev_kind e = kd) \<longleftrightarrow> kd = ZeroWindow \<and> fires d f kd"
    by (auto simp: inspect_zero_window_def assms fires_def)
  show "(\<exists>e. inspect_high_rtt c = Some e \<and> ev_kind e = kd) \<longleftrightarrow> kd = HighRtt \<and> fires d f kd"
    by (cases "rtt_sample_ns d") (auto simp: inspect_high_rtt_def assms Let_def fires_def default_detect_def rtt not_less)
  show "(\<exists>e. inspect_handshake_failure c = Some e \<and> ev_kind e = kd) \<longleftrightarrow> kd = HandshakeFailure \<and> fires d f kd"
    by (auto simp: inspect_handshake_failure_def assms fires_def)
qed

lemma seen_kinds:
  assumes "pkt_key p = k" "observe fo p = (f, d)"
  shows "kd \<in> kinds (snd (flow_machine default_detect k fo (Seen p))) \<longleftrightarrow> fires d f kd"
proof -
  note r = packet_ctx_observe [of p fo, unfolded assms(1,2) fst_conv snd_conv]
  have "fires d f kd \<Longrightarrow> kd \<in> {Retransmission, OutOfOrder, DuplicateAck, ZeroWindow, HighRtt, HandshakeFailure}"
    by (cases kd) (simp_all add: fires_def)
  with own_rule_kinds [OF r, of kd] show ?thesis
    by (auto simp: chain_kinds_iff own_detectors_def simp del: run_chain.simps)
qed

section \<open>What a flow reports\<close>

text \<open>The kinds of events of the machine of one flow, with the default thresholds.\<close>

fun watch :: "flow_state option \<Rightarrow> flow_fact list \<Rightarrow> event_kind \<Rightarrow> bool" where
  "watch fo [] kd = False"
| "watch fo (Seen p # hs) kd = (let (f, d) = observe fo p in fires d f kd \<or> watch (Some f) hs kd)"
| "watch None (Swept t # hs) kd = watch None hs kd"
| "watch (Some f) (Swept t # hs) kd =
     (timeout_due t 3000000000 f \<and> kd = HandshakeTimeout \<or>
      watch (if idle t 120000000000 f then None else Some (flag_due t 3000000000 f)) hs kd)"

lemma default_ns:
  "flow_ttl_secs default_detect * NS_PER_SEC = 120000000000" "handshake_timeout_secs default_detect * NS_PER_SEC = 3000000000"
  by (simp_all add: default_detect_def NS_PER_SEC_def)

definition all_of :: "flow_key \<Rightarrow> flow_fact list \<Rightarrow> bool" where
  "all_of k hs \<longleftrightarrow> (\<forall>p. Seen p \<in> set hs \<longrightarrow> pkt_key p = k)"

lemma watch_iff:
  "all_of k hs \<Longrightarrow> kd \<in> kinds (snd (run_machine (flow_machine default_detect k) fo hs)) \<longleftrightarrow> watch fo hs kd"
proof (induction fo hs kd rule: watch.induct)
  case (2 fo p hs kd)
  obtain f d where o: "observe fo p = (f, d)" by (cases "observe fo p")
  from 2(2) have k: "pkt_key p = k" and hs: "all_of k hs"
    unfolding all_of_def by (meson list.set_intros)+
  note IH = 2(1) [OF o [symmetric] refl hs]
  have "fst (flow_machine default_detect k fo (Seen p)) = Some f" using flow_machine_seen [OF k] o by simp
  then have "kd \<in> kinds (snd (run_machine (flow_machine default_detect k) fo (Seen p # hs))) \<longleftrightarrow>
      kd \<in> kinds (snd (flow_machine default_detect k fo (Seen p))) \<or>
      kd \<in> kinds (snd (run_machine (flow_machine default_detect k) (Some f) hs))"
    by (simp add: case_prod_beta Let_def image_Un del: flow_machine.simps)
  then show ?case unfolding IH seen_kinds [OF k o] by (simp add: o)
next
  case (4 f t hs kd)
  let ?fo = "if idle t 120000000000 f then None else Some (flag_due t 3000000000 f)"
  from 4 have IH: "kd \<in> kinds (snd (run_machine (flow_machine default_detect k) ?fo hs)) \<longleftrightarrow> watch ?fo hs kd"
    by (simp add: all_of_def)
  have "flow_machine default_detect k (Some f) (Swept t) =
      (?fo, if timeout_due t 3000000000 f then [timeout_event t k f] else [])" by (simp only: flow_machine.simps default_ns option.case)
  moreover have "ev_kind (timeout_event t k f) = HandshakeTimeout" by (simp add: timeout_event_def)
  ultimately show ?case using IH by (auto simp: case_prod_beta Let_def image_Un simp del: flow_machine.simps)
qed (auto simp: all_of_def)

lemma all_of_append [simp]: "all_of k (xs @ ys) \<longleftrightarrow> all_of k xs \<and> all_of k ys"
  by (auto simp: all_of_def)

lemma all_of_history: "all_of k (flow_history k s acts)"
  by (induction k s acts rule: flow_history.induct) (auto simp: all_of_def Let_def)

text \<open>Every kind that the machine of a flow reports on a part of a run is reported by the engine, and an event
  about one flow is reported by its machine.\<close>

lemma run_kinds_append: "kinds (snd (engine_run e acts)) \<subseteq> kinds (snd (engine_run e (acts @ rest)))"
  by (auto simp: run_machine_append case_prod_beta Let_def)

lemma watch_reported:
  assumes "watch None (flow_history k 0 acts) kd"
  shows "kd \<in> kinds (snd (engine_run (engine_new default_detect) (acts @ rest)))"
proof -
  have "kd \<in> kinds (filter (own k) (snd (engine_run (engine_new default_detect) acts)))"
    using assms flow_view_run [OF flow_view_new [of default_detect k], of acts] watch_iff [OF all_of_history] by simp
  then show ?thesis using run_kinds_append [of _ acts rest] by auto
qed

lemma reported_watch:
  assumes "kd \<in> kinds (snd (engine_run (engine_new default_detect) acts))" "\<not> host_wide kd"
  obtains k where "watch None (flow_history k 0 acts) kd"
proof -
  from assms(1) obtain ev where ev: "ev \<in> set (snd (engine_run (engine_new default_detect) acts))" "ev_kind ev = kd" by auto
  then have "kd \<in> kinds (filter (own (ev_key ev)) (snd (engine_run (engine_new default_detect) acts)))" using assms(2) by auto
  with flow_view_run [OF flow_view_new [of default_detect "ev_key ev"], of acts] watch_iff [OF all_of_history] that
  show thesis by simp
qed

text \<open>Packets of other flows.\<close>

fun swept_after :: "u64 \<Rightarrow> packet_meta list \<Rightarrow> u64" where
  "swept_after s [] = s"
| "swept_after s (p # ps) = swept_after (if saturating_sub (ts_nanos p) s \<ge> NS_PER_SEC then ts_nanos p else s) ps"

lemma history_append:
  "flow_history k s (map Packet ps @ acts) = flow_history k s (map Packet ps) @ flow_history k (swept_after s ps) acts"
  by (induction ps arbitrary: s) (simp_all add: Let_def)

lemma history_others:
  "k \<notin> pkt_key ` set ps \<Longrightarrow> set (flow_history k s (map Packet ps)) \<subseteq> Swept ` ts_nanos ` set ps"
proof (induction ps arbitrary: s)
  case (Cons p ps)
  from Cons.IH [of "if saturating_sub (ts_nanos p) s \<ge> NS_PER_SEC then ts_nanos p else s"] Cons.prems
  show ?case by (auto simp: Let_def split: if_splits)
qed simp

lemma watch_swept:
  assumes "set hs \<subseteq> range Swept"
  shows "watch None (hs @ hs') kd \<longleftrightarrow> watch None hs' kd" "kd \<noteq> HandshakeTimeout \<Longrightarrow> \<not> watch fo hs kd"
proof -
  show "watch None (hs @ hs') kd \<longleftrightarrow> watch None hs' kd" using assms by (induction hs) auto
  show "kd \<noteq> HandshakeTimeout \<Longrightarrow> \<not> watch fo hs kd" using assms
  proof (induction hs arbitrary: fo)
    case (Cons h hs)
    then show ?case by (cases fo) auto
  qed simp
qed

lemma watch_skip:
  assumes "k \<notin> pkt_key ` set ps"
  shows "watch None (flow_history k s (map Packet ps @ acts)) kd \<longleftrightarrow> watch None (flow_history k (swept_after s ps) acts) kd"
  unfolding history_append using history_others [OF assms, of s] by (intro watch_swept(1)) auto

section \<open>The flows of the client\<close>

lemma tick_due: 
  assumes "m \<le> n" "n < 10 ^ 6"
  shows "NS_PER_SEC \<le> saturating_sub (tick n) (tick m) \<longleftrightarrow> 1000 \<le> n - m"
    "c * 1000000 < 2 ^ 64 \<Longrightarrow> of_nat (c * 1000000) < saturating_sub (tick n) (tick m) \<longleftrightarrow> c < n - m"
proof -
  have u: "unat (saturating_sub (tick n) (tick m)) = 1000000 * (n - m)"
    using assms unat_tick [of n] unat_tick [of m] by (simp add: sat_simps)
  have "unat NS_PER_SEC = 1000000000" by (simp only: NS_PER_SEC_def unat_numeral) simp
  with u show "NS_PER_SEC \<le> saturating_sub (tick n) (tick m) \<longleftrightarrow> 1000 \<le> n - m"
    unfolding word_le_nat_alt by (simp only:) linarith
  assume "c * 1000000 < 2 ^ 64"
  then have "unat (of_nat (c * 1000000) :: u64) = c * 1000000" by (simp only: unsigned_of_nat take_bit_nat_eq_self) (simp add: take_bit_nat_eq_self)
  with u show "of_nat (c * 1000000) < saturating_sub (tick n) (tick m) \<longleftrightarrow> c < n - m"
    unfolding word_less_nat_alt by (simp only:) linarith
qed

lemma tick_first: "n < 10 ^ 6 \<Longrightarrow> NS_PER_SEC \<le> tick n"
  using unat_tick [of n] by (simp add: word_le_nat_alt NS_PER_SEC_def)

lemma timeout_due_tick:
  assumes "m \<le> n" "n < 10 ^ 6" "syn_time_ns f = Some (tick m)"
  shows "timeout_due (tick n) 3000000000 f \<longleftrightarrow> fs_state f = SynSent \<and> \<not> handshake_timeout_flagged f \<and> 3000 < n - m"
  using tick_due(2) [OF assms(1,2), of 3000] assms(3) by (simp add: timeout_due_def)

lemma idle_tick:
  assumes "m \<le> n" "n < 10 ^ 6" "last_seen_ns f = tick m"
  shows "idle (tick n) 120000000000 f \<longleftrightarrow> 120000 < n - m"
  using tick_due(2) [OF assms(1,2), of 120000] assms(3) by (simp add: idle_def)

lemma unat_rtt: "m \<le> n \<Longrightarrow> n < 10 ^ 6 \<Longrightarrow> unat (saturating_sub (tick n) (tick m)) = 1000000 * (n - m)"
  using unat_tick [of n] unat_tick [of m] by (simp add: sat_simps)

lemmas watch_eval = near_pkt tick_due tick_first observe_eval Let_def timeout_due_tick idle_tick flag_due_def fires_def

lemma slow_flow: "watch None (flow_history (near 40001 443) 0 (map Packet (take 2 slow_part))) HighRtt"
  by (simp add: slow_part_def near_pkt tick_due tick_first)
    (simp add: watch_eval word_le_nat_alt unat_rtt)

lemma near_eq [simp]: "near a b = near c d \<longleftrightarrow> a = c \<and> b = d"
  by (auto simp: near_def)

lemma swept_slow: "swept_after 0 slow_part = tick 0"
  by (simp add: slow_part_def near_pkt tick_due tick_first)

lemma others_slow: "near 40002 80 \<notin> pkt_key ` set slow_part"
  by (simp add: slow_part_def near_pkt)

lemma loss_history: "flow_history (near 40002 80) (tick 0) (map Packet loss_part) = map Seen (take 7 loss_part) @ [Swept (tick 1010)] @ map Seen (drop 7 loss_part)"
  by (simp add: loss_part_def near_pkt tick_due)


text \<open>The lossy flow after its handshake: the data expected from the client, the last acknowledgement of the
  server and its repetitions, and the counters of segments.\<close>

definition loss_state :: "u64 \<Rightarrow> u32 \<Rightarrow> u32 option \<Rightarrow> u32 \<Rightarrow> u64 \<Rightarrow> u64 \<Rightarrow> flow_state" where
  "loss_state t expect reply dups rx segs = \<lparr>fs_proto = Tcp, fs_state = Established, first_seen_ns = tick 400,
     last_seen_ns = t, syn_time_ns = Some (tick 400), synack_time_ns = Some (tick 401),
     rtt_ns = Some (saturating_sub (tick 401) (tick 400)), fs_established = True, handshake_timeout_flagged = False,
     half_open_counted = False, fs_service = high (near 40002 80), next_seq = [Some expect, Some 9001],
     last_ack = [Some 9001, reply], fs_dup_ack_count = [0, dups], zero_window = [False, False],
     retransmits = rx, data_segments = segs\<rparr>"

lemma fires_none:
  assumes "\<not> is_retransmit d" "\<not> is_out_of_order d" "\<not> is_dup_ack d" "\<not> zero_window_edge d" "\<not> handshake_refused d"
    "\<And>rtt. rtt_sample_ns d = Some rtt \<Longrightarrow> rtt < 250000000"
  shows "\<not> fires d f kd"
  using assms by (cases kd) (auto simp: fires_def not_le [symmetric] split: option.split)

lemma watch_seen: "observe fo p = (f, d) \<Longrightarrow> watch fo (Seen p # hs) kd \<longleftrightarrow> fires d f kd \<or> watch (Some f) hs kd"
  by simp

lemma loss_steps:
  "watch (Some (loss_state t 2001 None 0 0 0)) (Seen (pkt t' client 40002 server 80 Tcp (ACK OR PSH) 2001 9001 64240 200) # hs) kd \<longleftrightarrow>
     watch (Some (loss_state t' 2201 None 0 0 1)) hs kd"
  "watch (Some (loss_state t 2201 None 0 rx segs)) (Seen (pkt t' client 40002 server 80 Tcp (ACK OR PSH) 2001 9001 64240 200) # hs) kd \<longleftrightarrow>
     kd = Retransmission \<and> \<not> f64_lt (retransmit_ratio (loss_state t' 2201 None 0 (rx + 1) (segs + 1))) (f64_of_rat 0.05) \<or>
     watch (Some (loss_state t' 2201 None 0 (rx + 1) (segs + 1))) hs kd"
  "watch (Some (loss_state t 2201 None 0 rx segs)) (Seen (pkt t' server 80 client 40002 Tcp ACK 9001 2201 65160 0) # hs) kd \<longleftrightarrow>
     watch (Some (loss_state t' 2201 (Some 2201) 0 rx segs)) hs kd"
  "watch (Some (loss_state t 2201 (Some 2201) c rx segs)) (Seen (pkt t' server 80 client 40002 Tcp ACK 9001 2201 65160 0) # hs) kd \<longleftrightarrow>
     kd = DuplicateAck \<and> c + 1 = 3 \<or> watch (Some (loss_state t' 2201 (Some 2201) (c + 1) rx segs)) hs kd"
  by (simp add: near_pkt observe_eval Let_def loss_state_def; cases kd; simp add: fires_def)+

lemma loss_open:
  "watch None (Seen (pkt (tick 400) client 40002 server 80 Tcp SYN 2000 0 64240 0) #
     Seen (pkt (tick 401) server 80 client 40002 Tcp (SYN OR ACK) 9000 2001 65160 0) #
     Seen (pkt (tick 402) client 40002 server 80 Tcp ACK 2001 9001 64240 0) # hs) kd \<longleftrightarrow>
   watch (Some (loss_state (tick 402) 2001 None 0 0 0)) hs kd"
  by (simp add: near_pkt observe_eval Let_def; cases kd; simp add: fires_def loss_state_def word_le_nat_alt unat_rtt)

lemma loss_swept:
  assumes "m \<le> n" "n < 10 ^ 5"
  shows "watch (Some (loss_state (tick m) s r c rx segs)) (Swept (tick n) # hs) kd \<longleftrightarrow>
    watch (Some (loss_state (tick m) s r c rx segs)) hs kd"
proof -
  let ?f = "loss_state (tick m) s r c rx segs"
  have "\<not> idle (tick n) 120000000000 ?f"
    using assms by (subst idle_tick [of m]) (simp_all add: loss_state_def)
  moreover have "\<not> timeout_due (tick n) 3000000000 ?f" by (simp add: timeout_due_def loss_state_def)
  ultimately show ?thesis by (simp add: flag_due_def)
qed

lemma loss_watch:
  "watch None (flow_history (near 40002 80) (tick 0) (map Packet loss_part) @ hs) kd \<longleftrightarrow>
     kd = DuplicateAck \<or> kd = Retransmission \<or> watch (Some (loss_state (tick 1315) 2201 (Some 2201) 3 3 4)) hs kd"
proof -
  have "\<not> f64_lt (retransmit_ratio (loss_state t 2201 None 0 1 2)) (f64_of_rat 0.05)" for t
    using ratio_threshold [of 2 1] by (simp add: retransmit_ratio_def loss_state_def)
  then show ?thesis
    unfolding loss_history by (simp add: loss_part_def loss_open loss_steps loss_swept del: watch.simps) auto
qed

lemma swept_append: "swept_after s (ps @ qs) = swept_after (swept_after s ps) qs"
  by (induction ps arbitrary: s) simp_all

lemma swept_parts:
  "swept_after (tick 0) loss_part = tick 1010" "swept_after (tick 1010) stall_part = tick 2050"
  by (simp_all add: loss_part_def stall_part_def near_pkt tick_due)

lemma stall_watch: "watch None (flow_history (near 40003 5432) (tick 1010) (map Packet stall_part)) ZeroWindow"
  by (simp add: stall_part_def near_pkt tick_due) (simp add: watch_eval word_le_nat_alt unat_rtt)

section \<open>The other flows\<close>

text \<open>The clients of the refused and of the unanswered connections have addresses above the server's.\<close>

definition far :: "nat \<Rightarrow> u8 \<Rightarrow> u16 \<Rightarrow> u16 \<Rightarrow> flow_key" where
  "far i n cp sp = \<lparr>low = \<lparr>ep_ip = server, ep_port = sp\<rparr>,
     high = \<lparr>ep_ip = v4 10 0 n (of_nat (i mod 250) + 1), ep_port = cp\<rparr>, key_proto = Tcp\<rparr>"

lemma server_below: "n \<in> {1, 2} \<Longrightarrow> server < v4 10 0 n d"
proof -
  assume n: "n \<in> {1, 2}"
  let ?a = "push_bit 24 (ucast (10 :: u8)) OR push_bit 16 (ucast (0 :: u8)) OR push_bit 8 (ucast n) :: u32"
  have "?a \<le> ipv4_new 10 0 n d" unfolding ipv4_new_def or.assoc [symmetric] by (rule le_word_or2)
  moreover have "ipv4_new 10 0 0 9 < ?a" using n by (auto simp: ipv4_new_def)
  ultimately have "ipv4_new 10 0 0 9 < ipv4_new 10 0 n d" by (rule less_le_trans [rotated])
  then show ?thesis by (simp add: v4_def less_ip_addr_def order.strict_implies_order not_le)
qed

lemma far_pkt:
  assumes "n \<in> {1, 2}"
  shows "pkt t (v4 10 0 n (of_nat (i mod 250) + 1)) cp server sp Tcp fl sq ak w l = \<lparr>ts_nanos = t, pkt_key = far i n cp sp,
     pkt_dir = Reverse, pkt_proto = Tcp, pkt_flags = TcpFlags fl, pkt_seq = sq, pkt_ack = ak, pkt_window = w,
     payload_len = l, pkt_ttl = 64, pkt_iface = 0\<rparr>"
    "pkt t server sp (v4 10 0 n (of_nat (i mod 250) + 1)) cp Tcp fl sq ak w l = \<lparr>ts_nanos = t, pkt_key = far i n cp sp,
     pkt_dir = Forward, pkt_proto = Tcp, pkt_flags = TcpFlags fl, pkt_seq = sq, pkt_ack = ak, pkt_window = w,
     payload_len = l, pkt_ttl = 64, pkt_iface = 0\<rparr>"
  using server_below [OF assms, of "of_nat (i mod 250) + 1"]
  by (simp_all add: pkt_def canonical_def far_def less_eq_endpoint_ext_def Let_def order.asym order.strict_implies_not_eq [symmetric])

lemma far_eq:
  "far i n cp sp = far j m cp' sp' \<Longrightarrow> cp = cp' \<and> sp = sp'" "far i n cp sp \<noteq> near cp' sp'" "near cp' sp' \<noteq> far i n cp sp"
  by (auto simp: far_def near_def v4_def ipv4_new_def)

lemma refused_pkt:
  "refused i =
     [\<lparr>ts_nanos = tick (3000 + 10 * i), pkt_key = far i 1 (50000 + of_nat i) 8080, pkt_dir = Reverse, pkt_proto = Tcp,
        pkt_flags = TcpFlags SYN, pkt_seq = 4000 + of_nat i, pkt_ack = 0, pkt_window = 64240, payload_len = 0, pkt_ttl = 64, pkt_iface = 0\<rparr>,
      \<lparr>ts_nanos = tick (3001 + 10 * i), pkt_key = far i 1 (50000 + of_nat i) 8080, pkt_dir = Forward, pkt_proto = Tcp,
        pkt_flags = TcpFlags (RST OR ACK), pkt_seq = 0, pkt_ack = 4001 + of_nat i, pkt_window = 0, payload_len = 0, pkt_ttl = 64, pkt_iface = 0\<rparr>]"
  by (simp add: refused_def far_pkt)

lemma half_pkt:
  "half i = \<lparr>ts_nanos = tick (5000 + i), pkt_key = far i 2 (60000 + of_nat i) 3306, pkt_dir = Reverse, pkt_proto = Tcp,
     pkt_flags = TcpFlags SYN, pkt_seq = 6000 + of_nat i, pkt_ack = 0, pkt_window = 64240, payload_len = 0, pkt_ttl = 64, pkt_iface = 0\<rparr>"
  by (simp add: half_def far_pkt)

lemma refused_watch:
  "watch None (flow_history (far 0 1 50000 8080) (tick 2050) (map Packet (refused 0))) HandshakeFailure"
  by (simp add: refused_pkt tick_due) (simp add: watch_eval)

definition half_state :: "nat \<Rightarrow> flow_state" where
  "half_state i = fst (observe None (half i))"

lemma half_state_fields:
  "fs_state (half_state i) = SynSent" "syn_time_ns (half_state i) = Some (tick (5000 + i))"
  "last_seen_ns (half_state i) = tick (5000 + i)" "handshake_timeout_flagged (half_state i) = False"
  "half_open_counted (half_state i) = True" "fs_service (half_state i) = \<lparr>ep_ip = server, ep_port = 3306\<rparr>"
  by (simp_all add: half_state_def half_pkt observe_eval Let_def) (simp add: far_def)

lemma half_swept:
  assumes "i \<le> n" "n < 10 ^ 5"
  shows "idle (tick (5000 + n)) 120000000000 (half_state i) \<longleftrightarrow> 120000 < n - i"
    "timeout_due (tick (5000 + n)) 3000000000 (half_state i) \<longleftrightarrow> 3000 < n - i"
  using assms half_state_fields idle_tick [of "5000 + i" "5000 + n" "half_state i"]
    timeout_due_tick [of "5000 + i" "5000 + n" "half_state i"] by simp_all

section \<open>The kinds the demonstration reports\<close>

abbreviation first_parts :: "packet_meta list" where
  "first_parts \<equiv> slow_part @ loss_part @ stall_part"

abbreviation demo :: "action list" where
  "demo \<equiv> map Packet build_script @ [Sweep (tick 15000)]"

abbreviation demo_kinds :: "event_kind set" where
  "demo_kinds \<equiv> kinds (snd (engine_run (engine_new default_detect) demo))"

lemma first_far: "far i n cp sp \<notin> pkt_key ` set first_parts"
  by (simp add: slow_part_def loss_part_def stall_part_def near_pkt far_eq(2))

lemma swept_first: "swept_after 0 first_parts = tick 2050"
  by (simp add: swept_append swept_slow swept_parts)

lemma part_reported:
  assumes "map Packet (ps @ qs) @ rest = demo" "k \<notin> pkt_key ` set ps"
    "watch None (flow_history k (swept_after 0 ps) (map Packet qs)) kd"
  shows "kd \<in> demo_kinds"
proof -
  have "watch None (flow_history k 0 (map Packet (ps @ qs))) kd"
    using assms(3) watch_skip [OF assms(2), of 0 "map Packet qs"] by simp
  from watch_reported [OF this, of rest] assms(1) show ?thesis by simp
qed

lemma high_rtt_reported: "HighRtt \<in> demo_kinds"
  by (rule part_reported [where ps = "[]" and qs = "take 2 slow_part"])
    (use slow_flow in \<open>simp_all add: build_script_parts slow_part_def\<close>)

lemma loss_reported: "kd = DuplicateAck \<or> kd = Retransmission \<Longrightarrow> kd \<in> demo_kinds"
  by (rule part_reported [where ps = slow_part and qs = loss_part and k = "near 40002 80"])
    (use loss_watch [of "[]"] others_slow in \<open>auto simp: build_script_parts swept_slow\<close>)

lemma zero_window_reported: "ZeroWindow \<in> demo_kinds"
proof (rule part_reported [where ps = "slow_part @ loss_part" and qs = stall_part and k = "near 40003 5432"])
  show "near 40003 5432 \<notin> pkt_key ` set (slow_part @ loss_part)" by (simp add: slow_part_def loss_part_def near_pkt)
qed (use stall_watch in \<open>simp_all add: build_script_parts swept_append swept_slow swept_parts\<close>)

lemma failure_reported: "HandshakeFailure \<in> demo_kinds"
proof (rule part_reported [where ps = first_parts and qs = "refused 0" and k = "far 0 1 50000 8080"])
  have "[0..<40] = 0 # [1..<40]" by (simp add: upt_rec)
  then show "map Packet (first_parts @ refused 0) @ map Packet (concat (map refused [1..<40]) @ map half [0..<80] @ [late]) @ [Sweep (tick 15000)] = demo"
    by (simp add: build_script_parts)
qed (use refused_watch swept_first first_far in simp_all)

lemma half_key: "pkt_key (half i) = far i 2 (60000 + of_nat i) 3306" "ts_nanos (half i) = tick (5000 + i)"
  by (simp_all add: half_pkt)

lemma half_key_inj: "pkt_key (half i) = pkt_key (half j) \<Longrightarrow> i < 80 \<Longrightarrow> j < 80 \<Longrightarrow> i = j"
proof -
  assume "pkt_key (half i) = pkt_key (half j)" and ij: "i < 80" "j < 80"
  then have "(of_nat i :: u16) = of_nat j" using far_eq(1) by (fastforce simp: half_key)
  then have "unat (of_nat i :: u16) = unat (of_nat j :: u16)" by simp
  with ij show "i = j" by (simp add: unsigned_of_nat take_bit_nat_eq_self)
qed

lemma refused_key: "p \<in> set (refused i) \<Longrightarrow> pkt_key p = far i 1 (50000 + of_nat i) 8080"
  by (auto simp: refused_pkt)

text \<open>The packets before the unanswered connection \<open>i\<close>.\<close>

definition until_half :: "nat \<Rightarrow> packet_meta list" where
  "until_half i = first_parts @ concat (map refused [0..<40]) @ map half [0..<i]"

lemma until_half_keys: "i < 80 \<Longrightarrow> pkt_key (half i) \<notin> pkt_key ` set (until_half i)"
proof -
  assume i: "i < 80"
  have "pkt_key (half i) \<noteq> pkt_key p" if "p \<in> set (refused j)" for p j
    using refused_key [OF that] far_eq(1) [of i 2 "60000 + of_nat i" 3306 j 1 "50000 + of_nat j" 8080] by (auto simp: half_key)
  moreover have "pkt_key (half i) \<noteq> pkt_key (half j)" if "j < i" for j
    using half_key_inj [of i j] i that by auto
  moreover have "pkt_key (half i) \<notin> pkt_key ` set first_parts" unfolding half_key by (rule first_far)
  ultimately show ?thesis by (simp add: until_half_def image_iff ball_Un)
qed

lemma until_half_Suc: "until_half (Suc i) = until_half i @ [half i]"
  by (simp add: until_half_def)

lemma build_script_until: "build_script = until_half 79 @ [half 79, late]"
  using upt_Suc_append [of 0 79] by (simp add: build_script_parts until_half_def)

lemma timeout_reported: "HandshakeTimeout \<in> demo_kinds"
proof -
  let ?k = "pkt_key (half 79)"
  have o: "observe None (half 79) = (half_state 79, snd (observe None (half 79)))" by (simp add: half_state_def)
  have l: "pkt_key late \<noteq> ?k" by (simp add: late_def near_pkt half_key far_eq(3))
  have due: "timeout_due (tick 15000) 3000000000 (half_state 79)" "\<not> idle (tick 5079) 120000000000 (half_state 79)"
    "\<not> timeout_due (tick 5079) 3000000000 (half_state 79)" using half_swept [of 79 10000] half_swept [of 79 79] by simp_all
  have "watch None (flow_history ?k s [Packet (half 79), Packet late, Sweep (tick 15000)]) HandshakeTimeout" for s
    using l due by (auto simp: Let_def watch_seen [OF o] flag_due_def half_key(2) simp del: watch.simps(2)) (simp_all add: late_def near_pkt due)
  with watch_skip [OF until_half_keys [of 79]] have "watch None (flow_history ?k 0 demo) HandshakeTimeout"
    unfolding build_script_until by simp
  from watch_reported [OF this, of "[]"] show ?thesis by simp
qed

section \<open>Kinds that are not reported\<close>

lemma kinds_alert: "kd \<in> kinds evs \<longleftrightarrow> alert_times kd evs \<noteq> []"
  by (auto simp: alert_times_def filter_empty_conv)

text \<open>The only segments with data are those of the lossy flow.\<close>

lemma watch_no_data:
  "(\<forall>p. Seen p \<in> set hs \<longrightarrow> payload_len p = 0) \<Longrightarrow> \<not> watch fo hs OutOfOrder"
proof (induction fo hs OutOfOrder rule: watch.induct)
  case (2 fo p hs)
  obtain f d where o: "observe fo p = (f, d)" by (cases "observe fo p")
  have "\<not> fires d f OutOfOrder"
  proof -
    have "payload_len p = 0" using 2(2) by (meson list.set_intros(1))
    with o show ?thesis using out_of_order_char [of "lone default_detect (pkt_key p) fo" p] by (auto simp: fires_def observe_def)
  qed
  moreover have "\<not> watch (Some f) hs OutOfOrder"
    by (rule 2(1) [OF o [symmetric] refl]) (use 2(2) in \<open>meson list.set_intros(2)\<close>)
  ultimately show ?case by (simp add: o)
qed simp_all

lemma history_packets: "Seen p \<in> set (flow_history k s acts) \<Longrightarrow> Packet p \<in> set acts \<and> pkt_key p = k"
  by (induction k s acts rule: flow_history.induct) (auto simp: Let_def split: if_splits)

lemma script_data: "p \<in> set build_script \<Longrightarrow> pkt_key p \<noteq> near 40002 80 \<Longrightarrow> payload_len p = 0"
  by (auto simp: build_script_parts slow_part_def loss_part_def stall_part_def late_def near_pkt refused_pkt half_pkt)

abbreviation tail_part :: "packet_meta list" where
  "tail_part \<equiv> stall_part @ concat (map refused [0..<40]) @ map half [0..<80] @ [late]"

lemma tail_keys: "near 40002 80 \<notin> pkt_key ` set tail_part"
  by (auto simp: stall_part_def late_def near_pkt refused_pkt half_pkt far_eq)

lemma out_of_order_silent: "OutOfOrder \<notin> demo_kinds"
proof
  assume "OutOfOrder \<in> demo_kinds"
  moreover have "\<not> host_wide OutOfOrder" by (simp add: host_wide_def)
  ultimately obtain k where w: "watch None (flow_history k 0 demo) OutOfOrder" by (rule reported_watch)
  show False
  proof (cases "k = near 40002 80")
    case True
    let ?s = "swept_after (tick 0) loss_part"
    let ?hs = "flow_history k ?s (map Packet tail_part @ [Sweep (tick 15000)])"
    let ?acts = "map Packet loss_part @ map Packet tail_part @ [Sweep (tick 15000)]"
    have "demo = map Packet slow_part @ ?acts" by (simp add: build_script_parts)
    with w watch_skip [OF others_slow, of 0 ?acts] have "watch None (flow_history k (tick 0) ?acts) OutOfOrder"
      by (simp only: True swept_slow)
    then have "watch None (flow_history k (tick 0) (map Packet loss_part) @ ?hs) OutOfOrder"
      by (simp only: history_append [of k "tick 0" loss_part])
    then have "watch (Some (loss_state (tick 1315) 2201 (Some 2201) 3 3 4)) ?hs OutOfOrder" unfolding True loss_watch by simp
    moreover have "set ?hs \<subseteq> range Swept"
      using history_others [OF tail_keys, of ?s] unfolding True history_append by (auto simp del: append_assoc)
    ultimately show False using watch_swept(2) by blast
  next
    case False
    have "payload_len p = 0" if "Seen p \<in> set (flow_history k 0 demo)" for p
      using history_packets [OF that] script_data [of p] False by auto
    with w watch_no_data show False by blast
  qed
qed

section \<open>Host-wide kinds\<close>

text \<open>As long as an alert has not been reported its debounce is as it was made.\<close>

lemma untouched:
  assumes "host_wide kd" "kd \<notin> kinds (snd (engine_run (engine_new cfg) acts))"
  shows "chain_debounce kd (eng_detectors (reached cfg acts)) = [debounce_new (alert_debounce_secs cfg)]"
  using assms(2)
proof (induction acts rule: rev_induct)
  case Nil
  then show ?case using assms(1) by (simp add: engine_new_chain)
next
  case (snoc a acts)
  then have IH: "chain_debounce kd (eng_detectors (reached cfg acts)) = [debounce_new (alert_debounce_secs cfg)]"
    and quiet: "kd \<notin> kinds (snd (engine_step (reached cfg acts) a))"
    by (simp_all add: run_machine_append case_prod_beta Let_def image_Un)
  show ?case
  proof (cases a)
    case (Packet p)
    with quiet process_alerts [OF assms(1) reached_keys IH, of p] show ?thesis
      by (auto simp: run_machine_append case_prod_beta Let_def kinds_alert)
  next
    case (Sweep t)
    with IH show ?thesis by (simp add: run_machine_append case_prod_beta Let_def sweep_eq)
  qed
qed

lemma fresh_ready: "snd (ready (debounce_new g) t)"
  by (simp add: ready_def debounce_new_def)

text \<open>A host-wide alert that the rule raises on a packet of the run is reported, there or earlier.\<close>

lemma alert_in_run:
  assumes "host_wide kd" "demo = acts @ Packet p # rest"
    "chain_debounce kd (eng_detectors (reached default_detect acts)) = [debounce_new (alert_debounce_secs default_detect)] \<Longrightarrow>
       alert_times kd (snd (process (reached default_detect acts) p)) \<noteq> []"
  shows "kd \<in> demo_kinds"
proof (cases "kd \<in> kinds (snd (engine_run (engine_new default_detect) acts))")
  case True
  then show ?thesis unfolding assms(2) using run_kinds_append by blast
next
  case False
  from assms(3) [OF untouched [OF assms(1) False]] show ?thesis unfolding assms(2) kinds_alert [symmetric]
    by (simp add: run_machine_append case_prod_beta Let_def image_Un)
qed

text \<open>The times of the script.\<close>

lemma tick_mono: "sorted ns \<Longrightarrow> \<forall>n \<in> set ns. n < 10 ^ 6 \<Longrightarrow> sorted (map tick ns)"
proof (induction ns)
  case (Cons n ns)
  then have "tick n \<le> tick m" if "m \<in> set ns" for m
    using that unat_tick [of n] unat_tick [of m] by (auto simp: word_le_nat_alt)
  with Cons show ?case by auto
qed simp

definition script_ticks :: "nat list" where
  "script_ticks = [0, 300, 305, 400, 401, 402, 410, 610, 810, 1010, 1300, 1305, 1310, 1315, 2000, 2001, 2002, 2050] @
     concat (map (\<lambda>i. [3000 + 10 * i, 3001 + 10 * i]) [0..<40]) @ map (\<lambda>i. 5000 + i) [0..<80] @ [15000]"

lemma script_times: "map ts_nanos build_script = map tick script_ticks"
  by (simp add: build_script_parts script_ticks_def slow_part_def loss_part_def stall_part_def late_def near_pkt
      refused_pkt half_pkt map_concat o_def)

lemma refused_ticks:
  "sorted (concat (map (\<lambda>i. [3000 + 10 * i, 3001 + 10 * i]) [0..<n]))"
  "t \<in> set (concat (map (\<lambda>i. [3000 + 10 * i, 3001 + 10 * i]) [0..<n])) \<Longrightarrow> 3000 \<le> t \<and> t < 3000 + 10 * n"
  by (induction n) (auto simp: sorted_append)

lemma sorted_script: "sorted (map ts_nanos build_script)"
proof -
  have "sorted script_ticks" unfolding script_ticks_def
    using refused_ticks [of 40] by (auto simp: sorted_append sorted_map)
  moreover have "\<forall>n \<in> set script_ticks. n < 10 ^ 6" unfolding script_ticks_def using refused_ticks(2) [of _ 40] by auto
  ultimately show ?thesis unfolding script_times by (rule tick_mono)
qed

lemma packet_times_packets: "packet_times (map Packet ps) = map ts_nanos ps"
  by (induction ps) simp_all

lemma script_prefix:
  assumes "build_script = ps @ p # qs"
  shows "sorted (packet_times (map Packet ps @ [Packet p]))" "length (map Packet ps @ [Packet p]) \<le> 179"
proof -
  have "sorted (map ts_nanos (ps @ [p]))" using sorted_script by (simp add: assms sorted_append)
  then show "sorted (packet_times (map Packet ps @ [Packet p]))" using packet_times_packets [of "ps @ [p]"] by simp
  show "length (map Packet ps @ [Packet p]) \<le> 179" using length_build_script by (simp add: assms)
qed

lemma storm_hits: "hit_times (counted RstStorm) e (map Packet ps) = map ts_nanos (filter rst_seen ps)"
  by (induction ps arbitrary: e) simp_all

lemma sec_tick: "n < 10 ^ 6 \<Longrightarrow> sec_of (tick n) = 1700000000 + n div 1000"
  using unat_tick [of n] by (simp add: sec_of_def)

lemma storm_count:
  "40 \<le> length (filter (\<lambda>t. sec_of t = sec_of (tick 3391))
    (hit_times (counted RstStorm) e (map Packet (first_parts @ concat (map refused [0..<40])))))"
proof -
  have hits: "filter rst_seen (refused i) = [last (refused i)]" "ts_nanos (last (refused i)) = tick (3001 + 10 * i)" for i
    by (simp_all add: refused_pkt rst_seen_def flag_defs)
  have "filter (\<lambda>i. sec_of (tick (3001 + 10 * i)) = sec_of (tick 3391)) [0..<40] = [0..<40]"
    by (auto simp: filter_id_conv sec_tick)
  then show ?thesis unfolding storm_hits
    by (simp add: filter_concat hits o_def filter_map map_concat cong: map_cong)
qed

lemma storm_reported: "RstStorm \<in> demo_kinds"
proof -
  let ?ps = "first_parts @ concat (map refused [0..<39]) @ [hd (refused 39)]" and ?p = "last (refused 39)"
  let ?qs = "map half [0..<80] @ [late]"
  have "refused 39 = [hd (refused 39), ?p]" by (simp add: refused_def)
  then have app: "?ps @ [?p] = first_parts @ concat (map refused [0..<40])" using upt_Suc_append [of 0 39] by simp
  then have script: "build_script = ?ps @ ?p # ?qs" by (simp add: build_script_parts)
  have p: "counted RstStorm es ?p" "ts_nanos ?p = tick 3391" for es by (simp_all add: refused_pkt rst_seen_def flag_defs)
  have count: "20 \<le> length (filter (\<lambda>t. sec_of t = sec_of (ts_nanos ?p)) (hit_times (counted RstStorm) e (map Packet ?ps @ [Packet ?p])))" for e
    using storm_count [of e, folded app] unfolding p(2) by simp
  show ?thesis
  proof (rule alert_in_run [where acts = "map Packet ?ps" and p = ?p and rest = "map Packet ?qs @ [Sweep (tick 15000)]"])
    show "alert_times RstStorm (snd (process (reached default_detect (map Packet ?ps)) ?p)) \<noteq> []"
      if b: "chain_debounce RstStorm (eng_detectors (reached default_detect (map Packet ?ps))) = [debounce_new (alert_debounce_secs default_detect)]"
      using count fresh_ready rs.alert_iff [OF script_prefix(1) [OF script] _ _ _ p(1) b, of 20] script_prefix(2) [OF script]
      by (simp add: default_detect_def)
  qed (simp_all add: host_wide_def script)
qed

lemma churn_prefix: "build_script = ps @ qs \<Longrightarrow> ConnectionChurn \<notin> kinds (snd (engine_run (engine_new default_detect) (map Packet ps)))"
proof (induction ps arbitrary: qs rule: rev_induct)
  case (snoc p ps)
  then have script: "build_script = ps @ p # qs" by simp
  have hw: "host_wide ConnectionChurn" by (simp add: host_wide_def)
  let ?acts = "map Packet ps"
  have quiet: "ConnectionChurn \<notin> kinds (snd (engine_run (engine_new default_detect) ?acts))" using snoc.IH [OF script] .
  note b = untouched [OF hw quiet]
  let ?ts = "hit_times (counted ConnectionChurn) (engine_new default_detect) (?acts @ [Packet p])"
  have "length ?ts \<le> 179"
    using list_emb_length [OF hit_times_subseq] packet_times_length script_prefix(2) [OF script] le_trans by blast
  then have "\<not> 200 \<le> length (filter P ?ts)" for P using length_filter_le [of P ?ts] by linarith
  then have "alert_times ConnectionChurn (snd (process (reached default_detect ?acts) p)) = []"
    using cc.alert_iff [OF script_prefix(1) [OF script] _ _ _ _ b, of 200] script_prefix(2) [OF script] cc.rule
      process_host_rule [OF hw b reached_keys, of p]
    by (cases "counted ConnectionChurn (eng_state (reached default_detect ?acts)) p") (simp_all add: default_detect_def)
  with quiet show ?case by (simp add: run_machine_append case_prod_beta Let_def image_Un) (simp add: kinds_alert)
qed simp

lemma churn_silent: "ConnectionChurn \<notin> demo_kinds"
proof -
  have "host_wide ConnectionChurn" by (simp add: host_wide_def)
  from sweep_alerts [OF this reached_keys] have "ConnectionChurn \<notin> kinds (snd (sweep (reached default_detect (map Packet build_script)) t))" for t
    unfolding kinds_alert by simp
  with churn_prefix [of build_script "[]"] show ?thesis by (simp add: run_machine_append case_prod_beta Let_def image_Un)
qed

text \<open>The unanswered connections stay in the table, half-open, until the last of them arrives.\<close>

lemma machine_swept:
  assumes "set hs \<subseteq> Swept ` ts" "\<forall>t \<in> ts. \<not> idle t 120000000000 f \<and> \<not> timeout_due t 3000000000 f"
  shows "fst (run_machine (flow_machine default_detect k) (Some f) hs) = Some f"
  using assms by (induction hs) (auto simp: default_ns case_prod_beta Let_def flag_due_def)

lemma machine_before:
  assumes "k \<notin> pkt_key ` set ps"
  shows "fst (run_machine (flow_machine default_detect k) None (flow_history k s (map Packet ps))) = None"
proof -
  have "set hs \<subseteq> range Swept \<Longrightarrow> fst (run_machine (flow_machine default_detect k) None hs) = None" for hs
    by (induction hs) (auto simp: case_prod_beta Let_def)
  then show ?thesis using history_others [OF assms, of s] by blast
qed

lemma until_half_split:
  assumes "i < n"
  shows "until_half n = until_half i @ half i # map half [Suc i..<n]"
proof -
  have "[0..<n] = [0..<i] @ i # [Suc i..<n]"
    using assms upt_add_eq_append [of 0 i "n - i"] upt_conv_Cons [of i n] by simp
  then show ?thesis by (simp add: until_half_def)
qed

lemma half_stays:
  assumes "i < n" "n < 80"
  shows "map_of (table (reached default_detect (map Packet (until_half n)))) (pkt_key (half i)) = Some (half_state i)"
proof -
  let ?k = "pkt_key (half i)" and ?qs = "map half [Suc i..<n]" and ?s = "swept_after 0 (until_half i)"
  let ?due = "NS_PER_SEC \<le> saturating_sub (ts_nanos (half i)) ?s"
  define hs where "hs = (if ?due then [Swept (ts_nanos (half i))] else []) @ flow_history ?k (if ?due then ts_nanos (half i) else ?s) (map Packet ?qs)"
  have "?k \<notin> pkt_key ` set ?qs" using half_key_inj [of i] assms by fastforce
  from history_others [OF this] have hs: "set hs \<subseteq> Swept ` ts_nanos ` half ` {i..<n}"
    unfolding hs_def using assms(1) by fastforce
  have calm: "\<forall>t \<in> ts_nanos ` half ` {i..<n}. \<not> idle t 120000000000 (half_state i) \<and> \<not> timeout_due t 3000000000 (half_state i)"
    using half_swept [of i] assms by (auto simp: half_key(2))
  have "flow_history ?k 0 (map Packet (until_half n)) = flow_history ?k 0 (map Packet (until_half i)) @ Seen (half i) # hs"
    unfolding until_half_split [OF assms(1)] map_append history_append by (simp add: hs_def Let_def)
  moreover have "fst (flow_machine default_detect ?k None (Seen (half i))) = Some (half_state i)"
    by (simp only: flow_machine_seen half_state_def)
  ultimately show ?thesis
    using flow_view_run [OF flow_view_new [of default_detect ?k], of "map Packet (until_half n)"] assms
      machine_before [OF until_half_keys [of i], of 0] machine_swept [OF hs calm, of ?k]
    by (simp add: run_machine_append case_prod_beta Let_def del: flow_machine.simps)
qed

lemma half_new:
  assumes "n < 80"
  shows "map_of (table (reached default_detect (map Packet (until_half n)))) (pkt_key (half n)) = None"
  using flow_view_run [OF flow_view_new [of default_detect "pkt_key (half n)"], of "map Packet (until_half n)"]
    machine_before [OF until_half_keys [OF assms], of 0] by simp

lemma count_entries_ge:
  assumes "finite A" "inj_on g A" "\<And>a. a \<in> A \<Longrightarrow> \<exists>f. map_of m (g a) = Some f \<and> P f"
  shows "card A \<le> count_entries P m"
proof -
  have "g ` A \<subseteq> fst ` set (filter (\<lambda>(k, v). P v) m)"
    using assms(3) by (force dest: map_of_SomeD)
  then have "card (g ` A) \<le> length (filter (\<lambda>(k, v). P v) m)"
    by (meson card_length card_mono finite_imageI finite_set card_image_le le_trans)
  then show ?thesis using card_image [OF assms(2)] by (simp add: count_entries_def)
qed

lemma backlog_reported: "SynBacklog \<in> demo_kinds"
proof -
  let ?acts = "map Packet (until_half 79)" and ?p = "half 79"
  let ?es = "next_state (eng_state (reached default_detect ?acts)) ?p"
  let ?ep = "\<lparr>ep_ip = server, ep_port = 3306\<rparr>"
  have "map_of (flows ?es) (pkt_key (half i)) = Some (half_state i)" if "i < 80" for i
  proof (cases "i = 79")
    case True
    then show ?thesis
      using next_state_lone(1) [OF half_new [of 79], where cfg = default_detect] flow_machine_seen [of ?p _ None]
      by (simp add: half_state_def)
  next
    case False
    with half_key_inj [of i 79] half_stays [of i 79] that show ?thesis by (auto simp: map_of_next_state)
  qed
  note stay = this
  have "inj_on (\<lambda>i. pkt_key (half i)) {..<80}" using half_key_inj by (auto intro: inj_onI)
  from count_entries_ge [OF _ this, of "flows ?es" "\<lambda>f. half_open_counted f \<and> fs_service f = ?ep"]
  have "80 \<le> half_open_flows (flows ?es) ?ep" by (simp add: half_open_flows_def stay half_state_fields)
  then have f: "\<exists>f. map_of (flows ?es) (pkt_key ?p) = Some f \<and>
      unat (syn_backlog_threshold default_detect) \<le> half_open_flows (flows ?es) (fs_service f)"
    using stay [of 79] by (simp add: half_state_fields default_detect_def)
  have len: "length ?acts < 2 ^ 32 - 1" using length_build_script by (simp add: build_script_until)
  show ?thesis
  proof (rule alert_in_run [where acts = ?acts and p = ?p and rest = "[Packet late, Sweep (tick 15000)]"])
    show "alert_times SynBacklog (snd (process (reached default_detect ?acts) ?p)) \<noteq> []"
      if b: "chain_debounce SynBacklog (eng_detectors (reached default_detect ?acts)) = [debounce_new (alert_debounce_secs default_detect)]"
      unfolding syn_backlog_run [OF len b] using f fresh_ready by blast
  qed (simp_all add: host_wide_def build_script_until)
qed

text \<open>The script reports eight of the ten kinds.\<close>

lemma demo_kinds_eq: "demo_kinds = UNIV - {OutOfOrder, ConnectionChurn}"
proof (intro equalityI subsetI)
  fix kd assume "kd \<in> UNIV - {OutOfOrder, ConnectionChurn}"
  then show "kd \<in> demo_kinds"
    using high_rtt_reported loss_reported [of kd] zero_window_reported failure_reported timeout_reported storm_reported backlog_reported
    by (cases kd) auto
qed (use out_of_order_silent churn_silent in blast)

lemma script_end: "build_script \<noteq> []" "ts_nanos (last build_script) = tick 15000"
  by (simp_all add: build_script_parts late_def near_pkt)

end
