(* ===== verification/Json_Read.thy ===== *)
theory Json_Read
  imports Export_Laws Engine_Alerts
begin

text \<open>
  The two JSON outputs, the event lines and the body of the OTLP push, against a reader of JSON. The reader
  is written from the grammar of RFC 8259 and shares nothing with the code that prints; what it accepts is
  JSON (it leaves out exponents and the escapes by code point, which are never printed). \<open>denotes s v\<close> says
  that the text \<open>s\<close> is read as the value \<open>v\<close> wherever it stands, and follows the structure of the text.
\<close>

section \<open>JSON, read by its grammar\<close>

text \<open>The values of RFC 8259. A number is its exact value.\<close>

datatype json = JNull | JBool bool | JNum rat | JStr string | JArr "json list" | JObj "(string \<times> json) list"

definition is_blank :: "char \<Rightarrow> bool" where
  "is_blank c \<longleftrightarrow> c = CHR 0x20 \<or> c = CHR 0x09 \<or> c = CHR 0x0A \<or> c = CHR 0x0D"

definition skip :: "string \<Rightarrow> string" where
  "skip s = dropWhile is_blank s"

definition dec_digit :: "char \<Rightarrow> bool" where
  "dec_digit c \<longleftrightarrow> 48 \<le> (of_char c :: nat) \<and> (of_char c :: nat) \<le> 57"

definition digits_value :: "string \<Rightarrow> nat" where
  "digits_value = foldl (\<lambda>n c. 10 * n + (of_char c - 48)) 0"

text \<open>A number: a sign, an integer part without leading zeros, and a fraction. Exponents are not read.\<close>

definition read_decimal :: "string \<Rightarrow> (json \<times> string) option" where
  "read_decimal s0 =
     (let neg = (case s0 of c # _ \<Rightarrow> c = CHR ''-'' | [] \<Rightarrow> False);
          s = (if neg then tl s0 else s0);
          ip = takeWhile dec_digit s; r = dropWhile dec_digit s;
          sign = (if neg then - 1 else 1)
      in if ip = [] \<or> 1 < length ip \<and> hd ip = CHR ''0'' then None
         else case r of
             [] \<Rightarrow> Some (JNum (sign * of_nat (digits_value ip)), [])
           | c # r1 \<Rightarrow>
               if c \<noteq> CHR ''.'' then Some (JNum (sign * of_nat (digits_value ip)), c # r1)
               else
                 let fp = takeWhile dec_digit r1 in
                 if fp = [] then None
                 else Some (JNum (sign * (of_nat (digits_value (ip @ fp)) / 10 ^ length fp)), dropWhile dec_digit r1))"

text \<open>The rest of a string behind its opening quote. Control characters are not allowed, and a backslash
  begins an escape; the escapes by code point, which the program never writes, are not read.\<close>

definition escaped :: "char \<Rightarrow> char option" where
  "escaped c =
     (if c \<in> {CHR 0x22, CHR 0x5C, CHR ''/''} then Some c
      else if c = CHR ''b'' then Some (CHR 0x08) else if c = CHR ''f'' then Some (CHR 0x0C)
      else if c = CHR ''n'' then Some (CHR 0x0A) else if c = CHR ''r'' then Some (CHR 0x0D)
      else if c = CHR ''t'' then Some (CHR 0x09) else None)"

fun read_chars :: "string \<Rightarrow> (string \<times> string) option" where
  "read_chars [] = None"
| "read_chars (c # s) =
     (if c = CHR 0x22 then Some ([], s)
      else if c = CHR 0x5C then (case s of
          [] \<Rightarrow> None
        | e # s1 \<Rightarrow> (case escaped e of None \<Rightarrow> None | Some d \<Rightarrow> map_option (map_prod ((#) d) id) (read_chars s1)))
      else if (of_char c :: nat) < 32 then None
      else map_option (map_prod ((#) c) id) (read_chars s))"

definition read_string :: "string \<Rightarrow> (string \<times> string) option" where
  "read_string s = (case s of [] \<Rightarrow> None | c # r \<Rightarrow> if c = CHR 0x22 then read_chars r else None)"

definition read_word :: "string \<Rightarrow> json \<Rightarrow> string \<Rightarrow> (json \<times> string) option" where
  "read_word w v s = (if prefix w s then Some (v, drop (length w) s) else None)"

text \<open>Values; the first argument bounds the nesting and the length of the lists.\<close>

fun read_value :: "nat \<Rightarrow> string \<Rightarrow> (json \<times> string) option"
  and read_items :: "nat \<Rightarrow> string \<Rightarrow> (json list \<times> string) option"
  and read_members :: "nat \<Rightarrow> string \<Rightarrow> ((string \<times> json) list \<times> string) option"
where
  "read_value 0 s = None"
| "read_value (Suc n) s = (case skip s of
      [] \<Rightarrow> None
    | c # r \<Rightarrow>
        if c = CHR ''{'' then
          (case skip r of
             d # r1 \<Rightarrow> if d = CHR ''}'' then Some (JObj [], r1) else map_option (map_prod JObj id) (read_members n r)
           | [] \<Rightarrow> None)
        else if c = CHR ''['' then
          (case skip r of
             d # r1 \<Rightarrow> if d = CHR '']'' then Some (JArr [], r1) else map_option (map_prod JArr id) (read_items n r)
           | [] \<Rightarrow> None)
        else if c = CHR 0x22 then map_option (map_prod JStr id) (read_chars r)
        else if c = CHR ''t'' then read_word ''true'' (JBool True) (c # r)
        else if c = CHR ''f'' then read_word ''false'' (JBool False) (c # r)
        else if c = CHR ''n'' then read_word ''null'' JNull (c # r)
        else read_decimal (c # r))"
| "read_items 0 s = None"
| "read_items (Suc n) s = (case read_value n s of
      None \<Rightarrow> None
    | Some (v, r) \<Rightarrow> (case skip r of
        [] \<Rightarrow> None
      | c # r1 \<Rightarrow>
          if c = CHR '']'' then Some ([v], r1)
          else if c = CHR '','' then map_option (map_prod ((#) v) id) (read_items n r1) else None))"
| "read_members 0 s = None"
| "read_members (Suc n) s = (case read_string (skip s) of
      None \<Rightarrow> None
    | Some (k, r) \<Rightarrow> (case skip r of
        [] \<Rightarrow> None
      | c # r1 \<Rightarrow>
          if c \<noteq> CHR '':'' then None
          else (case read_value n r1 of
              None \<Rightarrow> None
            | Some (v, r2) \<Rightarrow> (case skip r2 of
                [] \<Rightarrow> None
              | d # r3 \<Rightarrow>
                  if d = CHR ''}'' then Some ([(k, v)], r3)
                  else if d = CHR '','' then map_option (map_prod ((#) (k, v)) id) (read_members n r3) else None))))"

text \<open>A text is JSON when one value is all there is.\<close>

definition read_json :: "string \<Rightarrow> json option" where
  "read_json s = (case read_value (length s) s of
      Some (v, r) \<Rightarrow> if skip r = [] then Some v else None | None \<Rightarrow> None)"

section \<open>Texts that are read as a value\<close>

definition stops :: "string \<Rightarrow> bool" where
  "stops r \<longleftrightarrow> r = [] \<or> hd r \<in> {CHR '','', CHR '']'', CHR ''}''}"

definition denotes :: "string \<Rightarrow> json \<Rightarrow> bool" where
  "denotes s v \<longleftrightarrow> s \<noteq> [] \<and> hd s \<noteq> CHR '']'' \<and> hd s \<noteq> CHR ''}'' \<and> \<not> is_blank (hd s) \<and>
     (\<forall>n r. length s \<le> n \<longrightarrow> stops r \<longrightarrow> read_value n (s @ r) = Some (v, r))"

lemma denotes_read: "denotes s v \<Longrightarrow> read_json s = Some v"
proof -
  assume "denotes s v"
  then have "read_value (length s) (s @ []) = Some (v, [])" unfolding denotes_def stops_def by blast
  then show ?thesis by (simp add: read_json_def skip_def)
qed

text \<open>Text without control characters other than the three that are escaped by name; and text that needs no
  escape at all.\<close>

definition writable :: "string \<Rightarrow> bool" where
  "writable s \<longleftrightarrow> list_all (\<lambda>c. 32 \<le> (of_char c :: nat) \<or> c \<in> {CHR 0x09, CHR 0x0A, CHR 0x0D}) s"

definition bare :: "string \<Rightarrow> bool" where
  "bare s \<longleftrightarrow> list_all (\<lambda>c. 32 \<le> (of_char c :: nat) \<and> c \<noteq> CHR 0x22 \<and> c \<noteq> CHR 0x5C) s"

lemma bare_simps [simp]:
  "bare []" "bare (c # s) \<longleftrightarrow> (32 \<le> (of_char c :: nat) \<and> c \<noteq> CHR 0x22 \<and> c \<noteq> CHR 0x5C) \<and> bare s"
  "bare (s @ t) \<longleftrightarrow> bare s \<and> bare t"
  by (simp_all add: bare_def)

lemma writable_simps [simp]:
  "writable []" "writable (c # s) \<longleftrightarrow> (32 \<le> (of_char c :: nat) \<or> c \<in> {CHR 0x09, CHR 0x0A, CHR 0x0D}) \<and> writable s"
  by (simp_all add: writable_def)

lemma bare_writable: "bare s \<Longrightarrow> writable s"
  by (auto simp: bare_def writable_def list_all_iff)

lemma map_option_prod [simp]: "map_option (map_prod f g) (Some (a, b)) = Some (f a, g b)"
  by simp

lemma read_chars_bare: "bare s \<Longrightarrow> read_chars (s @ CHR 0x22 # r) = Some (s, r)"
  by (induction s) auto

lemma read_chars_esc: "writable s \<Longrightarrow> read_chars (esc s @ CHR 0x22 # r) = Some (s, r)"
proof (induction s)
  case (Cons c s)
  then have IH: "read_chars (esc s @ CHR 0x22 # r) = Some (s, r)" by simp
  consider "c = CHR 0x22" | "c = CHR 0x5C" | "c = CHR 0x0A" | "c = CHR 0x0D" | "c = CHR 0x09"
    | "c \<notin> {CHR 0x22, CHR 0x5C, CHR 0x0A, CHR 0x0D, CHR 0x09}" by blast
  then show ?case
    using Cons.prems IH by cases (simp_all add: esc_def escaped_def)
qed (simp add: esc_def)

lemma skip_none [simp]: "\<not> is_blank c \<Longrightarrow> skip (c # s) = c # s"
  by (simp add: skip_def)

lemma stops_simps [simp]: "stops (CHR '','' # r)" "stops (CHR '']'' # r)" "stops (CHR ''}'' # r)"
  by (simp_all add: stops_def)

lemma denotes_str:
  assumes "\<And>r. read_chars (t @ CHR 0x22 # r) = Some (s, r)"
  shows "denotes (CHR 0x22 # t @ [CHR 0x22]) (JStr s)"
proof -
  have "read_value n ((CHR 0x22 # t @ [CHR 0x22]) @ r) = Some (JStr s, r)" if "length (CHR 0x22 # t @ [CHR 0x22]) \<le> n" for n r
    using that assms by (cases n) (simp_all add: is_blank_def)
  then show ?thesis by (simp add: denotes_def is_blank_def)
qed

lemmas denotes_esc = denotes_str [OF read_chars_esc] and denotes_bare = denotes_str [OF read_chars_bare]

lemma denotes_true: "denotes ''true'' (JBool True)"
proof -
  have "read_value n (''true'' @ r) = Some (JBool True, r)" if "length ''true'' \<le> n" for n r
    using that by (cases n) (simp_all add: is_blank_def read_word_def)
  then show ?thesis by (simp add: denotes_def is_blank_def)
qed

lemma denotes_at: "denotes s v \<Longrightarrow> length s \<le> n \<Longrightarrow> stops r \<Longrightarrow> read_value n (s @ r) = Some (v, r)"
  by (simp add: denotes_def)

lemma denotes_hd: "denotes s v \<Longrightarrow> \<exists>c t. s = c # t \<and> c \<noteq> CHR '']'' \<and> c \<noteq> CHR ''}'' \<and> \<not> is_blank c"
  by (cases s) (simp_all add: denotes_def)

lemma blank_marks [simp]: "\<not> is_blank (CHR '','')" "\<not> is_blank (CHR '']'')" "\<not> is_blank (CHR ''}'')"
  "\<not> is_blank (CHR '':'')" "\<not> is_blank (CHR ''{'')" "\<not> is_blank (CHR ''['')" "\<not> is_blank (CHR 0x22)"
  by (simp_all add: is_blank_def)

lemma read_items_join:
  "list_all2 denotes ss vs \<Longrightarrow> ss \<noteq> [] \<Longrightarrow> length (join '','' ss) < n \<Longrightarrow>
   read_items n (join '','' ss @ CHR '']'' # r) = Some (vs, r)"
proof (induction ss vs arbitrary: n rule: list_all2_induct)
  case (Cons s ss v vs)
  obtain m where n: "n = Suc m" using Cons.prems by (cases n) auto
  show ?case
  proof (cases ss)
    case Nil
    with Cons denotes_at [OF Cons.hyps(1), of m "CHR '']'' # r"] show ?thesis by (simp add: n)
  next
    case (Cons s2 ss2)
    with Cons.prems(2) have len: "length s \<le> m" "length (join '','' ss) < m" by (simp_all add: n)
    from Cons have j: "join '','' (s # ss) = s @ CHR '','' # join '','' ss" by simp
    from Cons.IH [OF _ len(2)] Cons denotes_at [OF Cons.hyps(1) len(1), of "CHR '','' # join '','' ss @ CHR '']'' # r"]
    show ?thesis unfolding j by (simp add: n)
  qed
qed simp

lemma join_hd: "list_all2 denotes ss vs \<Longrightarrow> ss \<noteq> [] \<Longrightarrow> \<exists>c t. join '','' ss = c # t \<and> c \<noteq> CHR '']'' \<and> \<not> is_blank c"
  by (cases ss rule: join.cases [of "('','', ss)" for ss]) (auto simp: list_all2_Cons1 dest!: denotes_hd)

lemma denotes_arr:
  assumes "list_all2 denotes ss vs"
  shows "denotes (CHR ''['' # join '','' ss @ '']'') (JArr vs)"
proof -
  have "read_value n (CHR ''['' # join '','' ss @ CHR '']'' # r) = Some (JArr vs, r)" if len: "length (join '','' ss) + 2 \<le> n" for n r
  proof (cases "ss = []")
    case True
    with assms len show ?thesis by (cases n) simp_all
  next
    case False
    obtain m where n: "n = Suc m" using len by (cases n) auto
    from join_hd [OF assms False] obtain c t where j: "join '','' ss = c # t" "c \<noteq> CHR '']''" "\<not> is_blank c" by blast
    have "read_items m (join '','' ss @ CHR '']'' # r) = Some (vs, r)"
      using len by (intro read_items_join [OF assms False]) (simp add: n)
    with j show ?thesis by (simp add: n)
  qed
  then show ?thesis by (simp add: denotes_def)
qed

definition member :: "string \<times> string \<Rightarrow> string" where
  "member kv = CHR 0x22 # fst kv @ CHR 0x22 # CHR '':'' # snd kv"

definition denotes_member :: "string \<times> string \<Rightarrow> string \<times> json \<Rightarrow> bool" where
  "denotes_member m kv \<longleftrightarrow> bare (fst m) \<and> fst kv = fst m \<and> denotes (snd m) (snd kv)"

lemma read_members_one:
  assumes "denotes_member m kv" "length (member m) \<le> n" "stops (d # r)"
  shows "read_members (Suc n) (member m @ d # r) =
    (if d = CHR ''}'' then Some ([kv], r)
     else if d = CHR '','' then map_option (map_prod ((#) kv) id) (read_members n r) else None)"
proof -
  obtain k t v where m: "m = (k, t)" "kv = (k, v)" "bare k" "denotes t v"
    using assms(1) by (cases m; cases kv) (auto simp: denotes_member_def)
  have "read_value n (t @ d # r) = Some (v, d # r)"
    using assms(2) by (intro denotes_at [OF m(4) _ assms(3)]) (simp add: m member_def)
  moreover have "\<not> is_blank d" using assms(3) by (auto simp: stops_def)
  ultimately show ?thesis
    by (simp add: m(1,2) member_def read_string_def read_chars_bare [OF m(3)])
qed

lemma read_members_join:
  "list_all2 denotes_member ms kvs \<Longrightarrow> ms \<noteq> [] \<Longrightarrow> length (join '','' (map member ms)) < n \<Longrightarrow>
   read_members n (join '','' (map member ms) @ CHR ''}'' # r) = Some (kvs, r)"
proof (induction ms kvs arbitrary: n rule: list_all2_induct)
  case (Cons m ms kv kvs)
  obtain l where n: "n = Suc l" using Cons.prems by (cases n) auto
  show ?case
  proof (cases ms)
    case Nil
    with Cons read_members_one [OF Cons.hyps(1), of l "CHR ''}''" r] show ?thesis by (simp add: n)
  next
    case (Cons m2 ms2)
    with Cons.prems(2) have len: "length (member m) \<le> l" "length (join '','' (map member ms)) < l" by (simp_all add: n)
    from Cons have j: "join '','' (map member (m # ms)) = member m @ CHR '','' # join '','' (map member ms)" by simp
    from Cons.IH [OF _ len(2)] Cons read_members_one [OF Cons.hyps(1) len(1), of "CHR '',''" "join '','' (map member ms) @ CHR ''}'' # r"]
    show ?thesis unfolding j by (simp add: n)
  qed
qed simp

lemma denotes_obj:
  assumes "list_all2 denotes_member ms kvs"
  shows "denotes (CHR ''{'' # join '','' (map member ms) @ ''}'') (JObj kvs)"
proof -
  have "read_value n (CHR ''{'' # join '','' (map member ms) @ CHR ''}'' # r) = Some (JObj kvs, r)"
    if len: "length (join '','' (map member ms)) + 2 \<le> n" for n r
  proof (cases "ms = []")
    case True
    with assms len show ?thesis by (cases n) simp_all
  next
    case False
    obtain l where n: "n = Suc l" using len by (cases n) auto
    have "\<exists>t. join '','' (map member ms) = CHR 0x22 # t"
      using False by (cases "('','', map member ms)" rule: join.cases) (auto simp: member_def)
    then obtain t where j: "join '','' (map member ms) = CHR 0x22 # t" by blast
    have "read_members l (join '','' (map member ms) @ CHR ''}'' # r) = Some (kvs, r)"
      using len by (intro read_members_join [OF assms False]) (simp add: n)
    with j show ?thesis by (simp add: n)
  qed
  then show ?thesis by (simp add: denotes_def)
qed

section \<open>Numbers\<close>

lemma show_base_digits: "list_all dec_digit (show_base 10 n)"
proof (induction n rule: less_induct)
  case (less n)
  have d: "dec_digit (digit_char k)" if "k < 10" for k
    using that by (simp add: dec_digit_def digit_char_def of_char_of)
  show ?case
  proof (cases "n < 10")
    case True
    then show ?thesis by (subst show_base.simps) (simp add: d)
  next
    case False
    with less [of "n div 10"] show ?thesis by (subst show_base.simps) (simp add: d)
  qed
qed

lemma hd_show_base: "0 < n \<Longrightarrow> hd (show_base 10 n) \<noteq> CHR ''0''"
proof (induction n rule: less_induct)
  case (less n)
  show ?case
  proof (cases "n < 10")
    case True
    have "of_char (digit_char n) = 48 + n" using True by (simp add: digit_char_def of_char_of)
    then have "digit_char n \<noteq> CHR ''0''" using less.prems by auto
    with True show ?thesis by (subst show_base.simps) simp
  next
    case False
    with less.IH [of "n div 10"] show ?thesis
      by (subst show_base.simps) (simp add: hd_append show_base_ne)
  qed
qed

lemma digits_value_append: "digits_value (s @ t) = foldl (\<lambda>n c. 10 * n + (of_char c - 48)) (digits_value s) t"
  by (simp add: digits_value_def)

lemma digits_value_show: "digits_value (show_nat n) = n"
  unfolding show_nat_def
proof (induction n rule: less_induct)
  case (less n)
  have d: "of_char (digit_char k) - 48 = k" if "k < 10" for k
    using that by (simp add: digit_char_def of_char_of)
  show ?case
  proof (cases "n < 10")
    case True
    then show ?thesis by (subst show_base.simps) (simp add: digits_value_def d)
  next
    case False
    with less [of "n div 10"] show ?thesis by (subst show_base.simps) (simp add: digits_value_append d)
  qed
qed

lemma show_nat_zero: "show_nat 0 = ''0''"
  by (simp add: show_nat_def show_base.simps digit_char_def char_of_eq_iff)

lemma show_nat_number: "list_all dec_digit (show_nat n)" "show_nat n \<noteq> []" "1 < length (show_nat n) \<Longrightarrow> hd (show_nat n) \<noteq> CHR ''0''"
proof -
  show "list_all dec_digit (show_nat n)" "show_nat n \<noteq> []" by (simp_all add: show_nat_def show_base_digits show_base_ne)
  show "1 < length (show_nat n) \<Longrightarrow> hd (show_nat n) \<noteq> CHR ''0''"
    using hd_show_base [of n] show_nat_zero by (cases "n = 0") (simp_all add: show_nat_def)
qed

definition number_text :: "bool \<Rightarrow> string \<Rightarrow> string \<Rightarrow> string" where
  "number_text neg ip fp = (if neg then ''-'' else '''') @ ip @ (if fp = [] then [] else CHR ''.'' # fp)"

definition number_value :: "bool \<Rightarrow> string \<Rightarrow> string \<Rightarrow> rat" where
  "number_value neg ip fp = (if neg then - 1 else 1) * (of_nat (digits_value (ip @ fp)) / 10 ^ length fp)"

lemma digit_marks: "dec_digit c \<Longrightarrow> c \<notin> set ''-.,]}{[tfn'' \<and> c \<noteq> CHR 0x22 \<and> \<not> is_blank c"
  by (auto simp: dec_digit_def is_blank_def)

lemma take_digits:
  assumes "list_all dec_digit ds" "r = [] \<or> \<not> dec_digit (hd r)"
  shows "takeWhile dec_digit (ds @ r) = ds" "dropWhile dec_digit (ds @ r) = r"
  using assms by (induction ds) (cases r; simp)+

lemma denotes_number:
  assumes ip: "list_all dec_digit ip" "ip \<noteq> []" "1 < length ip \<Longrightarrow> hd ip \<noteq> CHR ''0''" and fp: "list_all dec_digit fp"
  shows "denotes (number_text neg ip fp) (JNum (number_value neg ip fp))"
proof -
  obtain c t where c: "number_text neg ip fp = c # t" "dec_digit c \<or> c = CHR ''-''" "(c = CHR ''-'') = neg"
  proof (cases neg)
    case True
    then show thesis using that [of "CHR ''-''"] by (simp add: number_text_def)
  next
    case False
    with ip(1,2) digit_marks [of "hd ip"] show thesis by (cases ip) (auto simp: number_text_def intro!: that)
  qed
  have marks: "c \<notin> set ''.,]}{[tfn'' \<and> c \<noteq> CHR 0x22 \<and> \<not> is_blank c" 
  proof (cases "dec_digit c")
    case True
    from digit_marks [OF this] show ?thesis by simp
  next
    case False
    with c(2) show ?thesis by (simp add: is_blank_def)
  qed
  have num: "read_decimal (number_text neg ip fp @ r) = Some (JNum (number_value neg ip fp), r)" if r: "stops r" for r
  proof -
    have r': "r = [] \<or> \<not> dec_digit (hd r) \<and> hd r \<noteq> CHR ''.''" using r by (auto simp: stops_def dec_digit_def)
    define s where "s = ip @ (if fp = [] then [] else CHR ''.'' # fp) @ r"
    have s: "takeWhile dec_digit s = ip" "dropWhile dec_digit s = (if fp = [] then [] else CHR ''.'' # fp) @ r"
      using r' take_digits [OF ip(1), of "(if fp = [] then [] else CHR ''.'' # fp) @ r"]
      by (auto simp: s_def dec_digit_def)
    have neg: "(case number_text neg ip fp @ r of c # _ \<Rightarrow> c = CHR ''-'' | [] \<Rightarrow> False) = neg"
      "(if neg then tl (number_text neg ip fp @ r) else number_text neg ip fp @ r) = s"
      using c by (simp_all add: s_def) (simp_all add: number_text_def)
    show ?thesis
    proof (cases "fp = []")
      case True
      then show ?thesis using ip(2,3) r' unfolding read_decimal_def Let_def neg s
        by (cases r) (auto simp: number_value_def)
    next
      case False
      have "takeWhile dec_digit (fp @ r) = fp" "dropWhile dec_digit (fp @ r) = r" using r' by (auto intro!: take_digits [OF fp])
      with False show ?thesis using ip(2,3) unfolding read_decimal_def Let_def neg s
        by (auto simp: number_value_def)
    qed
  qed
  have "read_value n (number_text neg ip fp @ r) = Some (JNum (number_value neg ip fp), r)"
    if "length (number_text neg ip fp) \<le> n" "stops r" for n r
    using that(1) num [OF that(2)] marks c(1) by (cases n) simp_all
  with c(1) marks show ?thesis by (simp add: denotes_def)
qed

lemma denotes_nat: "denotes (show_nat n) (JNum (of_nat n))"
  using denotes_number [OF show_nat_number [of n], where fp = "[]" and neg = False] by (simp add: number_text_def number_value_def digits_value_show)

section \<open>Decimals\<close>

text \<open>\<open>{:.3}\<close> prints a number to the nearest thousandth.\<close>

definition milli :: "rat \<Rightarrow> rat" where
  "milli q = sgn q * of_int (round_half_even (\<bar>q\<bar> * 1000)) / 1000"

lemma milli_near: "\<bar>milli q - q\<bar> \<le> 1 / 2000"
proof -
  define k where "k = (of_int (round_half_even (\<bar>q\<bar> * 1000)) :: rat)"
  have "k \<le> \<bar>q\<bar> * 1000 + 1 / 2" "\<bar>q\<bar> * 1000 - 1 / 2 \<le> k" unfolding k_def by (rule round_half_even_bounds)+
  then have "\<bar>k / 1000 - \<bar>q\<bar>\<bar> \<le> 1 / 2000" by linarith
  moreover have "0 \<le> k" unfolding k_def using round_half_even_ge_int [of 0 "\<bar>q\<bar> * 1000"] by simp
  ultimately show ?thesis unfolding milli_def k_def [symmetric]
    by (cases "q = 0"; cases "0 < q") (auto simp: sgn_if abs_if field_simps split: if_splits)
qed

lemma digits_value_zeros: "digits_value (replicate k (CHR ''0'') @ s) = digits_value s"
  by (induction k) (simp_all add: digits_value_def)

lemma denotes_fixed: "denotes (fmt_fixed 3 (F64 q)) (JNum (milli q))"
proof -
  define k where "k = nat (round_half_even (\<bar>q\<bar> * 1000))"
  define ds where "ds = replicate (4 - length (show_nat k)) (CHR ''0'') @ show_nat k"
  define i where "i = length ds - 3"
  have k: "of_nat k = (of_int (round_half_even (\<bar>q\<bar> * 1000)) :: rat)"
    using round_half_even_ge_int [of 0 "\<bar>q\<bar> * 1000"] by (simp add: k_def)
  have "4 \<le> length ds" by (simp add: ds_def)
  then have len: "0 < i" "length (drop i ds) = 3" by (simp_all add: i_def)
  have "dec_digit (CHR ''0'')" by (simp add: dec_digit_def)
  then have dig: "list_all dec_digit ds" using show_nat_number(1) [of k] by (auto simp: ds_def list_all_iff)
  then have parts: "list_all dec_digit (take i ds)" "list_all dec_digit (drop i ds)"
    by (auto simp: list_all_iff dest: in_set_takeD in_set_dropD)
  have lead: "hd (take i ds) \<noteq> CHR ''0''" if "1 < length (take i ds)"
  proof -
    have "4 < length ds" using that len by (simp add: i_def)
    then have "4 < length (show_nat k)" by (simp add: ds_def)
    then show ?thesis using show_nat_number(3) [of k] len(1) by (simp add: ds_def)
  qed
  have ne: "take i ds \<noteq> []" "drop i ds \<noteq> []" using len \<open>4 \<le> length ds\<close> by (auto simp: i_def)
  have "fmt_fixed 3 (F64 q) = number_text (q < 0) (take i ds) (drop i ds)"
    using ne(2) by (simp add: fmt_fixed_def number_text_def ds_def i_def k_def Let_def)
  moreover have "number_value (q < 0) (take i ds) (drop i ds) = milli q"
    unfolding number_value_def append_take_drop_id len(2)
    by (simp add: ds_def digits_value_zeros digits_value_show k milli_def sgn_if round_half_even_of_int [of 0, simplified])
  ultimately show ?thesis using denotes_number [OF parts(1) ne(1) lead parts(2), of "q < 0"] by simp
qed

section \<open>The line of an event\<close>

lemma bare_plain_parts:
  "bare (show_nat n)" "bare (show_hex n)"
proof -
  have d: "bare [digit_char k]" if "k < 16" for k
  proof -
    have "list_all (\<lambda>k. bare [digit_char k]) [0..<16]" by (simp add: digit_char_def upt_rec char_of_eq_iff)
    moreover have "k \<in> set [0..<16]" using that by simp
    ultimately show ?thesis unfolding list_all_iff by blast
  qed
  have "bare (show_base b n)" if "2 \<le> b" "b \<le> 16" for b n
    using show_base_chars [OF that, of n] d by (fastforce simp: bare_def list_all_iff)
  then show "bare (show_nat n)" "bare (show_hex n)" by (simp_all add: show_nat_def show_hex_def)
qed

lemma bare_join: "bare sep \<Longrightarrow> list_all bare xs \<Longrightarrow> bare (join sep xs)"
  by (induction sep xs rule: join.induct) auto

lemma bare_ip: "bare (show_ipv4 w)" "bare (show_ipv6 v)"
proof -
  show v4: "bare (show_ipv4 w)" for w
    unfolding show_ipv4_def by (rule bare_join) (auto simp: list_all_iff bare_plain_parts)
  have "bare (show_segments ss)" for ss
    unfolding show_segments_def by (rule bare_join) (auto simp: list_all_iff bare_plain_parts)
  then show "bare (show_ipv6 v)" by (simp add: show_ipv6_def Let_def v4 split: prod.splits)
qed

lemma bare_text [simp]:
  "bare (show_nat n)" "bare (show_endpoint ep)" "bare (kind_str kd)" "bare (severity_str sv)" "bare (proto_str pr)" "bare (show_flow_key k)"
proof -
  show ep: "bare (show_endpoint ep)" for ep by (simp add: show_endpoint_def bare_ip bare_plain_parts split: ip_addr.splits)
  show pr: "bare (proto_str pr)" for pr by (cases pr) simp_all
  show "bare (show_flow_key k)" by (simp add: show_flow_key_def ep pr)
  show "bare (kind_str kd)" by (cases kd) simp_all
  show "bare (severity_str sv)" by (cases sv) simp_all
qed (simp add: bare_plain_parts)

lemma bare_take_drop: "bare s \<Longrightarrow> bare (take n s)" "bare s \<Longrightarrow> bare (drop n s)"
  by (auto simp: bare_def list_all_iff dest: in_set_takeD in_set_dropD)

lemma bare_fmt_fixed [simp]: "bare (fmt_fixed n v)"
proof (cases v)
  case (F64 q)
  have "bare (replicate k (CHR ''0''))" for k by (induction k) simp_all
  then show ?thesis by (simp add: F64 fmt_fixed_def Let_def bare_take_drop del: take_append drop_append)
qed (simp_all add: fmt_fixed_def)

definition event_json :: "l4_event \<Rightarrow> rat \<Rightarrow> json" where
  "event_json e v = JObj
     [(''ts_ns'', JNum (of_nat (unat (ev_ts e)))), (''kind'', JStr (kind_str (ev_kind e))),
      (''severity'', JStr (severity_str (ev_severity e))), (''proto'', JStr (proto_str (key_proto (ev_key e)))),
      (''low'', JStr (show_endpoint (low (ev_key e)))), (''high'', JStr (show_endpoint (high (ev_key e)))),
      (''value'', JNum v), (''detail'', JStr (ev_detail e))]"

lemma denotes_event:
  assumes "ev_value e = F64 q" "writable (ev_detail e)"
  shows "denotes (to_json e) (event_json e (milli q))"
proof -
  let ?q = "\<lambda>t. CHR 0x22 # t @ [CHR 0x22]"
  let ?ms = "[(''ts_ns'', show_nat (unat (ev_ts e))), (''kind'', ?q (kind_str (ev_kind e))),
    (''severity'', ?q (severity_str (ev_severity e))), (''proto'', ?q (proto_str (key_proto (ev_key e)))),
    (''low'', ?q (show_endpoint (low (ev_key e)))), (''high'', ?q (show_endpoint (high (ev_key e)))),
    (''value'', fmt_fixed 3 (F64 q)), (''detail'', ?q (esc (ev_detail e)))]"
  have "to_json e = CHR ''{'' # join '','' (map member ?ms) @ ''}''"
    by (simp add: to_json_def member_def assms(1) esc_json_escape)
  then show ?thesis unfolding event_json_def
    by (simp only:) (rule denotes_obj, simp add: denotes_member_def denotes_nat [of "unat (ev_ts e)", simplified] denotes_bare denotes_fixed denotes_esc [OF assms(2)])
qed

text \<open>Every event of the engine has a finite value and a detail that needs no escape.\<close>

definition printable :: "l4_event \<Rightarrow> bool" where
  "printable e \<longleftrightarrow> (\<exists>q. ev_value e = F64 q) \<and> bare (ev_detail e)"

lemma printable_new [simp]: "printable (l4_event_new t kd sv k v m) \<longleftrightarrow> (\<exists>q. v = F64 q) \<and> bare m"
  by (simp add: printable_def l4_event_new_def)

lemma finite_rat: "0 \<le> x \<Longrightarrow> x \<le> 2 ^ 1000 \<Longrightarrow> \<exists>q. f64_of_rat x = F64 q"
  by (simp add: f64_of_rat_rnd)

lemma finite_ratio:
  assumes "0 < d" "n < 2 ^ 64" "d < 2 ^ 64"
  shows "\<exists>q. f64_div (f64_of_nat n) (f64_of_nat d) = F64 q"
proof -
  let ?n = "rnd (of_nat n)" and ?d = "rnd (of_nat d)"
  have n: "0 \<le> ?n" "?n \<le> 2 ^ 64" using rnd_u64_le [OF assms(2)] by (simp_all add: rnd_nonneg)
  have d: "1 \<le> ?d" using rnd_mono [of 1 "of_nat d"] rnd_nat [of 1] assms(1) by simp
  have "?n / ?d \<le> ?n" using n(1) d by (simp add: divide_le_eq mult_le_cancel_left1)
  also have "\<dots> \<le> 2 ^ 1000" using n(2) by (rule order_trans) simp
  finally have "\<exists>q. f64_of_rat (?n / ?d) = F64 q" using n(1) d by (intro finite_rat) simp_all
  then show ?thesis using assms(2,3) d by (simp add: f64_of_nat_rnd)
qed

lemma finite_values:
  "\<exists>q. retransmit_ratio f = F64 q" "\<exists>q. waited_secs now f = F64 q"
  "\<exists>q. f64_mul (ns_to_secs_f64 n) (f64_of_rat 1000) = F64 q" "\<exists>q. f64_of_nat (unat (w :: u32)) = F64 q"
  "\<exists>q. f64_of_rat 0 = F64 q" "\<exists>q. f64_of_rat 1 = F64 q" "window_secs r = 1 \<Longrightarrow> \<exists>q. per_sec r now = F64 q"
proof -
  show "\<exists>q. retransmit_ratio f = F64 q"
    using finite_ratio [of "unat (data_segments f)" "unat (retransmits f)"] unat_u64_less
    by (simp add: retransmit_ratio_def unat_gt_0)
  have "unat NS_PER_SEC = 1000000000" by (simp add: NS_PER_SEC_def)
  then show "\<exists>q. waited_secs now f = F64 q"
    unfolding waited_secs_def by (intro finite_ratio unat_u64_less) simp
  show "\<exists>q. f64_mul (ns_to_secs_f64 n) (f64_of_rat 1000) = F64 q"
    using rtt_ms_eq [of n] by (simp add: rtt_ms_def)
  have "unat w < 2 ^ 32" using unsigned_less [of w] by simp
  then have "unat w < 2 ^ 53" by simp
  then show "\<exists>q. f64_of_nat (unat w) = F64 q" by (simp add: f64_of_nat_exact)
  show "\<exists>q. f64_of_rat 0 = F64 q" "\<exists>q. f64_of_rat 1 = F64 q" by (simp_all add: finite_rat)
  show "window_secs r = 1 \<Longrightarrow> \<exists>q. per_sec r now = F64 q"
    unfolding per_sec_def by (intro finite_ratio unat_u64_less) simp
qed

definition unit_rates :: "globals \<Rightarrow> bool" where
  "unit_rates g \<longleftrightarrow> window_secs (rst_rate g) = 1 \<and> window_secs (new_flow_rate g) = 1"

lemma printable_inspect:
  assumes "unit_rates (ctx_globals c)" "snd (inspect d c p) = Some e"
  shows "printable e"
  using assms finite_values
  by (cases d) (auto simp: inspect_defs unit_rates_def Let_def split: if_splits option.splits prod.splits)

lemma printable_chain:
  "unit_rates (ctx_globals c) \<Longrightarrow> e \<in> set (snd (run_chain inspect c p ds)) \<Longrightarrow> printable e"
  using printable_inspect [of c] by (induction ds) (auto simp: case_prod_beta Let_def split: option.splits)

lemma unit_rates_fold: "window_secs (fold rr_record ts r) = window_secs r"
  by (induction ts arbitrary: r) (simp_all add: rr_record_def Let_def)

lemma unit_rates_reached: "unit_rates (es_globals (next_state (eng_state (reached cfg acts)) p))"
proof -
  have "unit_rates (es_globals (eng_state (reached cfg acts)))"
    by (simp add: unit_rates_def rs.run_rate cc.run_rate unit_rates_fold)
      (simp add: engine_new_def engine_state_new_def globals_new_def rolling_rate_new_def)
  then show ?thesis by (simp add: unit_rates_def rs.rate_next cc.rate_next rr_record_def Let_def)
qed

lemma printable_run: "list_all printable (snd (engine_run (engine_new cfg) acts))"
proof (induction acts rule: rev_induct)
  case (snoc a acts)
  let ?e = "reached cfg acts"
  have sw: "list_all printable (snd (sweep e t))" if "keys_distinct (table e)" for e t
    by (auto simp: sweep_events [OF that] list_all_iff timeout_event_def finite_values)
  have "list_all printable (snd (engine_step ?e a))"
  proof (cases a)
    case (Packet p)
    have "list_all printable (snd (chain_run ?e p))"
      using printable_chain [of "ctx_of ?e p"] unit_rates_reached [of cfg acts p]
      by (auto simp: list_all_iff chain_run_def ctx_of_def ctx_globals_def)
    then show ?thesis by (simp add: Packet process_eq sw reached_keys)
  next
    case (Sweep t)
    then show ?thesis by (simp add: sw reached_keys)
  qed
  with snoc show ?case by (simp add: run_machine_append case_prod_beta Let_def)
qed simp

section \<open>The metrics of a push\<close>

text \<open>A rate that is a whole number below \<open>10 ^ 15\<close> is printed with all its digits.\<close>

lemma show_nat_times10: "0 < m \<Longrightarrow> show_nat (m * 10 ^ k) = show_nat m @ replicate k (CHR ''0'')"
proof (induction k)
  case (Suc k)
  have "show_nat (10 * j) = show_nat j @ ''0''" if "0 < j" for j
    using that unfolding show_nat_def by (subst show_base.simps) (simp add: digit_char_def char_of_eq_iff)
  from this [of "m * 10 ^ k"] Suc show ?case
    by (simp add: ac_simps replicate_append_same [symmetric])
qed simp

lemma length_show_nat: "10 ^ (length (show_nat n) - 1) \<le> max 1 n \<and> n < 10 ^ length (show_nat n)"
  unfolding show_nat_def
proof (induction n rule: less_induct)
  case (less n)
  show ?case
  proof (cases "n < 10")
    case True
    then show ?thesis by (subst (1 2) show_base.simps) simp
  next
    case False
    let ?l = "length (show_base 10 (n div 10))"
    have l: "0 < ?l" using show_base_ne [of 10 "n div 10"] by simp
    from less.IH [of "n div 10"] False have IH: "10 ^ (?l - 1) \<le> n div 10" "n div 10 < 10 ^ ?l" by simp_all
    then have "10 * 10 ^ (?l - 1) \<le> n" "n < 10 * 10 ^ ?l" by linarith+
    moreover have "(10 :: nat) * 10 ^ (?l - 1) = 10 ^ ?l" using l by (simp flip: power_Suc)
    ultimately show ?thesis using False by (subst (1 2) show_base.simps) simp
  qed
qed

lemma show_f64_nat:
  assumes "n < 10 ^ 15"
  shows "show_f64 (F64 (of_nat n)) = show_nat n"
proof (cases "n = 0")
  case True
  then show ?thesis by (simp add: show_f64_def show_nat_zero)
next
  case False
  define l where "l = length (show_nat n)"
  have l: "0 < l" "10 ^ (l - 1) \<le> n" "n < 10 ^ l"
    using length_show_nat [of n] show_nat_number(2) [of n] False by (simp_all add: l_def)
  have "(10 :: nat) ^ (l - 1) < 10 ^ 15" using l(2) assms by linarith
  then have "l - 1 < 15" by (rule power_less_imp_less_exp [rotated]) simp
  then have l15: "l \<le> 15" by simp
  define dg where "dg d = sig_digits (of_nat n) d" for d
  have e: "dec_exponent 400 (of_nat n) = int l - 1"
  proof -
    have "(1 :: rat) \<le> of_nat n" "nat \<lfloor>of_nat n :: rat\<rfloor> = n" using False by simp_all
    then have "dec_exponent (Suc 399) (of_nat n) = int l - 1" by (subst dec_exponent.simps(2)) (simp only: if_True l_def)
    moreover have "Suc 399 = 400" by simp
    ultimately show ?thesis by (simp only:)
  qed
  have dg: "dg d = (nat (round_half_even (of_nat n / 10 ^ (l - d))), int (l - d))" if "1 \<le> d" "d \<le> l" for d
  proof -
    have s: "dec_exponent 400 (of_nat n) - int d + 1 = int (l - d)" unfolding e using that(2) by linarith
    show ?thesis unfolding dg_def sig_digits_def Let_def s by (simp only: power_int_minus power_int_of_nat divide_inverse)
  
  qed
  let ?ok = "\<lambda>d. let (m, s) = dg d in f64_of_rat (of_nat m * 10 powi s) = F64 (of_nat n)"
  have n53: "n < 2 ^ 53" using assms by simp
  have "?ok l" using f64_of_nat_exact [OF n53] l(1) round_half_even_of_int [of "int n"]
    by (simp add: dg f64_of_nat_def)
  have "[1..<18] ! (l - 1) = l" using l(1) l15 by simp
  with \<open>?ok l\<close> have at: "l - 1 < length [1..<18]" "?ok ([1..<18] ! (l - 1))" using l15 by simp_all
  obtain d where d: "find ?ok [1..<18] = Some d" using at l15 by (cases "find ?ok [1..<18]") (auto simp: find_None_iff)
  then obtain i where "i < length [1..<18]" "?ok ([1..<18] ! i)" "d = [1..<18] ! i" "\<forall>j<i. \<not> ?ok ([1..<18] ! j)"
    unfolding find_Some_iff by blast
  then have i: "i < 17" "?ok d" "d = Suc i" "\<forall>j<i. \<not> ?ok (Suc j)" by simp_all
  have "?ok (Suc (l - 1))" using \<open>?ok l\<close> l(1) by simp
  then have "\<not> l - 1 < i" using i(4) by blast
  then have dl: "1 \<le> d" "d \<le> l" using i(3) l(1) by linarith+
  define m where "m = nat (round_half_even (of_nat n / 10 ^ (l - d)))"
  have dgd: "dg d = (m, int (l - d))" by (simp add: dg [OF dl] m_def)
  have "of_nat n / 10 ^ (l - d) \<le> (of_int (10 ^ d) :: rat)"
  proof -
    have "(of_nat n :: rat) \<le> of_nat (10 ^ l)" using l(3) unfolding of_nat_le_iff by simp
    then show ?thesis using dl by (simp add: divide_le_eq flip: power_add)
  qed
  then have "round_half_even (of_nat n / 10 ^ (l - d)) \<le> 10 ^ d" by (rule round_half_even_le_int)
  then have "m \<le> 10 ^ d" by (simp add: m_def nat_le_iff)
  then have "m * 10 ^ (l - d) \<le> 10 ^ d * 10 ^ (l - d)" by simp
  also have "\<dots> = 10 ^ l" using dl by (simp flip: power_add)
  also have "\<dots> \<le> 10 ^ 15" using l15 by (intro power_increasing) simp_all
  finally have "m * 10 ^ (l - d) < 2 ^ 53" by simp
  from f64_of_nat_exact [OF this] i(2) have mn: "m * 10 ^ (l - d) = n"
    by (simp add: dgd f64_of_nat_def) (metis of_nat_eq_iff of_nat_mult of_nat_numeral of_nat_power)
  with False have "0 < m" by (cases m) simp_all
  have "shortest (of_nat n) = (m, int (l - d))" using d dgd unfolding shortest_def dg_def [symmetric] by simp
  then show ?thesis using False show_nat_times10 [OF \<open>0 < m\<close>, of "l - d"] by (simp add: show_f64_def mn)
qed

text \<open>The rates of the engine have a window of one second.\<close>

lemma whole_rate:
  assumes "window_secs r = 1" "unat (count_window r now) < 10 ^ 15"
  shows "per_sec r now = F64 (of_nat (unat (count_window r now)))"
proof -
  have "unat (count_window r now) < 2 ^ 53" using assms(2) by simp
  then show ?thesis using f64_of_nat_exact [of 1] f64_of_nat_exact [of "unat (count_window r now)"] assms(1)
    by (simp add: per_sec_def) (simp add: f64_of_nat_def)
qed

text \<open>The document of a push, after the OTLP mapping of metrics to JSON: integers of 64 bits are strings.\<close>

definition attr_json :: "string \<times> string \<Rightarrow> json" where
  "attr_json kv = JObj [(''key'', JStr (fst kv)), (''value'', JObj [(''stringValue'', JStr (snd kv))])]"

definition count_json :: "u64 \<Rightarrow> u64 \<Rightarrow> u64 \<Rightarrow> (string \<times> string) list \<Rightarrow> json" where
  "count_json v start now attrs = JObj [(''asInt'', JStr (show_u64 v)), (''startTimeUnixNano'', JStr (show_u64 start)),
     (''timeUnixNano'', JStr (show_u64 now)), (''attributes'', JArr (map attr_json attrs))]"

definition level_json :: "string \<times> json \<Rightarrow> u64 \<Rightarrow> json" where
  "level_json v now = JObj [v, (''timeUnixNano'', JStr (show_u64 now)), (''attributes'', JArr [])]"

definition sum_json :: "string \<Rightarrow> json list \<Rightarrow> json" where
  "sum_json nm points = JObj [(''name'', JStr nm), (''unit'', JStr ''1''),
     (''sum'', JObj [(''aggregationTemporality'', JNum 2), (''isMonotonic'', JBool True), (''dataPoints'', JArr points)])]"

definition gauge_json :: "string \<Rightarrow> string \<Rightarrow> json \<Rightarrow> json" where
  "gauge_json nm un point = JObj [(''name'', JStr nm), (''unit'', JStr un), (''gauge'', JObj [(''dataPoints'', JArr [point])])]"

definition unless_none :: "'a list \<Rightarrow> ('a list \<Rightarrow> json) \<Rightarrow> json list" where
  "unless_none xs f = (if xs = [] then [] else [f xs])"

definition metrics_json :: "metrics_snapshot \<Rightarrow> u64 \<Rightarrow> u64 \<Rightarrow> nat \<Rightarrow> nat \<Rightarrow> json list" where
  "metrics_json snap start now rsts opens =
     [sum_json ''l4scope.packets'' [count_json (sn_packets_total snap) start now []]] @
     unless_none (sn_event_counts snap) (\<lambda>xs. sum_json ''l4scope.events''
       (map (\<lambda>(k, s, n). count_json n start now [(''l4.kind'', k), (''severity'', s)]) xs)) @
     unless_none (sn_pod_event_counts snap) (\<lambda>xs. sum_json ''l4scope.pod.events''
       (map (\<lambda>(ip, k, s, n). count_json n start now [(''k8s.pod.ip'', ip), (''l4.kind'', k), (''severity'', s)]) xs)) @
     unless_none (sn_pod_packets snap) (\<lambda>xs. sum_json ''l4scope.pod.packets''
       (map (\<lambda>(ip, n). count_json n start now [(''k8s.pod.ip'', ip)]) xs)) @
     [gauge_json ''l4scope.active_flows'' ''1'' (level_json (''asInt'', JStr (show_u64 (sn_active_flows snap))) now),
      gauge_json ''l4scope.half_open_max'' ''1'' (level_json (''asInt'', JStr (show_u64 (sn_half_open_max snap))) now),
      gauge_json ''l4scope.rst_per_second'' ''1/s'' (level_json (''asDouble'', JNum (of_nat rsts)) now),
      gauge_json ''l4scope.new_flows_per_second'' ''1/s'' (level_json (''asDouble'', JNum (of_nat opens)) now)]"

definition push_json :: "(string \<times> string) list \<Rightarrow> json list \<Rightarrow> json" where
  "push_json attrs ms =
     JObj [(''resourceMetrics'', JArr [JObj [
       (''resource'', JObj [(''attributes'', JArr (map attr_json attrs))]),
       (''scopeMetrics'', JArr [JObj [
         (''scope'', JObj [(''name'', JStr ''l4scope''), (''version'', JStr ''0.1.0'')]),
         (''metrics'', JArr ms)]])]])]"

text \<open>The labels that the snapshot carries can be written.\<close>

definition writable_labels :: "metrics_snapshot \<Rightarrow> bool" where
  "writable_labels snap \<longleftrightarrow>
     list_all (\<lambda>(k, s, n). writable k \<and> writable s) (sn_event_counts snap) \<and>
     list_all (\<lambda>(ip, k, s, n). writable ip \<and> writable k \<and> writable s) (sn_pod_event_counts snap) \<and>
     list_all (\<lambda>(ip, n). writable ip) (sn_pod_packets snap)"

abbreviation quoted_text :: "string \<Rightarrow> string" where
  "quoted_text t \<equiv> CHR 0x22 # t @ [CHR 0x22]"

abbreviation object_text :: "(string \<times> string) list \<Rightarrow> string" where
  "object_text ms \<equiv> CHR ''{'' # join '','' (map member ms) @ ''}''"

abbreviation array_text :: "string list \<Rightarrow> string" where
  "array_text ss \<equiv> CHR ''['' # join '','' ss @ '']''"

lemmas denotes_simps = denotes_member_def denotes_bare denotes_esc denotes_true

lemma denotes_attr:
  assumes "writable (fst kv)" "writable (snd kv)"
  shows "denotes (attr_str kv) (attr_json kv)"
proof -
  have "attr_str kv = object_text [(''key'', quoted_text (esc (fst kv))),
      (''value'', object_text [(''stringValue'', quoted_text (esc (snd kv)))])]"
    by (simp add: attr_str_def member_def case_prod_beta)
  moreover have "denotes (object_text [(''stringValue'', quoted_text (esc (snd kv)))]) (JObj [(''stringValue'', JStr (snd kv))])"
    by (rule denotes_obj) (simp add: denotes_simps assms)
  ultimately show ?thesis unfolding attr_json_def
    by (simp only:) (rule denotes_obj, simp add: denotes_simps assms)
qed

lemma denotes_map:
  assumes "list_all P xs" "\<And>x. P x \<Longrightarrow> denotes (f x) (g x)"
  shows "denotes (array_text (map f xs)) (JArr (map g xs))"
  using assms by (intro denotes_arr) (auto simp: list_all2_map1 list_all2_map2 list_all_iff list_all2_same)

definition writable_pair :: "string \<times> string \<Rightarrow> bool" where
  "writable_pair kv \<longleftrightarrow> writable (fst kv) \<and> writable (snd kv)"

lemma denotes_attrs: "list_all writable_pair attrs \<Longrightarrow> denotes (array_text (map attr_str attrs)) (JArr (map attr_json attrs))"
  by (rule denotes_map [of writable_pair]) (simp_all add: writable_pair_def denotes_attr)

lemma denotes_u64: "denotes (quoted_text (show_u64 n)) (JStr (show_u64 n))"
  by (simp add: denotes_bare show_u64_def)

lemma denotes_count:
  assumes "list_all writable_pair attrs"
  shows "denotes (sum_dp_int v start now (attrs_array attrs)) (count_json v start now attrs)"
proof -
  have "sum_dp_int v start now (attrs_array attrs) = object_text [(''asInt'', quoted_text (show_u64 v)),
      (''startTimeUnixNano'', quoted_text (show_u64 start)), (''timeUnixNano'', quoted_text (show_u64 now)),
      (''attributes'', array_text (map attr_str attrs))]"
    by (simp add: sum_dp_int_def attrs_array_def member_def)
  then show ?thesis unfolding count_json_def
    by (simp only:) (rule denotes_obj, simp add: denotes_member_def denotes_u64 denotes_attrs [OF assms])
qed

lemma denotes_level:
  "denotes (gauge_dp_int v now) (level_json (''asInt'', JStr (show_u64 v)) now)"
  "n < 10 ^ 15 \<Longrightarrow> denotes (gauge_dp_double (F64 (of_nat n)) now) (level_json (''asDouble'', JNum (of_nat n)) now)"
proof -
  have e: "denotes ''[]'' (JArr [])" using denotes_arr [of "[]" "[]"] by simp
  have "gauge_dp_int v now = object_text [(''asInt'', quoted_text (show_u64 v)), (''timeUnixNano'', quoted_text (show_u64 now)),
      (''attributes'', ''[]'')]"
    by (simp add: gauge_dp_int_def member_def)
  then show "denotes (gauge_dp_int v now) (level_json (''asInt'', JStr (show_u64 v)) now)" unfolding level_json_def
    by (simp only:) (rule denotes_obj, simp add: denotes_member_def denotes_u64 e)
  assume n: "n < 10 ^ 15"
  have "gauge_dp_double (F64 (of_nat n)) now = object_text [(''asDouble'', show_nat n), (''timeUnixNano'', quoted_text (show_u64 now)),
      (''attributes'', ''[]'')]"
    by (simp add: gauge_dp_double_def member_def show_f64_nat [OF n])
  then show "denotes (gauge_dp_double (F64 (of_nat n)) now) (level_json (''asDouble'', JNum (of_nat n)) now)" unfolding level_json_def
    by (simp only:) (rule denotes_obj, simp add: denotes_member_def denotes_u64 denotes_nat e)
qed

lemma denotes_sum:
  assumes "bare nm" "list_all2 denotes dps points"
  shows "denotes (metric_sum nm ''1'' dps) (sum_json nm points)"
proof -
  have two: "denotes ''2'' (JNum 2)" 
  proof -
    have "show_nat 2 = ''2''" by (simp add: show_nat_def show_base.simps digit_char_def char_of_eq_iff)
    then show ?thesis using denotes_nat [of 2] by simp
  qed
  have "metric_sum nm ''1'' dps = object_text [(''name'', quoted_text nm), (''unit'', quoted_text ''1''),
      (''sum'', object_text [(''aggregationTemporality'', ''2''), (''isMonotonic'', ''true''), (''dataPoints'', array_text dps)])]"
    by (simp add: metric_sum_def member_def)
  moreover have "denotes (object_text [(''aggregationTemporality'', ''2''), (''isMonotonic'', ''true''), (''dataPoints'', array_text dps)])
      (JObj [(''aggregationTemporality'', JNum 2), (''isMonotonic'', JBool True), (''dataPoints'', JArr points)])"
    by (rule denotes_obj) (simp add: denotes_simps two denotes_arr [OF assms(2)])
  ultimately show ?thesis unfolding sum_json_def
    by (simp only:) (rule denotes_obj, simp add: denotes_member_def denotes_bare assms(1) denotes_bare [of "''1''", simplified])
qed

lemma denotes_gauge:
  assumes "bare nm" "bare un" "denotes dp point"
  shows "denotes (metric_gauge nm un [dp]) (gauge_json nm un point)"
proof -
  have "metric_gauge nm un [dp] = object_text [(''name'', quoted_text nm), (''unit'', quoted_text un),
      (''gauge'', object_text [(''dataPoints'', array_text [dp])])]"
    by (simp add: metric_gauge_def member_def)
  moreover have "denotes (object_text [(''dataPoints'', array_text [dp])]) (JObj [(''dataPoints'', JArr [point])])"
    using denotes_arr [of "[dp]" "[point]"] assms(3) by (intro denotes_obj) (simp add: denotes_member_def)
  ultimately show ?thesis unfolding gauge_json_def
    by (simp only:) (rule denotes_obj, simp add: denotes_member_def denotes_bare assms)
qed

definition metric_texts :: "metrics_snapshot \<Rightarrow> u64 \<Rightarrow> u64 \<Rightarrow> string list" where
  "metric_texts snap start now =
     [metric_sum ''l4scope.packets'' ''1'' [sum_dp_int (sn_packets_total snap) start now (attrs_array [])]] @
     unless_empty (map (\<lambda>(k, s, n). sum_dp_int n start now (attrs_array [(''l4.kind'', k), (''severity'', s)]))
       (sn_event_counts snap)) (metric_sum ''l4scope.events'' ''1'') @
     unless_empty (map (\<lambda>(ip, k, s, n). sum_dp_int n start now
       (attrs_array [(''k8s.pod.ip'', ip), (''l4.kind'', k), (''severity'', s)])) (sn_pod_event_counts snap))
       (metric_sum ''l4scope.pod.events'' ''1'') @
     unless_empty (map (\<lambda>(ip, n). sum_dp_int n start now (attrs_array [(''k8s.pod.ip'', ip)])) (sn_pod_packets snap))
       (metric_sum ''l4scope.pod.packets'' ''1'') @
     [metric_gauge ''l4scope.active_flows'' ''1'' [gauge_dp_int (sn_active_flows snap) now],
      metric_gauge ''l4scope.half_open_max'' ''1'' [gauge_dp_int (sn_half_open_max snap) now],
      metric_gauge ''l4scope.rst_per_second'' ''1/s'' [gauge_dp_double (sn_rst_per_sec snap) now],
      metric_gauge ''l4scope.new_flows_per_second'' ''1/s'' [gauge_dp_double (sn_new_flow_per_sec snap) now]]"

lemma build_body_texts:
  "build_body snap attrs start now =
     ''{\"resourceMetrics\":[{\"resource\":{\"attributes\":['' @ join '','' (map attr_str attrs) @
     '']},\"scopeMetrics\":[{\"scope\":{\"name\":\"l4scope\",\"version\":\"0.1.0\"},\"metrics\":['' @
     join '','' (metric_texts snap start now) @ '']}]}]}''"
proof -
  have e: "attrs_array [] = ''[]''" by (simp add: attrs_array_def)
  show ?thesis unfolding build_body_def metric_texts_def e Let_def by (rule refl)
qed

lemma denotes_sum_points:
  assumes "bare nm" "list_all2 denotes dps (map g xs)"
  shows "list_all2 denotes (unless_empty dps (metric_sum nm ''1'')) (unless_none xs (\<lambda>xs. sum_json nm (map g xs)))"
  using assms denotes_sum [OF assms] by (cases xs) (auto simp: unless_empty_def unless_none_def list_all2_Cons2)

lemma denotes_metrics:
  assumes "writable_labels snap" "a < 10 ^ 15" "b < 10 ^ 15"
    "sn_rst_per_sec snap = F64 (of_nat a)" "sn_new_flow_per_sec snap = F64 (of_nat b)"
  shows "list_all2 denotes (metric_texts snap start now) (metrics_json snap start now a b)"
proof -
  note map_simps = writable_labels_def list_all2_map1 list_all2_map2 list_all_iff list_all2_same writable_pair_def
  have "list_all2 denotes (map (\<lambda>(k, s, n). sum_dp_int n start now (attrs_array [(''l4.kind'', k), (''severity'', s)])) (sn_event_counts snap))
      (map (\<lambda>(k, s, n). count_json n start now [(''l4.kind'', k), (''severity'', s)]) (sn_event_counts snap))"
    using assms(1) by (auto simp: map_simps intro!: denotes_count)
  note ev = denotes_sum_points [OF _ this]
  have "list_all2 denotes (map (\<lambda>(ip, k, s, n). sum_dp_int n start now (attrs_array [(''k8s.pod.ip'', ip), (''l4.kind'', k), (''severity'', s)]))
        (sn_pod_event_counts snap))
      (map (\<lambda>(ip, k, s, n). count_json n start now [(''k8s.pod.ip'', ip), (''l4.kind'', k), (''severity'', s)]) (sn_pod_event_counts snap))"
    using assms(1) by (auto simp: map_simps intro!: denotes_count)
  note pe = denotes_sum_points [OF _ this]
  have "list_all2 denotes (map (\<lambda>(ip, n). sum_dp_int n start now (attrs_array [(''k8s.pod.ip'', ip)])) (sn_pod_packets snap))
      (map (\<lambda>(ip, n). count_json n start now [(''k8s.pod.ip'', ip)]) (sn_pod_packets snap))"
    using assms(1) by (auto simp: map_simps intro!: denotes_count)
  note pp = denotes_sum_points [OF _ this]
  show ?thesis unfolding metric_texts_def metrics_json_def assms(4,5)
    by (intro list_all2_appendI ev pe pp list.rel_intros denotes_sum denotes_gauge denotes_level denotes_count assms(2,3)) simp_all
qed

lemma denotes_body:
  assumes "list_all writable_pair attrs" "list_all2 denotes (metric_texts snap start now) ms"
  shows "denotes (build_body snap attrs start now) (push_json attrs ms)"
proof -
  let ?res = "object_text [(''attributes'', array_text (map attr_str attrs))]"
  let ?scope = "object_text [(''name'', quoted_text ''l4scope''), (''version'', quoted_text ''0.1.0'')]"
  let ?sm = "object_text [(''scope'', ?scope), (''metrics'', array_text (metric_texts snap start now))]"
  let ?rm = "object_text [(''resource'', ?res), (''scopeMetrics'', array_text [?sm])]"
  have txt_eq: "build_body snap attrs start now = object_text [(''resourceMetrics'', array_text [?rm])]"
    by (simp add: build_body_texts member_def)
  have res: "denotes ?res (JObj [(''attributes'', JArr (map attr_json attrs))])"
    by (rule denotes_obj) (simp add: denotes_member_def denotes_attrs [OF assms(1)])
  have q: "denotes (quoted_text ''l4scope'') (JStr ''l4scope'')" "denotes (quoted_text ''0.1.0'') (JStr ''0.1.0'')"
    by (rule denotes_bare, simp)+
  have scope: "denotes ?scope (JObj [(''name'', JStr ''l4scope''), (''version'', JStr ''0.1.0'')])"
    using q by (intro denotes_obj) (simp add: denotes_member_def)
  have one: "denotes (array_text [s]) (JArr [v])" if "denotes s v" for s v
    using denotes_arr [of "[s]" "[v]"] that by simp
  have sm: "denotes ?sm (JObj [(''scope'', JObj [(''name'', JStr ''l4scope''), (''version'', JStr ''0.1.0'')]), (''metrics'', JArr ms)])"
    by (rule denotes_obj) (simp only: denotes_member_def list.rel_inject fst_conv snd_conv scope denotes_arr [OF assms(2)], simp)
  have "denotes ?rm (JObj [(''resource'', JObj [(''attributes'', JArr (map attr_json attrs))]),
      (''scopeMetrics'', JArr [JObj [(''scope'', JObj [(''name'', JStr ''l4scope''), (''version'', JStr ''0.1.0'')]), (''metrics'', JArr ms)]])])"
    by (rule denotes_obj) (simp only: denotes_member_def list.rel_inject fst_conv snd_conv res one [OF sm], simp)
  from one [OF this] show ?thesis unfolding txt_eq push_json_def
    by (intro denotes_obj) (simp only: denotes_member_def list.rel_inject fst_conv snd_conv, simp)
qed

section \<open>Properties\<close>

text \<open>C29: the body of a push is a JSON document. A reader that follows the grammar of JSON, and knows nothing of
  the exporter, reads it to the end and finds the resource with its attributes, the scope, and the
  metrics of the snapshot with every name, label and number: counts as strings of digits, the two
  rates as numbers. Hypotheses: attributes and labels have no control characters but newline, carriage
  return and tab (the only ones the exporter escapes), and the rates are whole numbers
  below \<open>10 ^ 15\<close>, as a window of one second gives.\<close>

theorem otlp_body_read_back:
  assumes "list_all (\<lambda>kv. writable (fst kv) \<and> writable (snd kv)) attrs" "writable_labels snap"
    "sn_rst_per_sec snap = F64 (of_nat a)" "a < 10 ^ 15" "sn_new_flow_per_sec snap = F64 (of_nat b)" "b < 10 ^ 15"
  shows "read_json (build_body snap attrs start now) = Some (push_json attrs (metrics_json snap start now a b))"
proof (rule denotes_read, rule denotes_body)
  show "list_all writable_pair attrs" using assms(1) by (simp add: writable_pair_def list_all_iff)
qed (rule denotes_metrics [OF assms(2,4,6,3,5)])

definition example_snapshot :: metrics_snapshot where
  "example_snapshot = \<lparr>sn_packets_total = 7, sn_events_total = 1, sn_event_counts = [(''zero_window'', ''warning'', 1)],
     sn_pod_event_counts = [], sn_pod_packets = [(''10.0.0.1'', 7)], sn_active_flows = 1, sn_half_open_max = 0,
     sn_rst_per_sec = F64 0, sn_new_flow_per_sec = F64 3\<rparr>"

theorem otlp_body_read_back_witness:
  "read_json (build_body example_snapshot [(''node'', [CHR 0x22, CHR 0x5C, CHR 0x0A])] 1 2) =
     Some (push_json [(''node'', [CHR 0x22, CHR 0x5C, CHR 0x0A])] (metrics_json example_snapshot 1 2 0 3))"
  by (rule otlp_body_read_back) (simp_all add: example_snapshot_def writable_labels_def)

text \<open>The other control characters go into the document as they are, and no JSON reader accepts it.\<close>

lemma control_character_rejected: "read_json (attr_str (''k'', [CHR 0x01])) = None"
  by (simp add: attr_str_def esc_def read_json_def eval_nat_numeral is_blank_def read_string_def)

text \<open>C39: each line of the event stream is a JSON object. The reader finds the eight fields, with the time as
  an exact number, the value to within half a thousandth, and the detail as it was before it was
  escaped; and every event that the engine ever reports has a finite value and a detail that can be written.\<close>

theorem event_line_read_back:
  "(ev_value e = F64 q \<and> writable (ev_detail e) \<longrightarrow>
     read_json (to_json e) = Some (event_json e (milli q)) \<and> \<bar>milli q - q\<bar> \<le> 1 / 2000) \<and>
   list_all (\<lambda>ev. (\<exists>v. ev_value ev = F64 v) \<and> writable (ev_detail ev)) (snd (engine_run (engine_new cfg) acts))"
  using denotes_read [OF denotes_event, of e q] milli_near [of q] printable_run [of cfg acts]
  by (auto simp: printable_def list_all_iff bare_writable)

theorem event_line_read_back_witness:
  "read_json (to_json (l4_event_new 5 ZeroWindow Warning example_key (F64 (1 / 3)) [CHR 0x22, CHR 0x5C])) =
     Some (event_json (l4_event_new 5 ZeroWindow Warning example_key (F64 (1 / 3)) [CHR 0x22, CHR 0x5C]) (333 / 1000))"
proof -
  let ?e = "l4_event_new 5 ZeroWindow Warning example_key (F64 (1 / 3)) [CHR 0x22, CHR 0x5C]"
  have "\<lfloor>1000 / 3 :: rat\<rfloor> = 333" by (rule floor_unique) simp_all
  then have m: "milli (1 / 3) = 333 / 1000" by (simp add: milli_def round_half_even_def sgn_if Let_def)
  have "ev_value ?e = F64 (1 / 3)" "writable (ev_detail ?e)" by (simp_all add: l4_event_new_def)
  with event_line_read_back [of ?e "1 / 3"] show ?thesis unfolding m by blast
qed

end
