(* ===== verification/Spec2Isabelle.thy ===== *)
theory Spec2Isabelle
  imports Agent_Laws Handshake Config_Laws Export_Laws Kernel_Program Threads Build_Script Address_Text Demo_Script Json_Read
begin

text \<open>
  l4scope, an agent that watches the transport layer of a host, as a shallow embedding with its
  correctness theorems. The sources are the five crates under \<^verbatim>\<open>src/l4scope/crates\<close> and the BPF program
  under \<^verbatim>\<open>src/l4scope/bpf\<close>.

  \<^bold>\<open>The program.\<close> A capture source (\<^verbatim>\<open>l4scope-capture\<close>: a scripted demo, a pcap file, the pipe of tcpdump
  or tshark, or the ring buffer of a BPF program) yields packet records. The engine
  (\<^verbatim>\<open>l4scope-detect\<close>) keeps a table of flows and host-wide counters, passes what each packet changed to
  a chain of nine detectors, and sweeps the table for handshakes that never completed and flows that
  fell idle. The agent (\<^verbatim>\<open>l4scope-agent\<close>) reads the command line and a configuration file, pulls packets
  until the source ends, and hands every event to the sinks (\<^verbatim>\<open>l4scope-export\<close>): lines of JSON, the
  Prometheus endpoint, a push to an OpenTelemetry collector. \<^verbatim>\<open>l4scope-core\<close> holds the shared data.

  \<^bold>\<open>Theories and sources.\<close>
  \<^item> \<open>Prelude\<close>, \<open>F64\<close>, \<open>Rust_Str\<close>, \<open>Bytes\<close>: what the code uses of the language and its standard library.
    Integers are words of their width; \<open>f64\<close> is an exact rational, an infinity or a NaN, rounded after
    each operation to the nearest binary64 number; strings are their bytes; fallible functions return
    a sum with the error on the left; a \<open>HashMap\<close> is an association list with distinct keys.
  \<^item> \<open>Core_Types\<close> (\<^verbatim>\<open>types.rs\<close>, \<^verbatim>\<open>error.rs\<close>) and \<open>Core_Config\<close> (\<^verbatim>\<open>config.rs\<close>): addresses, flow keys, packets,
    events and their text; the defaults and the line parser of the configuration. \<open>Config_Laws\<close>: errors
    carry the first bad line, a key touches only its section.
  \<^item> \<open>Rolling_Rate\<close> (\<^verbatim>\<open>window.rs\<close>): the ring of per-second buckets, refined against a counter that remembers
    every event.
  \<^item> \<open>Flow_Table\<close> (\<^verbatim>\<open>flow.rs\<close>): \<open>EngineState::update\<close> as one definition per block over the flow, the counters
    and the delta; the accounting invariant of the half-open connections. \<open>Flow_Behaviour\<close>: each field of
    the delta as a function of packet and flow, runs of packets, and the connection state against an
    inductive step relation. \<open>Handshake\<close>: the three-way handshake with other traffic in between.
  \<^item> \<open>Detectors\<close> (\<^verbatim>\<open>detectors.rs\<close>): the rules, their debounce, the chain; the trait \<open>Detector\<close> is the locale
    \<open>detector_iface\<close>. \<open>Detector_Thresholds\<close>: the thresholds through every rounding.
  \<^item> \<open>Engine\<close> (\<^verbatim>\<open>engine.rs\<close>): process, sweep and stats. \<open>Engine_Runs\<close>: runs of packets and sweeps, with the
    locale \<open>invariant_machine\<close>. \<open>Engine_Alerts\<close>: the spacing of the host-wide alerts and when they fire,
    the two alerts on a rate as interpretations of the locale \<open>rate_alert\<close>.
    \<open>Flow_Isolation\<close>: the engine as a product of machines, one per flow, that do not see each other.
  \<^item> \<open>Frame_Parse\<close> (\<^verbatim>\<open>parse.rs\<close>): link, network and transport headers, against an encoder of frames.
    \<open>Pcap_Stream\<close> (\<^verbatim>\<open>pcapio.rs\<close>): the reader over an arbitrary sequence of read results. \<open>Pcap_Spec\<close>: the reader
    as a function of the bytes alone.
  \<^item> \<open>Capture\<close> (\<^verbatim>\<open>synthetic.rs\<close>, \<^verbatim>\<open>lib.rs\<close>, \<^verbatim>\<open>live.rs\<close>, \<^verbatim>\<open>ebpf.rs\<close>, \<^verbatim>\<open>etw.rs\<close>): the sources and the dispatch.
    \<open>Capture_Laws\<close>: the trait \<open>CaptureSource\<close> as the locale \<open>capture_source\<close>. \<open>Demo_Script\<close>: the scripted traffic,
    scene by scene, through the engine.
  \<^item> \<open>Kernel_Program\<close> (\<^verbatim>\<open>bpf/l4scope.bpf.c\<close>): the program in the kernel over packets with bounds, the record
    it writes to the ring, and its agreement with \<open>Frame_Parse\<close>. \<open>Build_Script\<close> (\<^verbatim>\<open>build.rs\<close>): how it is compiled.
  \<^item> \<open>Metrics\<close> (\<^verbatim>\<open>metrics.rs\<close>): the registry over the locale \<open>counter_map\<close>. \<open>Attribution\<close> (\<^verbatim>\<open>attribution.rs\<close>):
    networks of pods, with the text of addresses read back in \<open>Address_Text\<close>.
    \<open>Export\<close> (\<^verbatim>\<open>json.rs\<close>, \<^verbatim>\<open>http.rs\<close>, \<^verbatim>\<open>otlp.rs\<close>): the sinks. \<open>Export_Laws\<close>: their
    framing. \<open>Json_Read\<close>: the event lines and the body of the push, read by a reader of JSON that is
    written from the grammar alone.
  \<^item> \<open>Agent\<close> (\<^verbatim>\<open>main.rs\<close>): command line, layered configuration, the loop, the final sweep and push, the exit
    code. \<open>Agent_Laws\<close>: what a run reports and that it returns. \<open>Threads\<close>: the main thread, the thread of the
    endpoint and the thread of the push as one step relation over the shared registry and its lock, with
    the two readers as interpretations of the locale \<open>registry_reader\<close>. This theory states the properties of the
    whole program.

  \<^bold>\<open>State.\<close> A struct is a record with the fields of the source, an enum a datatype, and a method that takes
  \<open>&mut self\<close> returns the new state. What lies outside the program is an argument: the files, the
  processes, the BPF loader and the clocks of \<open>capture_env\<close> and \<open>agent_env\<close>, the results of each read
  of a stream (\<open>read_item\<close>), the answers of ring and poll (\<open>ring_item\<close>), the sockets (\<open>conn\<close>, \<open>net\<close>).
  What the program writes is the record \<open>world\<close>.

  \<^bold>\<open>What is shown.\<close>
  \<^item> The whole program: every event is reported once, in order, and counted (C1); it returns, with the right
    exit code (C15); a capture file is replayed from its bytes to the output lines (C27); the last push
    carries the final counters (C36); the demonstration reports eight of the ten kinds of events (C38); its threads see whole updates only, do not
    deadlock, and leave the registry of the sequential program (C17).
  \<^item> The engine: its invariant along every run (C2), the sweep (C7, C8), the alerts (C9, C10, C40),
    the events of a packet (C23); the flows of the table do not interfere (C16).
  \<^item> Flows: handshake (C3), classification of segments by the circular order of sequence numbers (C4, C5),
    duplicate acknowledgements (C19), stalls (C20), the state machine (C14), rates (C6), thresholds (C21, C22).
  \<^item> Capture: frames and capture files are read back (C11, C12, C24), independently of how the bytes arrive
    (C13), with fields in range for any input (C25); the program in the kernel stays inside the packet (C33) and
    agrees with the parser (C35).
  \<^item> Export and configuration: registry (C26), HTTP (C18), event lines (C28, C39), the body of the push (C29),
    pods (C30, C31), configuration errors (C32), flow keys (C34).
  \<^item> Behaviour that surprises: a capture that breaks off is a success (C15), an alert at time zero (C9), later
    fragments (C24), a reused four-tuple (C37), UDP lengths (C25, lemma \<open>udp_length_believed\<close>), control characters
    in JSON (lemma \<open>control_character_rejected\<close> of \<open>Json_Read\<close>), segments cut by the snap length and the length of an
    authentication header (lemmas \<open>truncated_payload_len\<close> and \<open>ah_header_offset\<close> of \<open>Frame_Parse\<close>).

  \<^bold>\<open>Bounds and loops.\<close> Arithmetic wraps as in the release profile. The half-open counters are 32 bits wide and
  equal the number of flows they count as long as the table has fewer than \<open>2 ^ 32 - 1\<close> flows; results
  over runs assume fewer packets than that. Loops over finite data are structural or come with a
  measure (\<open>read_loop\<close>, \<open>pcap_next\<close>, \<open>decode\<close>, \<open>parse_args\<close>: the input that is left); no fuel is chosen
  in the model (the counters of \<open>vlan_walk\<close> and \<open>ext_walk\<close> are the bounded loops of the source).
  \<open>agent_loop\<close> may wait forever on the ring and is a partial function whose value is
  \<open>None\<close> when it does not return; it is shown to return on every source that ends: the synthetic and the
  pcap sources always do (\<open>yields_synthetic\<close>, \<open>yields_pcap\<close>), the ring when polling fails (\<open>yields_ebpf\<close>).
  A capture tool that never exits is outside: its pipe is the finite list of the reads until it does.

  \<^bold>\<open>Not modelled.\<close> The scheduler (every interleaving is considered, and fairness is not assumed); the text the
  threads write to the standard error stream is not interleaved; detaching the BPF program when the
  process ends; the size of the ring (whether a record fits is an argument); failing writes to the event
  sink, which the code ignores; a panic while the lock is held, which the code cannot raise. The unit
  tests and the deployment files are not part of the program.
\<close>

section \<open>The whole program\<close>

text \<open>C1: the agent reports everything and nothing else. When the command line and the configuration are
  accepted, events go to the standard output, and the capture source yields the packets \<open>ps\<close> and then
  ends (cleanly or with an error), the program returns; its standard output is extended by exactly one
  line for each event that the engine raises on those packets and on the final sweep, in order; and
  the registry and the summary count the same packets and events, label by label.\<close>

theorem agent_reports_every_event:
  assumes "parse_args argv args_empty = ArgsOk a" "layered_config (ae_read env) a = Inr cfg"
    "from_target (ae_open_append env) (json_events (cfg_export cfg)) = Inr SinkStdout"
    "open_source (ae_capture env) (cfg_capture cfg) = Inr src" "yields src ps err"
  shows "\<exists>ag evs. run env w argv = Some (RunDone ag) \<and>
    evs = snd (engine_run (engine_new (cfg_detect cfg)) (map Packet ps @ [Sweep (last_ts_of ps 0)])) \<and>
    w_stdout (ag_world ag) = w_stdout w @ concat (map (\<lambda>ev. to_json ev @ nl) evs) \<and>
    packets_total (reg_metrics (ag_registry ag)) = of_nat (length ps) \<and>
    events_total (reg_metrics (ag_registry ag)) = of_nat (length evs) \<and>
    (\<forall>l. counter (event_counts (reg_metrics (ag_registry ag))) l = of_nat (count_list (map label evs) l)) \<and>
    (\<forall>k. counter (ag_summary ag) k = of_nat (count_list (map (\<lambda>ev. kind_str (ev_kind ev)) evs) k))"
proof -
  from run_reported [OF assms, of w] obtain ag ag0 where
    r: "run env w argv = Some (RunDone ag)" "reported ag0 ag (length ps) (full_run (engine_new (cfg_detect cfg)) ps)"
      "ag_registry ag0 = registry_new" "ag_summary ag0 = []" "ag_sink ag0 = SinkStdout" "w_stdout (ag_world ag0) = w_stdout w"
    by blast
  from r(2,3) obtain ops where ops: "ag_registry ag = fold reg_step ops registry_new"
    "labels ops = map label (full_run (engine_new (cfg_detect cfg)) ps)" "packet_ops ops = length ps"
    unfolding reported_def by auto
  show ?thesis
    using r ops registry_log [of ops]
    by (intro exI [of _ ag] exI [of _ "full_run (engine_new (cfg_detect cfg)) ps"])
      (simp add: reported_def ndjson_def bt.val_count full_run_def)
qed

text \<open>A host with nothing but the program: no files, no capture tools, no collector.\<close>

definition example_env :: agent_env where
  "example_env =
     \<lparr>ae_read = (\<lambda>path. Inl ''no such file''),
      ae_capture = \<lparr>env_windows = False, env_open_file = (\<lambda>path. Inl ''no such file''),
        env_spawn = (\<lambda>argv. Inl ''not found''), env_ebpf = None, env_etw = False\<rparr>,
      ae_bind = (\<lambda>addr. None), ae_open_append = (\<lambda>path. Some ''read-only file system''),
      ae_net = (\<lambda>host port. \<lparr>net_connect = Some ''refused'', net_write = None, net_write_body = None, net_reply = ''''\<rparr>),
      ae_var = (\<lambda>v. None), ae_start_ns = 0, ae_flush_times = (0, 0)\<rparr>"

theorem agent_reports_every_event_witness:
  "\<exists>ag. run example_env world_empty [''--demo'', ''--json'', ''stdout''] =
      Some (RunDone ag) \<and>
    packets_total (reg_metrics (ag_registry ag)) = 179 \<and>
    w_stdout (ag_world ag) = concat (map (\<lambda>ev. to_json ev @ nl) (snd (engine_run (engine_new default_detect)
      (map Packet build_script @ [Sweep (ts_nanos (last build_script))]))))"
proof -
  let ?a = "args_empty\<lparr>a_backend := Some ''synthetic'', a_json := Some ''stdout''\<rparr>"
  let ?cfg = "default_config\<lparr>cfg_capture := (cfg_capture default_config)\<lparr>cc_backend := Synthetic\<rparr>,
    cfg_export := (cfg_export default_config)\<lparr>json_events := ''stdout''\<rparr>\<rparr>"
  have a: "parse_args [''--demo'', ''--json'', ''stdout''] args_empty = ArgsOk ?a" by simp
  have c: "layered_config (ae_read example_env) ?a = Inr ?cfg"
    by (simp add: layered_config_def args_empty_def apply_backend_def override_def)
  have s: "from_target (ae_open_append example_env) (json_events (cfg_export ?cfg)) = Inr SinkStdout"
    by (simp add: from_target_def trim_graphic graphic_def)
  have o: "open_source (ae_capture example_env) (cfg_capture ?cfg) = Inr (SynthSource synthetic_new)"
    by (simp add: open_source_def)
  have y: "yields (SynthSource synthetic_new) build_script None"
    using yields_synthetic [of synthetic_new] by (simp add: synthetic_new_def)
  have l: "build_script \<noteq> []" using length_build_script by auto
  have d: "cfg_detect ?cfg = default_detect" by (simp add: default_config_def)
  from agent_reports_every_event [OF a c s o y, of world_empty]
  show ?thesis unfolding d last_ts_of_def length_build_script by (auto simp: l world_empty_def)
qed

text \<open>C36: the last push carries the final counters. When the push is enabled and the collector accepts the
  connection and the bytes, a run on a source that ends sends, besides the pushes of the periodic
  thread, exactly one request, after everything has been counted: to the configured path, with the length of the body, and with the metrics of the
  final registry as its body.\<close>

theorem final_push_exports_registry:
  assumes "parse_args argv args_empty = ArgsOk a" "layered_config (ae_read env) a = Inr cfg"
    "from_target (ae_open_append env) (json_events (cfg_export cfg)) = Inr sink"
    "open_source (ae_capture env) (cfg_capture cfg) = Inr src" "yields src ps err"
    "oc_enabled (cfg_otlp cfg)" "parse_target (cfg_otlp cfg) = Inr t"
    "ae_net env (t_host t) (t_port t) = \<lparr>net_connect = None, net_write = None, net_write_body = None, net_reply = reply\<rparr>"
  shows "\<exists>ag body. run env w argv = Some (RunDone ag) \<and>
    body = build_body (snapshot (ag_registry ag)) (build_resource_attrs (ae_var env) (cfg_otlp cfg))
      (fst (ae_flush_times env)) (snd (ae_flush_times env)) \<and>
    w_posts (ag_world ag) = w_posts w @ [otlp_request t body @ body] \<and>
    packets_total (reg_metrics (ag_registry ag)) = of_nat (length ps)"
proof -
  let ?attrs = "build_resource_attrs (ae_var env) (cfg_otlp cfg)"
  obtain p where p: "otlp_start (cfg_otlp cfg) ?attrs (ae_start_ns env) = Inr p" "p_target p = t"
    using assms(7) by (simp add: otlp_start_def)
  have po: "pusher_of env cfg = Some p" using assms(6) p(1) by (simp add: pusher_of_def start_push_def)
  from run_shape [OF assms(1-5), of w] obtain ag ag0 where
    r: "run env w argv = Some (RunDone (drop_agent (print_summary (final_flush env cfg (pusher_of env cfg) ag))))"
      "reported ag0 ag (length ps) (full_run (engine_new (cfg_detect cfg)) ps)" "w_posts (ag_world ag) = w_posts w"
      "ag_registry ag0 = registry_new" by blast
  from r(2,4) obtain ops where ops: "ag_registry ag = fold reg_step ops registry_new" "packet_ops ops = length ps"
    unfolding reported_def by auto
  have net: "net_connect (ae_net env (t_host (p_target p)) (t_port (p_target p))) = None"
    "net_write (ae_net env (t_host (p_target p)) (t_port (p_target p))) = None"
    "net_write_body (ae_net env (t_host (p_target p)) (t_port (p_target p))) = None"
    by (simp_all add: p(2) assms(8))
  note fl = final_flush_posts [OF p(1) net refl, of ag]
  show ?thesis
    by (rule exI [of _ "drop_agent (print_summary (final_flush env cfg (pusher_of env cfg) ag))"],
        rule exI [of _ "build_body (snapshot (ag_registry ag)) ?attrs (fst (ae_flush_times env)) (snd (ae_flush_times env))"])
      (simp add: r(1,3) po fl p(2) ops registry_log(1))
qed

text \<open>The same host with a collector, configured by a file.\<close>

definition push_file :: string where
  "push_file = ''[otlp]'' @ nl @ ''enabled = true'' @ nl"

definition push_env :: agent_env where
  "push_env = example_env\<lparr>ae_read := (\<lambda>path. Inr push_file),
     ae_net := (\<lambda>host port. \<lparr>net_connect = None, net_write = None, net_write_body = None, net_reply = ''HTTP/1.1 200 OK''\<rparr>)\<rparr>"

lemma push_config: "from_str push_file = Inr (default_config\<lparr>cfg_otlp := (cfg_otlp default_config)\<lparr>oc_enabled := True\<rparr>\<rparr>)"
proof -
  have l: "lines push_file = [''[otlp]'', ''enabled = true'']"
    by (simp add: lines_def push_file_def nl_def suffix_def)
  have p1: "parse_line 0 ''[otlp]'' (c, '''') = Inr (c, ''otlp'')" for c
  proof -
    have t: "trim (strip_comment ''[otlp]'') = ''[otlp]''" "trim ''otlp'' = ''otlp''"
      by (simp_all add: trim_graphic graphic_def strip_comment_def)
    have "section_header ''[otlp]'' = Some ''otlp''" by code_simp
    with t show ?thesis by (simp add: parse_line_def)
  qed
  have p2: "parse_line (Suc 0) ''enabled = true'' (c, ''otlp'') = Inr (set_otlp c (oc_enabled_update (\<lambda>_. True)), ''otlp'')" for c
  proof -
    have t: "trim (strip_comment ''enabled = true'') = ''enabled = true''" "trim '' true'' = ''true''"
      by (simp_all add: trim_graphic trim_blank_left graphic_def strip_comment_def)
    have e: "trim ''enabled '' = ''enabled''"
      using trim_blank_right [of "''enabled''"] by (simp add: trim_graphic graphic_def)
    have s: "section_header ''enabled = true'' = None" "unquote ''true'' = ''true''" by code_simp+
    show ?thesis by (simp add: parse_line_def t e s apply_key_def apply_otlp_def parse_bool_def on_ok_def)
  qed
  show ?thesis by (simp add: from_str_def l p1 p2 on_ok_def set_otlp_def)
qed

theorem final_push_exports_registry_witness:
  "\<exists>ag r. run push_env world_empty [''--config'', ''l4scope.toml''] =
      Some (RunDone ag) \<and> w_posts (ag_world ag) = [r]"
proof -
  let ?a = "args_empty\<lparr>a_config := Some ''l4scope.toml''\<rparr>"
  let ?cfg = "default_config\<lparr>cfg_otlp := (cfg_otlp default_config)\<lparr>oc_enabled := True\<rparr>\<rparr>"
  have a: "parse_args [''--config'', ''l4scope.toml''] args_empty = ArgsOk ?a" by simp
  have c: "layered_config (ae_read push_env) ?a = Inr ?cfg"
    by (simp add: layered_config_def args_empty_def override_def load_def push_env_def push_config)
  have s: "from_target (ae_open_append push_env) (json_events (cfg_export ?cfg)) = Inr SinkStdout"
    by (simp add: from_target_def default_config_def trim_graphic graphic_def)
  have o: "open_source (ae_capture push_env) (cfg_capture ?cfg) = Inr (SynthSource synthetic_new)"
    by (simp add: open_source_def default_config_def)
  have y: "yields (SynthSource synthetic_new) build_script None"
    using yields_synthetic [of synthetic_new] by (simp add: synthetic_new_def)
  have "trim ''http://localhost:4318'' = ''http://localhost:4318''" by (simp add: trim_graphic graphic_def)
  moreover have "strip_prefix_str ''http://'' ''http://localhost:4318'' = Some ''localhost:4318''"
    "hd (split_on (CHR ''/'') ''localhost:4318'') = ''localhost:4318''"
    "rsplit_once (CHR '':'') ''localhost:4318'' = Some (''localhost'', ''4318'')" by code_simp+
  ultimately obtain t where t: "parse_target (cfg_otlp ?cfg) = Inr t"
    by (simp add: parse_target_def default_config_def Let_def)
  have n: "ae_net push_env (t_host t) (t_port t) = \<lparr>net_connect = None, net_write = None, net_write_body = None, net_reply = ''HTTP/1.1 200 OK''\<rparr>"
    by (simp add: push_env_def)
  from final_push_exports_registry [OF a c s o y _ t n, of world_empty]
  show ?thesis by (auto simp: world_empty_def)
qed

text \<open>C15: the program ends, and its exit code says how. On a host where polling the ring does not wait
  forever, for every command line and whatever the files, the capture tools and the sockets answer,
  the program returns; it exits with success exactly when the help was asked for or the
  configuration, the event sink and the capture source could all be opened. In particular it exits with
  success after a capture that breaks off with an error, where \<^verbatim>\<open>docs/ARCHITECTURE.md\<close> (section 7) says that
  the agent exits non-zero so that its supervisor restarts it; the witness is such a run.\<close>

theorem main_returns:
  assumes "ring_ends (ae_capture env)"
  shows "\<exists>code w'. main env w argv = Some (code, w') \<and>
    (code = ExitSuccess \<longleftrightarrow> parse_args argv args_empty = ArgsHelp \<or> starts env argv)"
proof -
  consider "parse_args argv args_empty = ArgsHelp" | "starts env argv"
    | "\<not> starts env argv" "parse_args argv args_empty \<noteq> ArgsHelp" by blast
  then show ?thesis
  proof cases
    case 1
    then show ?thesis by (simp add: main_def run_def)
  next
    case 2
    from starts_run [OF this assms, of w] 2 show ?thesis by (auto simp: main_def)
  next
    case 3
    from not_starts_run [OF this, of w] 3 show ?thesis by (auto simp: main_def)
  qed
qed

text \<open>A host whose ring is loaded, wakes up once without a record, and then fails.\<close>

definition ring_env :: agent_env where
  "ring_env = example_env\<lparr>ae_capture := (ae_capture example_env)\<lparr>env_ebpf := Some (\<lambda>iface.
     \<lparr>bpf_load = None, bpf_program = None, bpf_not_classifier = None, bpf_program_load = None,
      bpf_attach_ingress = None, bpf_attach_egress = None, bpf_events_map = True, bpf_ring_open = None,
      bpf_ring = [PollReady, PollFailed ''interrupted''], bpf_clock = (1, 0, 5, 0), bpf_little = True\<rparr>)\<rparr>\<rparr>"

theorem main_returns_witness:
  "\<exists>w'. main ring_env world_empty
     [''--backend'', ''ebpf'', ''--json'', ''off''] = Some (ExitSuccess, w')"
proof -
  let ?argv = "[''--backend'', ''ebpf'', ''--json'', ''off'']"
  let ?a = "args_empty\<lparr>a_backend := Some ''ebpf'', a_json := Some ''off''\<rparr>"
  let ?cfg = "default_config\<lparr>cfg_capture := (cfg_capture default_config)\<lparr>cc_backend := Ebpf\<rparr>,
    cfg_export := (cfg_export default_config)\<lparr>json_events := ''off''\<rparr>\<rparr>"
  have r: "ring_ends (ae_capture ring_env)" by (simp add: ring_ends_def ring_env_def poll_fails_def)
  have a: "parse_args ?argv args_empty = ArgsOk ?a" by simp
  have c: "layered_config (ae_read ring_env) ?a = Inr ?cfg"
    by (simp add: layered_config_def args_empty_def apply_backend_def override_def)
  have s: "from_target (ae_open_append ring_env) ''off'' = Inr SinkOff"
    by (simp add: from_target_def trim_graphic graphic_def)
  have "\<exists>src. open_source (ae_capture ring_env) (cfg_capture ?cfg) = Inr src"
    by (simp add: open_source_def open_ebpf_def ebpf_open_def ring_env_def Let_def)
  then have "starts ring_env ?argv" using s by (auto simp: starts_def a c simp del: parse_args.simps)
  with main_returns [OF r, of world_empty ?argv]
  show ?thesis by auto
qed

text \<open>C27: replaying a capture file, end to end. When the pcap backend is configured on a file that holds a
  written capture, in either byte order and resolution and in whatever pieces the file is read, the
  program returns, and its standard output is extended by exactly the events of the engine on the
  packets of the recorded frames, in the order of the file, and on the final sweep.\<close>

theorem replay_reports_capture:
  assumes "parse_args argv args_empty = ArgsOk a" "layered_config (ae_read env) a = Inr cfg"
    "from_target (ae_open_append env) (json_events (cfg_export cfg)) = Inr SinkStdout"
    "cc_backend (cfg_capture cfg) = PcapFile" "trim (cc_pcap_path (cfg_capture cfg)) \<noteq> []"
    "env_open_file (ae_capture env) (cc_pcap_path (cfg_capture cfg)) = Inr r" "clean r"
    "bytes_of r = global_header pf misc @ concat (map (rec_bytes pf) rs)" "pf_iface pf = 0" "length misc = 16"
    "list_all (\<lambda>x. length (rec_frame x) \<le> 262144) rs"
  shows "\<exists>ag ps. run env w argv = Some (RunDone ag) \<and> ps = List.map_filter (rec_packet pf) rs \<and>
    packets_total (reg_metrics (ag_registry ag)) = of_nat (length ps) \<and>
    w_stdout (ag_world ag) = w_stdout w @ concat (map (\<lambda>ev. to_json ev @ nl)
      (snd (engine_run (engine_new (cfg_detect cfg)) (map Packet ps @ [Sweep (last_ts_of ps 0)]))))"
proof -
  let ?ps = "List.map_filter (rec_packet pf) rs"
  from pcap_roundtrip [OF assms(7,10,11,8)] assms(9) obtain s where
    s: "pcap_new r 0 = Inr s" "drain s = (?ps, None)" by auto
  let ?s = "\<lparr>psrc_name = ''pcap_file:'' @ cc_pcap_path (cfg_capture cfg), psrc_stream = s, psrc_child = None\<rparr>"
  have o: "open_source (ae_capture env) (cfg_capture cfg) = Inr (PcapSource ?s)"
    using assms(4-6) s(1) by (simp add: open_source_def pcap_source_from_reader_def)
  have y: "yields (PcapSource ?s) ?ps None" using yields_pcap [of ?s] s(2) by simp
  from run_reported [OF assms(1-3) o y, of w] obtain ag ag0 where
    g: "run env w argv = Some (RunDone ag)" "reported ag0 ag (length ?ps) (full_run (engine_new (cfg_detect cfg)) ?ps)"
      "ag_registry ag0 = registry_new" "ag_sink ag0 = SinkStdout" "w_stdout (ag_world ag0) = w_stdout w" by blast
  from g(2,3) obtain ops where "ag_registry ag = fold reg_step ops registry_new" "packet_ops ops = length ?ps"
    unfolding reported_def by auto
  with g registry_log(1) [of ops] show ?thesis
    by (auto simp: reported_def ndjson_def full_run_def)
qed

text \<open>A file with one recorded SYN, read in two pieces.\<close>

definition replay_format :: pcap_format where
  "replay_format = \<lparr>pf_little = True, pf_nanos = False, pf_linktype = DLT_RAW, pf_iface = 0\<rparr>"

definition replay_record :: pcap_rec where
  "replay_record = \<lparr>rec_sec = 1700000000, rec_frac = 5, rec_orig = 40, rec_frame =
     ipv4_packet 0 1 0 64 IPPROTO_TCP 0 0x0A000005 0x0A000009 [] (tcp_segment 40001 443 1000 0 SYN 64240 0 [] [])\<rparr>"

definition replay_bytes :: bytes where
  "replay_bytes = global_header replay_format (replicate 16 0) @ rec_bytes replay_format replay_record"

definition replay_env :: agent_env where
  "replay_env = example_env\<lparr>ae_capture := (ae_capture example_env)\<lparr>env_open_file := (\<lambda>path.
     Inr [Chunk (take 20 replay_bytes), Interrupted, Chunk (drop 20 replay_bytes)])\<rparr>\<rparr>"

theorem replay_reports_capture_witness:
  "\<exists>ag. run replay_env world_empty [''--pcap'', ''in.pcap''] = Some (RunDone ag) \<and>
    w_stdout (ag_world ag) = concat (map (\<lambda>ev. to_json ev @ nl)
      (let ps = List.map_filter (rec_packet replay_format) [replay_record] in
       snd (engine_run (engine_new default_detect) (map Packet ps @ [Sweep (last_ts_of ps 0)]))))"
proof -
  let ?r = "[Chunk (take 20 replay_bytes), Interrupted, Chunk (drop 20 replay_bytes)]"
  let ?a = "args_empty\<lparr>a_pcap := Some ''in.pcap''\<rparr>"
  let ?cfg = "default_config\<lparr>cfg_capture := (cfg_capture default_config)\<lparr>cc_backend := PcapFile, cc_pcap_path := ''in.pcap''\<rparr>\<rparr>"
  have a: "parse_args [''--pcap'', ''in.pcap''] args_empty = ArgsOk ?a" by simp
  have c: "layered_config (ae_read replay_env) ?a = Inr ?cfg"
    by (simp add: layered_config_def args_empty_def override_def apply_backend_def)
  have s: "from_target (ae_open_append replay_env) (json_events (cfg_export ?cfg)) = Inr SinkStdout"
    by (simp add: from_target_def default_config_def trim_graphic graphic_def)
  have b: "cc_backend (cfg_capture ?cfg) = PcapFile" "trim (cc_pcap_path (cfg_capture ?cfg)) \<noteq> []"
    by (simp_all add: trim_graphic graphic_def)
  have f: "env_open_file (ae_capture replay_env) (cc_pcap_path (cfg_capture ?cfg)) = Inr ?r"
    by (simp add: replay_env_def)
  have l: "length (rec_frame replay_record) = 40"
    by (simp add: replay_record_def ipv4_packet_def tcp_segment_def ipv4_bytes_def tcp_bytes_def)
  then have "length replay_bytes = 80" by (simp add: replay_bytes_def global_header_def rec_bytes_def)
  then have r: "clean ?r" by auto
  have "bytes_of ?r = replay_bytes" by simp
  then have rb: "bytes_of ?r = global_header replay_format (replicate 16 0) @ concat (map (rec_bytes replay_format) [replay_record])"
    by (simp only: replay_bytes_def list.map concat.simps append_Nil2)
  from replay_reports_capture [OF a c s b f r rb _ _ _, of world_empty] l show ?thesis
    by (auto simp: replay_format_def default_config_def world_empty_def Let_def)
qed

text \<open>C38: what \<^verbatim>\<open>l4scope --demo\<close> shows, on any host and whatever it answers. The program returns, has seen the 179
  packets of the script, and prints one line for each event; the kinds of the events printed, and the
  entries of the summary, are eight of the ten: no segment is reported as out of order and no connection
  churn is reported, although the script is meant to trip every detector.\<close>

theorem demo_reports_kinds:
  "\<exists>ag evs. run env w [''--demo''] = Some (RunDone ag) \<and>
     packets_total (reg_metrics (ag_registry ag)) = 179 \<and>
     w_stdout (ag_world ag) = w_stdout w @ concat (map (\<lambda>ev. to_json ev @ nl) evs) \<and>
     ev_kind ` set evs = UNIV - {OutOfOrder, ConnectionChurn} \<and>
     fst ` set (ag_summary ag) = kind_str ` (UNIV - {OutOfOrder, ConnectionChurn})"
proof -
  let ?a = "args_empty\<lparr>a_backend := Some ''synthetic''\<rparr>"
  let ?cfg = "default_config\<lparr>cfg_capture := (cfg_capture default_config)\<lparr>cc_backend := Synthetic\<rparr>\<rparr>"
  let ?evs = "full_run (engine_new default_detect) build_script"
  have a: "parse_args [''--demo''] args_empty = ArgsOk ?a" by simp
  have c: "layered_config (ae_read env) ?a = Inr ?cfg"
    by (simp add: layered_config_def args_empty_def apply_backend_def override_def)
  have s: "from_target (ae_open_append env) (json_events (cfg_export ?cfg)) = Inr SinkStdout"
    by (simp add: from_target_def trim_graphic graphic_def default_config_def)
  have o: "open_source (ae_capture env) (cfg_capture ?cfg) = Inr (SynthSource synthetic_new)"
    by (simp add: open_source_def)
  have y: "yields (SynthSource synthetic_new) build_script None"
    using yields_synthetic [of synthetic_new] by (simp add: synthetic_new_def)
  have d: "cfg_detect ?cfg = default_detect" by (simp add: default_config_def)
  from run_reported [OF a c s o y, of w] obtain ag ag0 where
    r: "run env w [''--demo''] = Some (RunDone ag)" "reported ag0 ag 179 ?evs"
      "ag_registry ag0 = registry_new" "ag_summary ag0 = []" "ag_sink ag0 = SinkStdout" "w_stdout (ag_world ag0) = w_stdout w"
    unfolding d length_build_script by blast
  from r(2,3) obtain ops where ops: "ag_registry ag = fold reg_step ops registry_new" "packet_ops ops = 179"
    unfolding reported_def by auto
  have kinds: "ev_kind ` set ?evs = UNIV - {OutOfOrder, ConnectionChurn}"
    using demo_kinds_eq by (simp add: full_run_def last_ts_of_def script_end)
  have "fst ` set (fold bump ks m) = set ks \<union> fst ` set m" for ks and m :: "string counters"
    by (induction ks arbitrary: m) (auto simp: fst_set_bump)
  then have "fst ` set (ag_summary ag) = kind_str ` ev_kind ` set ?evs"
    using r(2,4) by (simp add: reported_def image_image)
  with r ops registry_log [of ops] kinds show ?thesis
    by (intro exI [of _ ag] exI [of _ ?evs]) (simp add: reported_def ndjson_def)
qed

end
